(* ===== verification/Prelude.thy ===== *)
theory Prelude
  imports Main "HOL-Library.Word"
begin

text \<open>
  What the component theories share: the result type of a step of the program
  (\<open>res\<close>: it returns, it runs into undefined behaviour, or it never returns), its
  sequencing \<open>andThen\<close>, the machine types of the source (\<open>size_t\<close>, \<open>in_port_t\<close>,
  bytes, pointers), C strings, and generic lemmas on lists and words.
\<close>

section \<open>Machine types\<close>

type_synonym size_t = "64 word"
type_synonym in_port_t = "16 word"
type_synonym byte = "8 word"
type_synonym ptr = nat \<comment> \<open>an address; 0 is \<open>nullptr\<close>\<close>

abbreviation (input) nullptr :: ptr where
  "nullptr \<equiv> 0"

section \<open>Results\<close>

text \<open>
  \<open>Ok\<close> is a normal return. \<open>Fault\<close> is undefined behaviour: a null or dangling pointer
  is dereferenced, a block is freed twice, an array is read out of its bounds, a mutex is
  unlocked by nobody. \<open>Blocked\<close> is a call that never returns: the environment gives no
  further answer, or a mutex is locked by the thread that holds it.
\<close>

datatype 'a res = Ok 'a | Fault | Blocked

fun andThen :: "'a res \<Rightarrow> ('a \<Rightarrow> 'b res) \<Rightarrow> 'b res" where
  "andThen (Ok a) f = f a"
| "andThen Fault f = Fault"
| "andThen Blocked f = Blocked"

lemma andThen_cong [fundef_cong]:
  "m = m' \<Longrightarrow> (\<And>a. m' = Ok a \<Longrightarrow> f a = f' a) \<Longrightarrow> andThen m f = andThen m' f'"
  by (cases m') auto

lemma andThen_Ok_iff: "andThen m f = Ok b \<longleftrightarrow> (\<exists>a. m = Ok a \<and> f a = Ok b)"
  by (cases m) auto

lemma andThen_Fault_iff:
  "andThen m f = Fault \<longleftrightarrow> m = Fault \<or> (\<exists>a. m = Ok a \<and> f a = Fault)"
  by (cases m) auto

lemma andThen_assoc: "andThen (andThen m f) g = andThen m (\<lambda>a. andThen (f a) g)"
  by (cases m) auto

lemma andThen_OkE:
  assumes "andThen m f = Ok b"
  obtains a where "m = Ok a" and "f a = Ok b"
  using assms by (cases m) auto

lemma andThen_if:
  "andThen (if c then a else b) f = (if c then andThen a f else andThen b f)"
  by simp

text \<open>The value of a normal return; only used on results known to be \<open>Ok\<close>.\<close>

fun is_ok :: "'a res \<Rightarrow> bool" where
  "is_ok (Ok a) = True"
| "is_ok _ = False"

lemma is_ok_iff: "is_ok r \<longleftrightarrow> (\<exists>a. r = Ok a)"
  by (cases r) auto

section \<open>Weakest preconditions\<close>

text \<open>
  \<open>wp r Q\<close>: \<open>r\<close> is not undefined behaviour, and if it returns, its value satisfies \<open>Q\<close>.
  Sequencing distributes over it, so a property of an operation follows from the
  specifications of the calls it makes.
\<close>

fun wp :: "'a res \<Rightarrow> ('a \<Rightarrow> bool) \<Rightarrow> bool" where
  "wp (Ok a) Q = Q a"
| "wp Fault Q = False"
| "wp Blocked Q = True"

lemma wp_andThen [simp]: "wp (andThen m f) Q = wp m (\<lambda>a. wp (f a) Q)"
  by (cases m) auto

lemma wp_if [simp]: "wp (if c then a else b) Q = (if c then wp a Q else wp b Q)"
  by simp

lemma wp_mono: "wp r P \<Longrightarrow> (\<And>a. P a \<Longrightarrow> Q a) \<Longrightarrow> wp r Q"
  by (cases r) auto

lemma wp_Ok: "wp r Q \<Longrightarrow> r = Ok a \<Longrightarrow> Q a"
  by auto

lemma wp_not_Fault: "wp r Q \<Longrightarrow> r \<noteq> Fault"
  by (cases r) auto

lemma wpI: "r \<noteq> Fault \<Longrightarrow> (\<And>a. r = Ok a \<Longrightarrow> Q a) \<Longrightarrow> wp r Q"
  by (cases r) auto

lemma wp_conj: "wp r P \<Longrightarrow> wp r Q \<Longrightarrow> wp r (\<lambda>a. P a \<and> Q a)"
  by (cases r) auto

section \<open>Mutexes\<close>

text \<open>
  A mutex is the flag \<open>locked\<close>. Locking it twice in one thread blocks for ever; unlocking a
  mutex that is not locked is undefined behaviour.
\<close>

definition mutex_lock :: "bool \<Rightarrow> bool res" where
  "mutex_lock l = (if l then Blocked else Ok True)"

definition mutex_unlock :: "bool \<Rightarrow> bool res" where
  "mutex_unlock l = (if l then Ok False else Fault)"

lemma mutex_simps [simp]:
  "mutex_lock False = Ok True" "mutex_lock True = Blocked"
  "mutex_unlock True = Ok False" "mutex_unlock False = Fault"
  by (simp_all add: mutex_lock_def mutex_unlock_def)

section \<open>Collections of facts\<close>

named_theorems res_simps \<open>sequencing and inversion of results\<close>
named_theorems heap_simps \<open>reads and writes of the buffer heap\<close>
named_theorems sys_defs \<open>definitions of the calls to the operating system\<close>

lemmas [res_simps] = andThen_Ok_iff andThen_Fault_iff andThen_assoc andThen_if

section \<open>C strings and arrays\<close>

abbreviation (input) NUL :: char where
  "NUL \<equiv> CHR 0x00"

text \<open>
  A string the code walks with \<open>while (*p)\<close> is the list of its characters before the
  terminator. A character array is the list of all its elements: \<open>strlen\<close> of an array
  without a terminator reads past its end.
\<close>

definition strlen :: "char list \<Rightarrow> nat res" where
  "strlen a = (if NUL \<in> set a then Ok (length (takeWhile (\<lambda>c. c \<noteq> NUL) a)) else Fault)"

definition c_string :: "char list \<Rightarrow> bool" where
  "c_string s \<longleftrightarrow> NUL \<notin> set s"

lemma c_string_simps [simp]:
  "c_string []"
  "c_string (c # s) \<longleftrightarrow> c \<noteq> NUL \<and> c_string s"
  "c_string (s @ t) \<longleftrightarrow> c_string s \<and> c_string t"
  by (auto simp: c_string_def)

lemma strlen_terminated [simp]:
  "c_string s \<Longrightarrow> strlen (s @ NUL # t) = Ok (length s)"
  by (auto simp: strlen_def c_string_def takeWhile_append)

lemma strlen_padded:
  "c_string s \<Longrightarrow> 0 < n \<Longrightarrow> strlen (s @ replicate n NUL) = Ok (length s)"
  by (cases n) auto

lemma takeWhile_c_string [simp]:
  "c_string s \<Longrightarrow> takeWhile (\<lambda>c. c \<noteq> NUL) (s @ NUL # t) = s"
  by (auto simp: c_string_def takeWhile_append)

section \<open>Lists\<close>

lemma last_Cons_append [simp]: "last (a # xs @ [b]) = b"
  by simp

lemma length_filter_Cons_le: "length (filter P xs) \<le> length xs"
  by (rule length_filter_le)

end
