(* ===== verification/Address_Text.thy ===== *)
theory Address_Text
  imports Prelude
begin

text \<open>
  The texts of socket addresses (net/socket.cpp): \<open>parse_port\<close>, \<open>extract_ip_port\<close>, and the
  decimal conversion \<open>%u\<close> the printing functions use. A C string is the list of its characters;
  a pointer into it is an index.
\<close>

section \<open>Ports\<close>

abbreviation char_code :: "char \<Rightarrow> nat" where
  "char_code c \<equiv> of_char c"

fun parse_port_loop :: "32 word \<Rightarrow> string \<Rightarrow> 32 word option" where
  "parse_port_loop n [] = Some n"
| "parse_port_loop n (c # s) =
     (if 48 \<le> char_code c \<and> char_code c \<le> 57 then
        let n = n * 10 + of_nat (char_code c - 48)
        in if n \<le> 65535 then parse_port_loop n s else None
      else None)"

definition parse_port :: "string \<Rightarrow> in_port_t option" where
  "parse_port s =
     (case parse_port_loop 0 s of
        None \<Rightarrow> None
      | Some n \<Rightarrow> if 0 < n then Some (ucast n) else None)"

section \<open>Address and port\<close>

definition INET6_ADDRSTRLEN :: nat where
  "INET6_ADDRSTRLEN = 46"

text \<open>The scan for the last colon: \<open>p\<close> is the index of the character at hand.\<close>

fun last_colon :: "nat \<Rightarrow> string \<Rightarrow> nat option \<Rightarrow> nat option" where
  "last_colon p [] colon = colon"
| "last_colon p (c # s) colon = last_colon (p + 1) s (if c = CHR '':'' then Some p else colon)"

definition extract_ip_port :: "string \<Rightarrow> (string \<times> in_port_t) option" where
  "extract_ip_port address =
     (case last_colon 0 address None of
        None \<Rightarrow> None
      | Some colon \<Rightarrow>
          let len = colon in
          if 0 < len then
            (let start = (if address ! 0 = CHR ''['' then
                            if 2 < len \<and> address ! (colon - 1) = CHR '']'' then Some (1, len - 2)
                            else None
                          else Some (0, len)) in
             case start of
               None \<Rightarrow> None
             | Some (skip, len) \<Rightarrow>
                 if len < INET6_ADDRSTRLEN then
                   (case parse_port (drop (colon + 1) address) of
                      None \<Rightarrow> None
                    | Some port \<Rightarrow> Some (take len (drop skip address), port))
                 else None)
          else None)"

section \<open>Decimal numbers\<close>

definition is_digit :: "char \<Rightarrow> bool" where
  "is_digit c \<longleftrightarrow> 48 \<le> char_code c \<and> char_code c \<le> 57"

text \<open>The value of a string of digits, and the digits \<open>%u\<close> prints.\<close>

fun decimal :: "nat \<Rightarrow> string \<Rightarrow> nat" where
  "decimal n [] = n"
| "decimal n (c # s) = decimal (n * 10 + (char_code c - 48)) s"

fun utoa :: "nat \<Rightarrow> string" where
  "utoa n = (if n < 10 then [char_of (48 + n)] else utoa (n div 10) @ [char_of (48 + n mod 10)])"

declare utoa.simps [simp del]

lemma decimal_append: "decimal n (s @ t) = decimal (decimal n s) t"
  by (induction s arbitrary: n) auto

lemma decimal_ge: "n \<le> decimal n s"
proof (induction s arbitrary: n)
  case (Cons c s)
  have "n \<le> n * 10 + (char_code c - 48)" by simp
  with Cons [of "n * 10 + (char_code c - 48)"] show ?case by simp
qed simp

lemma char_code_of: "n < 256 \<Longrightarrow> char_code (char_of n) = n"
  by simp

lemma utoa_digits: "c \<in> set (utoa n) \<Longrightarrow> is_digit c"
proof (induction n rule: utoa.induct)
  case (1 n)
  then show ?case
    by (subst (asm) (2) utoa.simps) (auto simp: is_digit_def split: if_splits)
qed

lemma utoa_not_Nil: "utoa n \<noteq> []"
  by (subst utoa.simps) simp

lemma decimal_utoa: "decimal 0 (utoa n) = n"
proof (induction n rule: utoa.induct)
  case (1 n)
  have "n mod 10 < 10" by simp
  then have c: "char_code (char_of (48 + n mod 10)) = 48 + n mod 10"
    by (intro char_code_of) linarith
  show ?case
  proof (cases "n < 10")
    case True
    then show ?thesis by (subst utoa.simps) (simp add: char_code_of)
  next
    case False
    with 1 c show ?thesis by (subst utoa.simps) (simp add: decimal_append)
  qed
qed

lemma utoa_length: "n < 10 ^ k \<Longrightarrow> 0 < k \<Longrightarrow> length (utoa n) \<le> k"
proof (induction k arbitrary: n)
  case (Suc k)
  show ?case
  proof (cases "n < 10")
    case True
    then show ?thesis by (subst utoa.simps) simp
  next
    case False
    with Suc.prems have "n div 10 < 10 ^ k" "0 < k" by (auto intro!: gr0I)
    from Suc.IH [OF this] False show ?thesis by (subst utoa.simps) simp
  qed
qed simp

lemma is_digit_not:
  "is_digit c \<Longrightarrow> c \<noteq> CHR '':''" "is_digit c \<Longrightarrow> c \<noteq> NUL" "is_digit c \<Longrightarrow> c \<noteq> CHR ''[''"
  by (auto simp: is_digit_def)

text \<open>
  The 32-bit accumulator of \<open>parse_port\<close> never overflows: it stays at most 65535, and one more
  digit keeps it below \<open>2 ^ 32\<close>. So the loop computes the value of the digits.
\<close>

lemma parse_port_step:
  assumes "unat n \<le> 65535" and "is_digit c"
  shows "unat (n * 10 + of_nat (char_code c - 48) :: 32 word) = unat n * 10 + (char_code c - 48)"
proof -
  obtain d where d: "char_code c - 48 = d" by blast
  have "d \<le> 9" using assms(2) unfolding d [symmetric] by (auto simp: is_digit_def)
  with assms(1) have "unat n * 10 + d < 2 ^ 32" by simp
  moreover have "n * 10 + of_nat d = of_nat (unat n * 10 + d)" by simp
  ultimately show ?thesis unfolding d by (simp only: unat_of_nat) simp
qed

lemma parse_port_loop_Some:
  assumes "unat n \<le> 65535"
  shows "parse_port_loop n s =
    (if (\<forall>c \<in> set s. is_digit c) \<and> decimal (unat n) s \<le> 65535
     then Some (of_nat (decimal (unat n) s)) else None)"
  using assms
proof (induction s arbitrary: n)
  case Nil
  then show ?case by simp
next
  case (Cons c s)
  let ?n = "n * 10 + of_nat (char_code c - 48)"
  show ?case
  proof (cases "is_digit c")
    case True
    note step = parse_port_step [OF Cons.prems True]
    have le: "?n \<le> 65535 \<longleftrightarrow> unat n * 10 + (char_code c - 48) \<le> 65535"
      by (simp only: word_le_nat_alt step) simp
    show ?thesis
    proof (cases "?n \<le> 65535")
      case small: True
      with le step have "unat ?n \<le> 65535" by simp
      from Cons.IH [OF this] True small show ?thesis
        unfolding step by (simp add: is_digit_def Let_def)
    next
      case False
      with le decimal_ge [of "unat n * 10 + (char_code c - 48)" s]
      have "\<not> decimal (unat n) (c # s) \<le> 65535" by simp
      with False True show ?thesis by (simp add: is_digit_def Let_def)
    qed
  next
    case False
    then have "\<not> (48 \<le> char_code c \<and> char_code c \<le> 57)" by (simp add: is_digit_def)
    with False show ?thesis by (simp only: parse_port_loop.simps if_False) simp
  qed
qed

lemma parse_port_value:
  "parse_port s =
     (if (\<forall>c \<in> set s. is_digit c) \<and> 0 < decimal 0 s \<and> decimal 0 s \<le> 65535
      then Some (of_nat (decimal 0 s)) else None)"
proof -
  have "unat (of_nat d :: 32 word) = d" if "d \<le> 65535" for d
    using that by (simp add: unat_of_nat)
  then have "(0 < (of_nat d :: 32 word)) = (0 < d)" if "d \<le> 65535" for d
    using that by (simp add: word_less_nat_alt)
  moreover have "ucast (of_nat d :: 32 word) = (of_nat d :: in_port_t)" if "d \<le> 65535" for d
    using that by (simp add: unsigned_of_nat take_bit_nat_eq_self)
  ultimately show ?thesis
    by (simp add: parse_port_def parse_port_loop_Some [of 0, simplified])
qed

text \<open>
  C38: \<open>parse_port\<close> accepts exactly the strings of decimal digits whose value, as an unbounded
  number, is between 1 and 65535, and returns that value; the 32-bit arithmetic never wraps
  around, however long the string.
\<close>

theorem parse_port_correct:
  "parse_port s =
     (if list_all is_digit s \<and> 0 < decimal 0 s \<and> decimal 0 s \<le> 65535
      then Some (of_nat (decimal 0 s)) else None)"
  by (simp add: parse_port_value list_all_iff)

lemma parse_port_utoa:
  assumes "p \<noteq> 0" shows "parse_port (utoa (unat p)) = Some p"
proof -
  have "unat p < 2 ^ LENGTH(16)" by (rule unsigned_less)
  moreover have "0 < unat p" using assms by (simp add: unat_gt_0)
  ultimately show ?thesis by (simp add: parse_port_value decimal_utoa utoa_digits)
qed

section \<open>Splitting\<close>

lemma last_colon_append:
  "last_colon p (s @ t) colon = last_colon (p + length s) t (last_colon p s colon)"
  by (induction s arbitrary: p colon) auto

lemma last_colon_none: "CHR '':'' \<notin> set t \<Longrightarrow> last_colon p t colon = colon"
  by (induction t arbitrary: p colon) auto

lemma last_colon_at:
  "CHR '':'' \<notin> set port \<Longrightarrow> last_colon 0 (host @ CHR '':'' # port) None = Some (length host)"
  by (simp add: last_colon_append last_colon_none)

text \<open>What \<open>extract_ip_port\<close> does with the part before the last colon.\<close>

definition unbracket :: "string \<Rightarrow> string option" where
  "unbracket host =
     (if host = [] then None
      else if hd host = CHR ''['' then
        (if 2 < length host \<and> last host = CHR '']'' then Some (butlast (tl host)) else None)
      else Some host)"

lemma extract_colon:
  assumes "CHR '':'' \<notin> set port"
  shows "extract_ip_port (host @ CHR '':'' # port) =
    (case unbracket host of
       None \<Rightarrow> None
     | Some ip \<Rightarrow> if length ip < INET6_ADDRSTRLEN
                  then map_option (Pair ip) (parse_port port) else None)"
proof (cases "host = []")
  case True
  then show ?thesis by (simp add: extract_ip_port_def last_colon_at [OF assms, of "[]", simplified] unbracket_def)
next
  case False
  obtain a where a: "host @ CHR '':'' # port = a" by blast
  have "last_colon 0 a None = Some (length host)" unfolding a [symmetric] by (rule last_colon_at [OF assms])
  moreover from False have "a ! 0 = hd host" and "a ! (length host - 1) = last host"
    unfolding a [symmetric] by (simp_all add: nth_append hd_conv_nth last_conv_nth)
  moreover have "take (length host - 2) (drop 1 a) = butlast (tl host)" if "2 < length host"
    using that unfolding a [symmetric] by (cases host) (simp_all add: butlast_conv_take)
  moreover have "take (length host) (drop 0 a) = host" unfolding a [symmetric] by simp
  moreover have "drop (length host + 1) a = port" unfolding a [symmetric] by simp
  moreover have "length (butlast (tl host)) = length host - 2" by simp
  ultimately have e: "extract_ip_port a =
      (case (if hd host = CHR ''['' then
               if 2 < length host \<and> last host = CHR '']'' then Some (1, length host - 2) else None
             else Some (0, length host)) of
         None \<Rightarrow> None
       | Some (skip, len) \<Rightarrow>
           if len < INET6_ADDRSTRLEN then
             (case parse_port port of None \<Rightarrow> None
              | Some p \<Rightarrow> Some (take len (drop skip a), p)) else None)"
    and m: "2 < length host \<Longrightarrow> take (length host - 2) (drop 1 a) = butlast (tl host)"
    and z: "take (length host) (drop 0 a) = host"
    and l: "length (butlast (tl host)) = length host - 2"
    using False by (simp_all add: extract_ip_port_def Let_def)
  consider "hd host \<noteq> CHR ''[''" | "hd host = CHR ''[''" "2 < length host" "last host = CHR '']''"
    | "hd host = CHR ''[''" "\<not> (2 < length host \<and> last host = CHR '']'')" by blast
  then show ?thesis
  proof cases
    case 1
    with z False show ?thesis unfolding a e by (cases "parse_port port") (simp_all add: unbracket_def)
  next
    case 2
    then have "unbracket host = Some (butlast (tl host))" using False by (simp add: unbracket_def)
    with 2 m l show ?thesis unfolding a e by (cases "parse_port port") simp_all
  next
    case 3
    then have "unbracket host = None" by (auto simp: unbracket_def)
    with 3 show ?thesis unfolding a e by auto
  qed
qed

lemma extract_no_colon: "CHR '':'' \<notin> set a \<Longrightarrow> extract_ip_port a = None"
  by (simp add: extract_ip_port_def last_colon_none)

text \<open>
  C39: \<open>extract_ip_port\<close> splits a text at its last colon: it succeeds exactly on \<open>host:port\<close> where
  \<open>port\<close> is a port number and \<open>host\<close> is either an address in brackets or a non-empty text that
  does not start with a bracket. The address it copies has between 1 and 45 characters, so it
  fits the \<open>INET6_ADDRSTRLEN\<close> characters of the caller's array with its terminator.
\<close>

theorem extract_ip_port_correct:
  "extract_ip_port a = Some (ip, p) \<longleftrightarrow>
     (\<exists>host port. a = host @ '':'' @ port \<and> CHR '':'' \<notin> set port \<and> parse_port port = Some p \<and>
        (host = ''['' @ ip @ '']'' \<or> host = ip \<and> hd ip \<noteq> CHR ''['') \<and>
        0 < length ip \<and> length ip + 1 \<le> INET6_ADDRSTRLEN)"
proof -
  have un: "unbracket host = Some ip \<longleftrightarrow>
      (host = ''['' @ ip @ '']'' \<or> host = ip \<and> hd ip \<noteq> CHR ''['') \<and> 0 < length ip" for host
  proof (cases host)
    case (Cons c h)
    show ?thesis
    proof (cases h rule: rev_cases)
      case Nil
      with Cons show ?thesis by (auto simp: unbracket_def)
    next
      case (snoc g d)
      with Cons show ?thesis by (auto simp: unbracket_def)
    qed
  qed (auto simp: unbracket_def)
  have ext: "extract_ip_port (host @ CHR '':'' # port) = Some (ip, p) \<longleftrightarrow>
      unbracket host = Some ip \<and> length ip < INET6_ADDRSTRLEN \<and> parse_port port = Some p"
    if "CHR '':'' \<notin> set port" for host port
    using that by (auto simp: extract_colon split: option.splits)
  show ?thesis
  proof (cases "CHR '':'' \<in> set a")
    case True
    then obtain host port where a: "a = host @ CHR '':'' # port" and np: "CHR '':'' \<notin> set port"
      by (meson split_list_last)
    show ?thesis (is "?l \<longleftrightarrow> ?r")
    proof
      assume ?l
      then have *: "unbracket host = Some ip" "length ip < INET6_ADDRSTRLEN" "parse_port port = Some p"
        unfolding a ext [OF np] by blast+
      show ?r
        by (rule exI [of _ host], rule exI [of _ port]) (use * un [of host] a np in simp)
    next
      assume ?r
      then obtain h q where *: "a = h @ '':'' @ q" "CHR '':'' \<notin> set q" "parse_port q = Some p"
        "h = ''['' @ ip @ '']'' \<or> h = ip \<and> hd ip \<noteq> CHR ''[''" "0 < length ip"
        "length ip + 1 \<le> INET6_ADDRSTRLEN" by blast
      then have "unbracket h = Some ip" using un by blast
      with * ext [OF *(2), of h] show ?l by simp
    qed
  next
    case False
    then show ?thesis by (auto simp: extract_no_colon)
  qed
qed

end
