(* ===== verification/Machine.thy ===== *)
theory Machine
  imports Prelude
begin

text \<open>
  The machine the program runs on: the buffer objects and the \<open>malloc\<close> blocks of its heap,
  the files of its spool directory, \<open>errno\<close>, and the operating system, which is a script of
  answers (\<open>replies\<close>), one for each call whose outcome the program looks at. Every call is
  recorded with its answer in \<open>trace\<close>. A theorem that holds for every script holds for every
  behaviour of the kernel and of OpenSSL.
\<close>

section \<open>Errors, answers and calls\<close>

datatype errno =
  E_OK | EINTR | EAGAIN | EINPROGRESS | ETIMEDOUT | ENOSPC | ENOENT | EISDIR | EINVAL
| EOTHER int

datatype ssl_error =
  SSL_ERROR_ZERO_RETURN | SSL_ERROR_WANT_READ | SSL_ERROR_WANT_WRITE
| SSL_ERROR_SYSCALL | SSL_ERROR_SSL | SSL_ERROR_OTHER

text \<open>What other threads do to a queue while a thread waits on its condition variable.\<close>

datatype queue_op =
  Push_front ptr | Push_back ptr | Push_front_chain ptr ptr | Push_back_chain ptr ptr
| Pop_front | Pop_all

text \<open>
  An answer: a value (\<open>Ret\<close>), failure with an \<open>errno\<close> (\<open>Err\<close>), received data, the name of
  a directory entry, a wake-up or the end of a timed wait together with what the other threads
  did meanwhile, an accepted connection with its peer's address, or a failed OpenSSL operation (its return value, what \<open>SSL_get_error\<close> says of it, and \<open>errno\<close>).
\<close>

datatype reply =
  Ret int | Err errno | Bytes "byte list" | Entry string | Wake "queue_op list"
| TimedOut "queue_op list" | Accepted int "byte list" | SslErr int ssl_error errno

datatype sa_family = AF_INET | AF_INET6 | AF_UNIX | AF_OTHER nat

datatype sockopt =
  SO_ERROR | SO_RCVBUF | SO_SNDBUF | SO_KEEPALIVE | SO_REUSEADDR | SO_REUSEPORT
| TCP_NODELAY | TCP_CORK

datatype poll_event = POLLIN_RDHUP | POLLOUT

text \<open>The calls, by the subsystem they reach.\<close>

datatype file_call =
  C_open string | C_open_read string | C_write int "byte list" | C_close int | C_unlink string | C_stat string
| C_mmap int nat | C_munmap nat | C_opendir string | C_readdir | C_closedir

datatype sock_call =
  C_socket sa_family | C_connect int "byte list" | C_getsockopt int sockopt
| C_setsockopt int sockopt int | C_bind int "byte list" | C_listen int | C_accept4 int
| C_recv int nat | C_send int "byte list" | C_poll int poll_event int | C_shutdown int int
| C_close_socket int

datatype ssl_call =
  C_SSL_new ptr | C_SSL_set_fd ptr int | C_SSL_set_state ptr bool
| C_SSL_do_handshake ptr | C_SSL_read ptr int | C_SSL_write ptr "byte list" int
| C_SSL_shutdown ptr | C_SSL_get_shutdown ptr | C_SSL_set_shutdown ptr int | C_SSL_free ptr
| C_ERR_clear_error

datatype ctx_call =
  C_TLS_method | C_SSL_CTX_new | C_SSL_CTX_free ptr | C_SSL_CTX_certificate ptr string
| C_SSL_CTX_private_key ptr string

datatype host_call =
  C_new | C_realloc nat | C_time | C_usleep nat | C_gettimeofday
| C_cond_timedwait int int | C_cond_signal | C_pthread_create | C_pthread_join

datatype call =
  File file_call | Sock sock_call | Ssl ssl_call | Ctx ctx_call | Host host_call

section \<open>Buffers and the state\<close>

text \<open>The data members of \<open>net::buffer\<close>.\<close>

record buffer =
  buf_data :: ptr
  buf_length :: size_t
  buf_prev :: ptr
  buf_next :: ptr

datatype fnode = Reg "byte list" | Dir

text \<open>The broken-down time \<open>localtime_r\<close> fills.\<close>

record tm =
  tm_year :: int
  tm_mon :: int
  tm_mday :: int
  tm_hour :: int
  tm_min :: int
  tm_sec :: int

record machine =
  cells :: "ptr \<Rightarrow> buffer option"       \<comment> \<open>live \<open>net::buffer\<close> objects\<close>
  blocks :: "ptr \<Rightarrow> byte list option"   \<comment> \<open>live \<open>malloc\<close> blocks\<close>
  brk :: ptr                            \<comment> \<open>the next fresh address\<close>
  files :: "string \<Rightarrow> fnode option"
  ofiles :: "int \<Rightarrow> string option"      \<comment> \<open>descriptors opened on files\<close>
  tz :: "int \<Rightarrow> tm"                     \<comment> \<open>\<open>localtime_r\<close> in the machine's time zone\<close>
  errno :: errno
  replies :: "reply list"
  trace :: "(call \<times> reply) list"

section \<open>Calls\<close>

fun errno_after :: "reply \<Rightarrow> errno \<Rightarrow> errno" where
  "errno_after (Err e) _ = e"
| "errno_after (SslErr _ _ e) _ = e"
| "errno_after _ e = e"

text \<open>A call takes the next answer; with no answer left it never returns.\<close>

definition syscall :: "call \<Rightarrow> machine \<Rightarrow> (reply \<times> machine) res" where
  "syscall c m =
     (case replies m of
        [] \<Rightarrow> Blocked
      | r # rs \<Rightarrow> Ok (r, m\<lparr>replies := rs, errno := errno_after r (errno m),
                        trace := trace m @ [(c, r)]\<rparr>))"

text \<open>A call whose outcome the program ignores.\<close>

definition note_call :: "call \<Rightarrow> machine \<Rightarrow> machine" where
  "note_call c m = m\<lparr>trace := trace m @ [(c, Ret 0)]\<rparr>"

text \<open>
  How an answer reads as the value of a call, within what the call is documented to return:
  0 or -1; a descriptor or -1; a count of at most \<open>len\<close> bytes or -1.
\<close>

fun status_of :: "reply \<Rightarrow> int" where
  "status_of (Ret _) = 0"
| "status_of _ = -1"

fun fd_of :: "reply \<Rightarrow> int" where
  "fd_of (Ret n) = max (-1) n"
| "fd_of _ = -1"

fun count_of :: "nat \<Rightarrow> reply \<Rightarrow> int" where
  "count_of len (Ret n) = (if n < 0 then -1 else min n (int len))"
| "count_of len _ = -1"

fun data_of :: "nat \<Rightarrow> reply \<Rightarrow> byte list option" where
  "data_of len (Bytes bs) = Some (take len bs)"
| "data_of len _ = None"

lemma count_of_bounds: "-1 \<le> count_of len r \<and> count_of len r \<le> int len"
  by (cases r) auto

lemma fd_of_ge: "-1 \<le> fd_of r"
  by (cases r) auto

lemma data_of_length: "data_of len r = Some bs \<Longrightarrow> length bs \<le> len"
  by (cases r) auto

lemma syscall_Ok_iff:
  "syscall c m = Ok (r, m') \<longleftrightarrow>
     (\<exists>rs. replies m = r # rs \<and>
       m' = m\<lparr>replies := rs, errno := errno_after r (errno m), trace := trace m @ [(c, r)]\<rparr>)"
  by (auto simp: syscall_def split: list.splits)

lemma wp_syscall [simp]:
  "wp (syscall c m) Q \<longleftrightarrow>
     (\<forall>r rs. replies m = r # rs \<longrightarrow>
        Q (r, m\<lparr>replies := rs, errno := errno_after r (errno m), trace := trace m @ [(c, r)]\<rparr>))"
  by (auto simp: syscall_def split: list.splits)

lemma syscall_not_Fault [simp]: "syscall c m \<noteq> Fault"
  by (auto simp: syscall_def split: list.splits)

lemma syscall_Cons [simp]:
  "replies m = r # rs \<Longrightarrow>
     syscall c m = Ok (r, m\<lparr>replies := rs, errno := errno_after r (errno m),
                            trace := trace m @ [(c, r)]\<rparr>)"
  by (simp add: syscall_def)

lemma syscall_Nil [simp]: "replies m = [] \<Longrightarrow> syscall c m = Blocked"
  by (simp add: syscall_def)

lemma syscall_replies: "syscall c m = Ok (r, m') \<Longrightarrow> replies m = r # replies m'"
  by (auto simp: syscall_Ok_iff)

lemma syscall_shorter: "syscall c m = Ok (r, m') \<Longrightarrow> length (replies m') < length (replies m)"
  by (auto simp: syscall_Ok_iff)

lemma note_call_simps [simp]:
  "cells (note_call c m) = cells m"
  "blocks (note_call c m) = blocks m"
  "brk (note_call c m) = brk m"
  "files (note_call c m) = files m"
  "ofiles (note_call c m) = ofiles m"
  "tz (note_call c m) = tz m"
  "errno (note_call c m) = errno m"
  "replies (note_call c m) = replies m"
  "trace (note_call c m) = trace m @ [(c, Ret 0)]"
  by (simp_all add: note_call_def)

text \<open>A call that touches no memory of the program.\<close>

definition same_mem :: "machine \<Rightarrow> machine \<Rightarrow> bool" where
  "same_mem m m' \<longleftrightarrow>
     cells m' = cells m \<and> blocks m' = blocks m \<and> brk m' = brk m \<and> tz m' = tz m"

lemma same_mem_refl [simp, intro]: "same_mem m m"
  by (simp add: same_mem_def)

lemma same_mem_trans [trans]: "same_mem a b \<Longrightarrow> same_mem b c \<Longrightarrow> same_mem a c"
  by (simp add: same_mem_def)

text \<open>What has happened once stays in the trace.\<close>

definition later :: "machine \<Rightarrow> machine \<Rightarrow> bool" where
  "later m m' \<longleftrightarrow> set (trace m) \<subseteq> set (trace m')"

lemma later_refl [simp]: "later m m"
  by (simp add: later_def)

lemma later_trans: "later a b \<Longrightarrow> later b c \<Longrightarrow> later a c"
  by (auto simp: later_def)

lemma later_upd [simp]:
  "later m0 m \<Longrightarrow> later m0 (m\<lparr>replies := a, errno := b, trace := trace m @ es\<rparr>)"
  "later m0 m \<Longrightarrow> later m0 (m\<lparr>replies := a, trace := trace m @ es\<rparr>)"
  "later m0 m \<Longrightarrow> later m0 (m\<lparr>errno := b\<rparr>)"
  "later m0 m \<Longrightarrow> later m0 (note_call c m)"
  by (auto simp: later_def)

text \<open>Waiting, waking and relinking buffers leave no trace but calls to the host.\<close>

fun host_event :: "call \<times> reply \<Rightarrow> bool" where
  "host_event (Host c, r) = True"
| "host_event _ = False"

definition host_only :: "machine \<Rightarrow> machine \<Rightarrow> bool" where
  "host_only m m' \<longleftrightarrow> (\<exists>es. trace m' = trace m @ es \<and> list_all host_event es)"

lemma host_only_refl [simp]: "host_only m m"
  by (simp add: host_only_def)

lemma host_only_trans: "host_only a b \<Longrightarrow> host_only b c \<Longrightarrow> host_only a c"
  by (auto simp: host_only_def)

lemma host_only_same: "trace m' = trace m \<Longrightarrow> host_only m m'"
  by (simp add: host_only_def)

lemma host_only_one: "trace m' = trace m @ [(Host c, r)] \<Longrightarrow> host_only m m'"
  by (simp add: host_only_def)

text \<open>Likewise for calls on files.\<close>

fun file_event :: "call \<times> reply \<Rightarrow> bool" where
  "file_event (File c, r) = True"
| "file_event _ = False"

definition file_only :: "machine \<Rightarrow> machine \<Rightarrow> bool" where
  "file_only m m' \<longleftrightarrow> (\<exists>es. trace m' = trace m @ es \<and> list_all file_event es)"

lemma file_only_refl [simp]: "file_only m m"
  by (simp add: file_only_def)

lemma file_only_trans: "file_only a b \<Longrightarrow> file_only b c \<Longrightarrow> file_only a c"
  by (auto simp: file_only_def)

lemma file_only_one: "trace m' = trace m @ [(File c, r)] \<Longrightarrow> file_only m m'"
  by (simp add: file_only_def)

lemma file_only_same: "trace m' = trace m \<Longrightarrow> file_only m m'"
  by (simp add: file_only_def)

lemma file_only_later: "file_only m m' \<Longrightarrow> later m m'"
  by (auto simp: file_only_def later_def)

lemma file_only_upd [simp]:
  "file_only m0 m \<Longrightarrow>
     file_only m0 (m\<lparr>replies := a, errno := b, trace := trace m @ [(File c, r)]\<rparr>)"
  "file_only m0 m \<Longrightarrow> file_only m0 (note_call (File c) m)"
  by (auto simp: file_only_def)

lemma file_only_fields [simp]:
  "file_only m (m1\<lparr>files := fs\<rparr>) = file_only m m1" "file_only m (m1\<lparr>ofiles := os\<rparr>) = file_only m m1"
  "file_only m (m1\<lparr>errno := e\<rparr>) = file_only m m1" "file_only (m\<lparr>ofiles := os\<rparr>) m1 = file_only m m1"
  by (simp_all add: file_only_def)

section \<open>Reading and writing buffer objects\<close>

definition load :: "ptr \<Rightarrow> machine \<Rightarrow> buffer res" where
  "load p m = (case cells m p of None \<Rightarrow> Fault | Some b \<Rightarrow> Ok b)"

definition modify :: "ptr \<Rightarrow> (buffer \<Rightarrow> buffer) \<Rightarrow> machine \<Rightarrow> machine res" where
  "modify p f m =
     (case cells m p of None \<Rightarrow> Fault | Some b \<Rightarrow> Ok (m\<lparr>cells := (cells m)(p \<mapsto> f b)\<rparr>))"

lemma load_Some [heap_simps]: "cells m p = Some b \<Longrightarrow> load p m = Ok b"
  by (simp add: load_def)

lemma modify_Some [heap_simps]:
  "cells m p = Some b \<Longrightarrow> modify p f m = Ok (m\<lparr>cells := (cells m)(p \<mapsto> f b)\<rparr>)"
  by (simp add: modify_def)

lemma load_Ok_iff: "load p m = Ok b \<longleftrightarrow> cells m p = Some b"
  by (auto simp: load_def split: option.splits)

lemma modify_Ok_iff:
  "modify p f m = Ok m' \<longleftrightarrow>
     (\<exists>b. cells m p = Some b \<and> m' = m\<lparr>cells := (cells m)(p \<mapsto> f b)\<rparr>)"
  by (auto simp: modify_def split: option.splits)

text \<open>
  The address space is in order: \<open>nullptr\<close> names no object, every object and block in use
  lies below \<open>brk\<close>, and no two buffers own the same data block.
\<close>

definition addr_ok :: "machine \<Rightarrow> bool" where
  "addr_ok m \<longleftrightarrow>
     0 < brk m \<and> (\<forall>p b. cells m p = Some b \<longrightarrow> 0 < p \<and> p < brk m) \<and>
     (\<forall>p bs. blocks m p = Some bs \<longrightarrow> 0 < p \<and> p < brk m)"

definition data_ok :: "machine \<Rightarrow> bool" where
  "data_ok m \<longleftrightarrow>
     (\<forall>p b. cells m p = Some b \<longrightarrow> buf_data b \<noteq> 0 \<longrightarrow>
        (\<exists>bs. blocks m (buf_data b) = Some bs \<and> unat (buf_length b) = length bs))"

definition owner_ok :: "machine \<Rightarrow> bool" where
  "owner_ok m \<longleftrightarrow>
     (\<forall>p q b c. cells m p = Some b \<longrightarrow> cells m q = Some c \<longrightarrow> p \<noteq> q \<longrightarrow>
        buf_data b \<noteq> 0 \<longrightarrow> buf_data b \<noteq> buf_data c)"

definition heap_ok :: "machine \<Rightarrow> bool" where
  "heap_ok m \<longleftrightarrow> addr_ok m \<and> data_ok m \<and> owner_ok m"

lemma addr_ok_brk: "addr_ok m \<Longrightarrow> 0 < brk m"
  by (simp add: addr_ok_def)

lemma addr_ok_cell: "addr_ok m \<Longrightarrow> cells m p = Some b \<Longrightarrow> 0 < p \<and> p < brk m"
  unfolding addr_ok_def by blast

lemma addr_ok_block: "addr_ok m \<Longrightarrow> blocks m p = Some bs \<Longrightarrow> 0 < p \<and> p < brk m"
  unfolding addr_ok_def by blast

lemma addr_ok_null: "addr_ok m \<Longrightarrow> cells m 0 = None" "addr_ok m \<Longrightarrow> blocks m 0 = None"
  using addr_ok_cell [of m 0] addr_ok_block [of m 0]
  by (cases "cells m 0", auto, cases "blocks m 0", auto)

lemma addr_ok_fresh:
  "addr_ok m \<Longrightarrow> cells m (brk m) = None" "addr_ok m \<Longrightarrow> blocks m (brk m) = None"
  using addr_ok_cell [of m "brk m"] addr_ok_block [of m "brk m"]
  by (cases "cells m (brk m)", auto, cases "blocks m (brk m)", auto)

lemma data_okD:
  "data_ok m \<Longrightarrow> cells m p = Some b \<Longrightarrow> buf_data b \<noteq> 0 \<Longrightarrow>
     \<exists>bs. blocks m (buf_data b) = Some bs \<and> unat (buf_length b) = length bs"
  unfolding data_ok_def by blast

lemma owner_okD:
  "owner_ok m \<Longrightarrow> cells m p = Some b \<Longrightarrow> cells m q = Some c \<Longrightarrow> p \<noteq> q \<Longrightarrow>
     buf_data b \<noteq> 0 \<Longrightarrow> buf_data b \<noteq> buf_data c"
  unfolding owner_ok_def by blast

lemma heap_okD:
  assumes "heap_ok m"
  shows "addr_ok m" and "data_ok m" and "owner_ok m"
  using assms by (simp_all add: heap_ok_def)

section \<open>A small heap\<close>

text \<open>
  A concrete machine the witnesses of the theorems run on: a queue at header 1 holds the
  buffers 2 and 3, which carry the bytes 1, 2 and 3; the buffers 4 and 5 are linked and free.
\<close>

definition sample :: machine where
  "sample =
     \<lparr>cells = [1 \<mapsto> \<lparr>buf_data = 0, buf_length = 0, buf_prev = 3, buf_next = 2\<rparr>,
              2 \<mapsto> \<lparr>buf_data = 10, buf_length = 2, buf_prev = 1, buf_next = 3\<rparr>,
              3 \<mapsto> \<lparr>buf_data = 11, buf_length = 1, buf_prev = 2, buf_next = 1\<rparr>,
              4 \<mapsto> \<lparr>buf_data = 0, buf_length = 0, buf_prev = 0, buf_next = 5\<rparr>,
              5 \<mapsto> \<lparr>buf_data = 0, buf_length = 0, buf_prev = 0, buf_next = 0\<rparr>],
      blocks = [10 \<mapsto> [1, 2], 11 \<mapsto> [3]], brk = 12,
      files = Map.empty, ofiles = Map.empty,
      tz = (\<lambda>_. \<lparr>tm_year = 100, tm_mon = 0, tm_mday = 1, tm_hour = 0, tm_min = 0, tm_sec = 0\<rparr>),
      errno = E_OK, replies = [], trace = []\<rparr>"

lemma sample_heap_ok: "heap_ok sample"
proof -
  have "addr_ok sample" unfolding addr_ok_def sample_def by simp
  moreover have "data_ok sample" unfolding data_ok_def sample_def by simp
  moreover have "owner_ok sample" unfolding owner_ok_def sample_def by simp
  ultimately show ?thesis by (simp add: heap_ok_def)
qed

end
