(* ===== verification/Address.thy ===== *)
theory Address
  imports Address_Text Machine
begin

text \<open>
  Socket addresses (net/socket.h, net/socket.cpp): the classes \<open>address::ipv4\<close>, \<open>address::ipv6\<close>,
  \<open>address::local\<close> and \<open>address\<close>. The structures \<open>sockaddr_in\<close> (16 bytes), \<open>sockaddr_in6\<close> (28),
  \<open>sockaddr_un\<close> (110) and \<open>sockaddr_storage\<close> (128) are their bytes, in the layout of Linux on a
  little-endian machine; the code's \<open>reinterpret_cast\<close>s, \<open>memcpy\<close>s and \<open>memcmp\<close>s act on them.
  \<open>inet_pton\<close> and \<open>inet_ntop\<close> are parameters: \<open>pton family text\<close> is the network address a text
  denotes, \<open>ntop family bytes\<close> the text of an address.
\<close>

section \<open>Bytes of a structure\<close>

type_synonym sockaddr = "byte list"
type_synonym pton = "sa_family \<Rightarrow> string \<Rightarrow> byte list option"
type_synonym ntop = "sa_family \<Rightarrow> byte list \<Rightarrow> string"

definition bytes_at :: "nat \<Rightarrow> nat \<Rightarrow> 'a list \<Rightarrow> 'a list" where
  "bytes_at off n a = take n (drop off a)"

definition put_at :: "nat \<Rightarrow> 'a list \<Rightarrow> 'a list \<Rightarrow> 'a list" where
  "put_at off bs a = take off a @ bs @ drop (off + length bs) a"

definition zeros :: "nat \<Rightarrow> byte list" where
  "zeros n = replicate n 0"

definition bytes_of :: "string \<Rightarrow> byte list" where
  "bytes_of s = map (\<lambda>c. of_nat (char_code c)) s"

definition chars_of :: "byte list \<Rightarrow> string" where
  "chars_of bs = map (\<lambda>b. char_of (unat b)) bs"

text \<open>\<open>sa_family_t\<close>, the two bytes every structure starts with.\<close>

fun family_bytes :: "sa_family \<Rightarrow> byte list" where
  "family_bytes AF_UNIX = [1, 0]"
| "family_bytes AF_INET = [2, 0]"
| "family_bytes AF_INET6 = [10, 0]"
| "family_bytes (AF_OTHER n) = [of_nat n, of_nat (n div 256)]"

definition family_of :: "sockaddr \<Rightarrow> sa_family" where
  "family_of a =
     (let f = bytes_at 0 2 a in
      if f = [1, 0] then AF_UNIX
      else if f = [2, 0] then AF_INET
      else if f = [10, 0] then AF_INET6
      else AF_OTHER (unat (f ! 0) + 256 * unat (f ! 1)))"

text \<open>The bytes \<open>htons\<close> leaves in memory, and their value.\<close>

definition htons :: "in_port_t \<Rightarrow> byte list" where
  "htons p = [ucast (drop_bit 8 p), ucast p]"

fun ntohs :: "byte list \<Rightarrow> in_port_t" where
  "ntohs [h, l] = push_bit 8 (ucast h) + ucast l"
| "ntohs _ = 0"

section \<open>Comparison\<close>

definition equal_in :: "sockaddr \<Rightarrow> sockaddr \<Rightarrow> bool" where
  "equal_in a b \<longleftrightarrow> bytes_at 2 2 a = bytes_at 2 2 b \<and> bytes_at 4 4 a = bytes_at 4 4 b"

text \<open>\<open>s6_addr32[i]\<close> of the 16 bytes of an \<open>in6_addr\<close>.\<close>

definition s6_addr32 :: "byte list \<Rightarrow> nat \<Rightarrow> 32 word" where
  "s6_addr32 a i =
     word_of_nat (unat (a ! (4 * i)) + 256 * unat (a ! (4 * i + 1)) +
       65536 * unat (a ! (4 * i + 2)) + 16777216 * unat (a ! (4 * i + 3)))"

definition equal_in6_addr :: "byte list \<Rightarrow> byte list \<Rightarrow> bool" where
  "equal_in6_addr a b \<longleftrightarrow>
     or (or (or (xor (s6_addr32 a 0) (s6_addr32 b 0)) (xor (s6_addr32 a 1) (s6_addr32 b 1)))
            (xor (s6_addr32 a 2) (s6_addr32 b 2)))
        (xor (s6_addr32 a 3) (s6_addr32 b 3)) = 0"

definition equal_in6 :: "sockaddr \<Rightarrow> sockaddr \<Rightarrow> bool" where
  "equal_in6 a b \<longleftrightarrow>
     bytes_at 2 2 a = bytes_at 2 2 b \<and> equal_in6_addr (bytes_at 8 16 a) (bytes_at 8 16 b)"

text \<open>\<open>strcmp (a, b) == 0\<close>, which reads both arrays up to the first difference or terminator.\<close>

fun strcmp_eq :: "byte list \<Rightarrow> byte list \<Rightarrow> bool res" where
  "strcmp_eq (x # xs) (y # ys) =
     (if x \<noteq> y then Ok False else if x = 0 then Ok True else strcmp_eq xs ys)"
| "strcmp_eq _ _ = Fault"

definition sun_path :: "sockaddr \<Rightarrow> byte list" where
  "sun_path a = bytes_at 2 108 a"

definition equal_un :: "sockaddr \<Rightarrow> sockaddr \<Rightarrow> bool res" where
  "equal_un a b =
     (if sun_path a ! 0 \<noteq> 0 then strcmp_eq (sun_path a) (sun_path b)
      else Ok (sun_path a = sun_path b))"

section \<open>Printing\<close>

text \<open>
  The functions write to a character array \<open>s\<close> of \<open>n\<close> characters; a result is whether the
  pointer they return is not null, the array afterwards, and \<open>errno\<close>. \<open>inet_ntop\<close> writes only
  when the text and its terminator fit; \<open>snprintf\<close> writes what fits and returns what it would
  have written.
\<close>

definition inet_ntop :: "ntop \<Rightarrow> sa_family \<Rightarrow> byte list \<Rightarrow> nat \<Rightarrow> nat \<Rightarrow> char list \<Rightarrow> errno \<Rightarrow>
    bool \<times> char list \<times> errno" where
  "inet_ntop ntop fam addr off n s e =
     (let t = ntop fam addr in
      if length t < n then (True, put_at off (t @ [NUL]) s, e) else (False, s, ENOSPC))"

definition snprintf :: "nat \<Rightarrow> nat \<Rightarrow> string \<Rightarrow> char list \<Rightarrow> nat \<times> char list" where
  "snprintf off left t s =
     (length t, if 0 < left then put_at off (take (left - 1) t @ [NUL]) s else s)"

definition to_string_in :: "ntop \<Rightarrow> sockaddr \<Rightarrow> char list \<Rightarrow> errno \<Rightarrow> (bool \<times> char list \<times> errno) res" where
  "to_string_in ntop addr s e =
     (let n = length s; (ok, s, e) = inet_ntop ntop AF_INET (bytes_at 4 4 addr) 0 n s e in
      if ok then
        andThen (strlen s) (\<lambda>len.
          let left = n - len;
              (r, s) = snprintf len left ('':'' @ utoa (unat (ntohs (bytes_at 2 2 addr)))) s in
          if r < left then Ok (True, s, e) else Ok (False, s, ENOSPC))
      else Ok (False, s, e))"

definition to_string_in6 :: "ntop \<Rightarrow> sockaddr \<Rightarrow> char list \<Rightarrow> errno \<Rightarrow> (bool \<times> char list \<times> errno) res" where
  "to_string_in6 ntop addr s e =
     (let n = length s in
      if 1 < n then
        (let (ok, s, e) = inet_ntop ntop AF_INET6 (bytes_at 8 16 addr) 1 (n - 1) s e in
         if ok then
           andThen (strlen (drop 1 s)) (\<lambda>l.
             let len = 1 + l; left = n - len;
                 (r, s) = snprintf len left ('']:'' @ utoa (unat (ntohs (bytes_at 2 2 addr)))) s in
             if r < left then Ok (True, put_at 0 ''['' s, e) else Ok (False, s, ENOSPC))
         else Ok (False, s, e))
      else Ok (False, s, ENOSPC))"

definition to_string_un :: "sockaddr \<Rightarrow> char list \<Rightarrow> errno \<Rightarrow> (bool \<times> char list \<times> errno) res" where
  "to_string_un addr s e =
     (let n = length s; path = chars_of (sun_path addr) in
      andThen (strlen path) (\<lambda>len.
        if 0 < len then
          (if len < n then Ok (True, put_at len [NUL] (put_at 0 (take len path) s), e)
           else Ok (False, s, ENOSPC))
        else
          (if 108 \<le> n then Ok (True, put_at 0 path s, e) else Ok (False, s, ENOSPC))))"

section \<open>The class \<open>address::ipv4\<close>\<close>

text \<open>A constructor starts from the memory it is given, whose contents are indeterminate.\<close>

definition new_ipv4 :: "sockaddr \<Rightarrow> sockaddr" where
  "new_ipv4 mem = put_at 8 (zeros 8) (put_at 0 (family_bytes AF_INET) mem)"

definition ipv4_of :: "sockaddr \<Rightarrow> sockaddr" where
  "ipv4_of addr = addr"

definition ipv4_size :: nat where "ipv4_size = 16"
definition ipv4_family :: sa_family where "ipv4_family = AF_INET"

definition ipv4_port :: "sockaddr \<Rightarrow> in_port_t" where
  "ipv4_port a = ntohs (bytes_at 2 2 a)"

definition ipv4_set_port :: "in_port_t \<Rightarrow> sockaddr \<Rightarrow> sockaddr" where
  "ipv4_set_port p a = put_at 2 (htons p) a"

definition ipv4_build :: "pton \<Rightarrow> string \<Rightarrow> in_port_t \<Rightarrow> sockaddr \<Rightarrow> bool \<times> sockaddr" where
  "ipv4_build pton address port a =
     (case pton AF_INET address of
        Some bs \<Rightarrow> (True, put_at 2 (htons port) (put_at 4 bs a))
      | None \<Rightarrow> (False, a))"

definition ipv4_build_text :: "pton \<Rightarrow> string \<Rightarrow> sockaddr \<Rightarrow> bool \<times> sockaddr" where
  "ipv4_build_text pton address a =
     (case extract_ip_port address of
        Some (ip, port) \<Rightarrow> ipv4_build pton ip port a
      | None \<Rightarrow> (False, a))"

definition ipv4_eq :: "sockaddr \<Rightarrow> sockaddr \<Rightarrow> bool" where
  "ipv4_eq a b \<longleftrightarrow> equal_in a b"

definition ipv4_assign :: "sockaddr \<Rightarrow> sockaddr \<Rightarrow> sockaddr" where
  "ipv4_assign b a = put_at 2 (bytes_at 2 2 b) (put_at 4 (bytes_at 4 4 b) a)"

definition ipv4_to_string :: "ntop \<Rightarrow> sockaddr \<Rightarrow> char list \<Rightarrow> errno \<Rightarrow> (bool \<times> char list \<times> errno) res" where
  "ipv4_to_string ntop a s e = to_string_in ntop a s e"

section \<open>The class \<open>address::ipv6\<close>\<close>

definition new_ipv6 :: "sockaddr \<Rightarrow> sockaddr" where
  "new_ipv6 mem = put_at 24 (zeros 4) (put_at 4 (zeros 4) (put_at 0 (family_bytes AF_INET6) mem))"

definition ipv6_of :: "sockaddr \<Rightarrow> sockaddr" where
  "ipv6_of addr = addr"

definition ipv6_size :: nat where "ipv6_size = 28"
definition ipv6_family :: sa_family where "ipv6_family = AF_INET6"

definition ipv6_port :: "sockaddr \<Rightarrow> in_port_t" where
  "ipv6_port a = ntohs (bytes_at 2 2 a)"

definition ipv6_set_port :: "in_port_t \<Rightarrow> sockaddr \<Rightarrow> sockaddr" where
  "ipv6_set_port p a = put_at 2 (htons p) a"

definition ipv6_build :: "pton \<Rightarrow> string \<Rightarrow> in_port_t \<Rightarrow> sockaddr \<Rightarrow> bool \<times> sockaddr" where
  "ipv6_build pton address port a =
     (case pton AF_INET6 address of
        Some bs \<Rightarrow> (True, put_at 2 (htons port) (put_at 8 bs a))
      | None \<Rightarrow> (False, a))"

definition ipv6_build_text :: "pton \<Rightarrow> string \<Rightarrow> sockaddr \<Rightarrow> bool \<times> sockaddr" where
  "ipv6_build_text pton address a =
     (case extract_ip_port address of
        Some (ip, port) \<Rightarrow> ipv6_build pton ip port a
      | None \<Rightarrow> (False, a))"

definition ipv6_eq :: "sockaddr \<Rightarrow> sockaddr \<Rightarrow> bool" where
  "ipv6_eq a b \<longleftrightarrow> equal_in6 a b"

definition ipv6_assign :: "sockaddr \<Rightarrow> sockaddr \<Rightarrow> sockaddr" where
  "ipv6_assign b a =
     put_at 24 (bytes_at 24 4 b) (put_at 8 (bytes_at 8 16 b)
       (put_at 4 (bytes_at 4 4 b) (put_at 2 (bytes_at 2 2 b) a)))"

definition ipv6_to_string :: "ntop \<Rightarrow> sockaddr \<Rightarrow> char list \<Rightarrow> errno \<Rightarrow> (bool \<times> char list \<times> errno) res" where
  "ipv6_to_string ntop a s e = to_string_in6 ntop a s e"

section \<open>The class \<open>address::local\<close>\<close>

definition new_local :: "sockaddr \<Rightarrow> sockaddr" where
  "new_local mem = put_at 0 (family_bytes AF_UNIX) mem"

definition local_of :: "sockaddr \<Rightarrow> sockaddr" where
  "local_of addr = addr"

definition local_size :: nat where "local_size = 110"
definition local_family :: sa_family where "local_family = AF_UNIX"

definition local_build :: "string \<Rightarrow> sockaddr \<Rightarrow> bool \<times> sockaddr" where
  "local_build address a =
     (let len = length address in
      if 0 < len \<and> len < 108 then
        (True, put_at (2 + len) (zeros (108 - len)) (put_at 2 (bytes_of address) a))
      else (False, a))"

definition local_build_bytes :: "byte list \<Rightarrow> sockaddr \<Rightarrow> bool \<times> sockaddr" where
  "local_build_bytes address a =
     (let len = length address in
      if 0 < len \<and> len \<le> 108 then
        (True, put_at (2 + len) (zeros (108 - len)) (put_at 2 address a))
      else (False, a))"

definition local_eq :: "sockaddr \<Rightarrow> sockaddr \<Rightarrow> bool res" where
  "local_eq a b = equal_un a b"

definition local_assign :: "sockaddr \<Rightarrow> sockaddr \<Rightarrow> sockaddr" where
  "local_assign b a = put_at 2 (sun_path b) a"

definition local_to_string :: "sockaddr \<Rightarrow> char list \<Rightarrow> errno \<Rightarrow> (bool \<times> char list \<times> errno) res" where
  "local_to_string a s e = to_string_un a s e"

section \<open>The class \<open>address\<close>\<close>

record address =
  addr_storage :: sockaddr
  addr_len :: nat

definition new_address :: "sockaddr \<Rightarrow> address" where
  "new_address mem = \<lparr>addr_storage = mem, addr_len = 128\<rparr>"

definition address_size :: "address \<Rightarrow> nat" where
  "address_size a = addr_len a"

definition address_family :: "address \<Rightarrow> sa_family" where
  "address_family a = family_of (addr_storage a)"

definition address_build :: "pton \<Rightarrow> string \<Rightarrow> in_port_t \<Rightarrow> address \<Rightarrow> bool \<times> address" where
  "address_build pton text port a =
     (case pton AF_INET text of
        Some bs \<Rightarrow>
          (True, \<lparr>addr_storage =
                    put_at 8 (zeros 8) (put_at 2 (htons port) (put_at 0 (family_bytes AF_INET)
                      (put_at 4 bs (addr_storage a)))),
                  addr_len = 16\<rparr>)
      | None \<Rightarrow>
          (case pton AF_INET6 text of
             Some bs \<Rightarrow>
               (True, \<lparr>addr_storage =
                         put_at 24 (zeros 4) (put_at 4 (zeros 4) (put_at 2 (htons port)
                           (put_at 0 (family_bytes AF_INET6) (put_at 8 bs (addr_storage a))))),
                       addr_len = 28\<rparr>)
           | None \<Rightarrow> (False, a)))"

definition address_build_text :: "pton \<Rightarrow> string \<Rightarrow> address \<Rightarrow> bool \<times> address" where
  "address_build_text pton text a =
     (case extract_ip_port text of
        Some (ip, port) \<Rightarrow> address_build pton ip port a
      | None \<Rightarrow>
          (let len = length text in
           if 0 < len \<and> len < 108 then
             (True, \<lparr>addr_storage =
                       put_at (2 + len) (zeros (108 - len)) (put_at 2 (bytes_of text)
                         (put_at 0 (family_bytes AF_UNIX) (addr_storage a))),
                     addr_len = 110\<rparr>)
           else (False, a)))"

text \<open>\<open>operator==\<close>; \<open>memcmp\<close> beyond the end of the storage is undefined.\<close>

definition address_eq :: "address \<Rightarrow> address \<Rightarrow> bool res" where
  "address_eq a b =
     (if addr_len a = addr_len b then
        (if addr_len a \<le> 128
         then Ok (take (addr_len a) (addr_storage a) = take (addr_len a) (addr_storage b))
         else Fault)
      else Ok False)"

definition address_eq_sockaddr :: "address \<Rightarrow> sockaddr \<Rightarrow> bool res" where
  "address_eq_sockaddr a addr =
     (if family_of (addr_storage a) = family_of addr then
        (case family_of (addr_storage a) of
           AF_INET \<Rightarrow> Ok (equal_in (addr_storage a) addr)
         | AF_INET6 \<Rightarrow> Ok (equal_in6 (addr_storage a) addr)
         | AF_UNIX \<Rightarrow> equal_un (addr_storage a) addr
         | AF_OTHER _ \<Rightarrow> Ok False)
      else Ok False)"

definition address_assign :: "address \<Rightarrow> address \<Rightarrow> address" where
  "address_assign b a =
     \<lparr>addr_storage = put_at 0 (take (addr_len b) (addr_storage b)) (addr_storage a),
      addr_len = addr_len b\<rparr>"

definition address_assign_sockaddr :: "sockaddr \<Rightarrow> address \<Rightarrow> address" where
  "address_assign_sockaddr addr a =
     (case family_of addr of
        AF_INET \<Rightarrow> \<lparr>addr_storage = put_at 0 (take 16 addr) (addr_storage a), addr_len = 16\<rparr>
      | AF_INET6 \<Rightarrow> \<lparr>addr_storage = put_at 0 (take 28 addr) (addr_storage a), addr_len = 28\<rparr>
      | AF_UNIX \<Rightarrow> \<lparr>addr_storage = put_at 0 (take 110 addr) (addr_storage a), addr_len = 110\<rparr>
      | AF_OTHER _ \<Rightarrow> a)"

definition address_to_string :: "ntop \<Rightarrow> address \<Rightarrow> char list \<Rightarrow> errno \<Rightarrow> (bool \<times> char list \<times> errno) res" where
  "address_to_string ntop a s e =
     (case family_of (addr_storage a) of
        AF_INET \<Rightarrow> to_string_in ntop (addr_storage a) s e
      | AF_INET6 \<Rightarrow> to_string_in6 ntop (addr_storage a) s e
      | AF_UNIX \<Rightarrow> if 2 < addr_len a then to_string_un (addr_storage a) s e else Ok (False, s, e)
      | AF_OTHER _ \<Rightarrow> Ok (False, s, e))"

section \<open>Reading back what was written\<close>

lemma length_put [simp]: "off + length bs \<le> length a \<Longrightarrow> length (put_at off bs a) = length a"
  by (simp add: put_at_def)

lemma bytes_put_same:
  "off + length bs \<le> length a \<Longrightarrow> n = length bs \<Longrightarrow> bytes_at off n (put_at off bs a) = bs"
  by (simp add: bytes_at_def put_at_def)

lemma bytes_put_before:
  "o2 + n \<le> off \<Longrightarrow> off \<le> length a \<Longrightarrow> bytes_at o2 n (put_at off bs a) = bytes_at o2 n a"
  by (auto simp: bytes_at_def put_at_def min_def drop_take)

lemma bytes_put_after:
  assumes "off + length bs \<le> o2" and "off + length bs \<le> length a"
  shows "bytes_at o2 n (put_at off bs a) = bytes_at o2 n a"
proof -
  obtain k where "o2 = off + length bs + k" using assms(1) by (auto simp: le_iff_add)
  with assms(2) show ?thesis by (simp add: bytes_at_def put_at_def add_ac)
qed

lemma length_bytes_at [simp]: "off + n \<le> length a \<Longrightarrow> length (bytes_at off n a) = n"
  by (simp add: bytes_at_def)

lemma length_parts [simp]:
  "length (htons p) = 2" "length (family_bytes f) = 2" "length (zeros n) = n"
  "length (bytes_of s) = length s" "length (chars_of bs) = length bs"
  by (cases f; simp add: htons_def zeros_def bytes_of_def chars_of_def)+

lemmas field_simps = bytes_put_same bytes_put_before bytes_put_after

lemma ntohs_htons [simp]: "ntohs (htons p) = p"
proof -
  have "(ucast (ucast p :: byte) :: in_port_t) = take_bit 8 p"
    by (rule bit_word_eqI) (auto simp: bit_unsigned_iff bit_take_bit_iff)
  moreover have "(ucast (ucast (drop_bit 8 p) :: byte) :: in_port_t) = drop_bit 8 p"
    by (rule bit_word_eqI) (auto simp: bit_unsigned_iff bit_drop_bit_eq dest: bit_imp_le_length)
  ultimately show ?thesis by (simp add: htons_def bits_ident)
qed

lemma family_of_bytes: "family_of a = f" if "bytes_at 0 2 a = family_bytes f" "\<And>n. f \<noteq> AF_OTHER n"
  using that by (cases f) (auto simp: family_of_def Let_def)

lemma family_of_cong: "bytes_at 0 2 a = bytes_at 0 2 b \<Longrightarrow> family_of a = family_of b"
  by (simp add: family_of_def)

lemma chars_of_bytes_of [simp]: "chars_of (bytes_of s) = s"
proof -
  have "char_of (unat (of_nat (char_code c) :: byte)) = c" for c
    by (simp add: unat_of_nat)
  then show ?thesis by (simp add: chars_of_def bytes_of_def comp_def)
qed

lemma chars_of_simps [simp]:
  "chars_of (a @ b) = chars_of a @ chars_of b" "chars_of (zeros n) = replicate n NUL"
  by (simp_all add: chars_of_def zeros_def char_of_def)

section \<open>Comparing\<close>

lemma base256_unique:
  fixes a b c d :: nat
  assumes "a + 256 * b = c + 256 * d" and "a < 256" and "c < 256"
  shows "a = c \<and> b = d"
proof -
  have "(a + 256 * b) mod 256 = (c + 256 * d) mod 256" using assms(1) by simp
  with assms(2,3) have "a = c" by simp
  with assms(1) show ?thesis by simp
qed

lemma byte_less: "unat (b :: byte) < 256"
  using unsigned_less [of b] by simp

lemma byte_le: "unat (b :: byte) \<le> 255"
  using byte_less [of b] by simp

lemma base256_bound:
  fixes a b c d :: nat
  assumes "a \<le> 255" and "b \<le> 255" and "c \<le> 255" and "d \<le> 255"
  shows "a + 256 * (b + 256 * (c + 256 * d)) < 2 ^ 32"
  using assms by simp

lemma s6_addr32_inject:
  assumes "s6_addr32 a i = s6_addr32 b i" and "k < 4"
  shows "a ! (4 * i + k) = b ! (4 * i + k)"
proof -
  let ?v = "\<lambda>c :: byte list. unat (c ! (4 * i)) + 256 * (unat (c ! (4 * i + 1)) +
       256 * (unat (c ! (4 * i + 2)) + 256 * unat (c ! (4 * i + 3))))"
  have s: "unat (s6_addr32 c i) = ?v c" for c
  proof -
    have "?v c < 2 ^ 32" by (rule base256_bound; rule byte_le)
    moreover have "s6_addr32 c i = word_of_nat (?v c)" by (simp add: s6_addr32_def algebra_simps)
    ultimately show ?thesis by (simp only: unat_of_nat) simp
  qed
  with assms(1) have "?v a = ?v b" by metis
  then have "unat (a ! (4 * i)) = unat (b ! (4 * i)) \<and> unat (a ! (4 * i + 1)) = unat (b ! (4 * i + 1)) \<and>
      unat (a ! (4 * i + 2)) = unat (b ! (4 * i + 2)) \<and> unat (a ! (4 * i + 3)) = unat (b ! (4 * i + 3))"
    using base256_unique byte_less by meson
  moreover have "k = 0 \<or> k = 1 \<or> k = 2 \<or> k = 3" using assms(2) by linarith
  ultimately show ?thesis by (auto simp: word_unat_eq_iff)
qed

lemma xor_zero_iff: "xor (a :: 32 word) b = 0 \<longleftrightarrow> a = b"
  by (auto simp: bit_eq_iff bit_xor_iff)

lemma equal_in6_addr_iff:
  assumes "length a = 16" and "length b = 16"
  shows "equal_in6_addr a b \<longleftrightarrow> a = b"
proof
  assume "equal_in6_addr a b"
  then have w: "s6_addr32 a i = s6_addr32 b i" if "i < 4" for i
    using that by (auto simp: equal_in6_addr_def or_eq_0_iff xor_zero_iff less_Suc_eq numeral_eq_Suc)
  show "a = b"
  proof (rule nth_equalityI)
    fix n assume "n < length a"
    then have "n div 4 < 4" and "n mod 4 < 4" and n: "n = 4 * (n div 4) + n mod 4"
      using assms by auto
    from s6_addr32_inject [OF w [OF this(1)] this(2)] show "a ! n = b ! n"
      unfolding n [symmetric] .
  qed (use assms in simp)
qed (simp add: equal_in6_addr_def)

text \<open>
  the word-wise comparison of IPv6 addresses (four exclusive ors joined by ors) holds exactly
  when the sixteen bytes and the ports agree; flow information and scope are not compared. An
  assigned address is equal to its source, with its port and its family kept.
\<close>

theorem ipv6_equality:
  assumes "length a = 28" and "length b = 28"
  shows "(ipv6_eq a b \<longleftrightarrow> bytes_at 2 2 a = bytes_at 2 2 b \<and> bytes_at 8 16 a = bytes_at 8 16 b) \<and>
         ipv6_eq (ipv6_assign b a) b \<and> ipv6_port (ipv6_assign b a) = ipv6_port b \<and>
         family_of (ipv6_assign b a) = family_of a"
proof -
  have "equal_in6 c d \<longleftrightarrow> bytes_at 2 2 c = bytes_at 2 2 d \<and> bytes_at 8 16 c = bytes_at 8 16 d"
    if "length c = 28" "length d = 28" for c d
    using that by (simp add: equal_in6_def equal_in6_addr_iff)
  moreover have "bytes_at 0 2 (ipv6_assign b a) = bytes_at 0 2 a"
    using assms by (simp add: ipv6_assign_def field_simps)
  ultimately show ?thesis
    using assms
    by (auto simp: ipv6_eq_def ipv6_assign_def ipv6_port_def field_simps intro!: family_of_cong)
qed

theorem ipv6_equality_witness:
  "ipv6_eq (put_at 2 (htons 80) (put_at 23 [1] (zeros 28))) (put_at 2 (htons 80) (put_at 23 [1] (zeros 28)))"
  using ipv6_equality [of "put_at 2 (htons 80) (put_at 23 [1] (zeros 28))"
      "put_at 2 (htons 80) (put_at 23 [1] (zeros 28))"] by simp

section \<open>Printing stays in the array\<close>

lemma put_at_0: "put_at 0 bs a = bs @ drop (length bs) a"
  by (simp add: put_at_def)

text \<open>A text written over the terminator of another one continues it.\<close>

lemma put_at_continue:
  assumes "k + length (x @ y) \<le> length s" and "length z \<le> length y"
  shows "put_at (k + length x) y (put_at k (x @ z) s) = put_at k (x @ y) s"
  using assms by (simp add: put_at_def add_ac)

lemma put_at_prepend:
  "1 + length u \<le> length s \<Longrightarrow> put_at 0 [c] (put_at 1 u s) = put_at 0 (c # u) s"
  by (cases s) (simp_all add: put_at_def)

lemma strlen_put:
  assumes "c_string t" and "length t < length s"
  shows "strlen (put_at 0 (t @ [NUL]) s) = Ok (length t)"
  using assms by (simp add: put_at_0)

lemma utoa_c_string [simp]: "c_string (utoa n)"
  using utoa_digits [of _ n] is_digit_not(2) by (auto simp: c_string_def)

text \<open>The texts of an address.\<close>

definition text_in :: "ntop \<Rightarrow> sockaddr \<Rightarrow> string" where
  "text_in ntop a =
     ntop AF_INET (bytes_at 4 4 a) @ '':'' @ utoa (unat (ntohs (bytes_at 2 2 a)))"

definition text_in6 :: "ntop \<Rightarrow> sockaddr \<Rightarrow> string" where
  "text_in6 ntop a =
     ''['' @ ntop AF_INET6 (bytes_at 8 16 a) @ '']:'' @ utoa (unat (ntohs (bytes_at 2 2 a)))"

definition prints :: "string \<Rightarrow> char list \<Rightarrow> errno \<Rightarrow> (bool \<times> char list \<times> errno) res \<Rightarrow> bool" where
  "prints t s e r \<longleftrightarrow>
     (if length t < length s then r = Ok (True, put_at 0 (t @ [NUL]) s, e)
      else \<exists>s'. r = Ok (False, s', ENOSPC) \<and> length s' = length s)"

lemma prints_in:
  assumes "c_string (ntop AF_INET (bytes_at 4 4 a))"
  shows "prints (text_in ntop a) s e (to_string_in ntop a s e)"
proof -
  obtain ip where ip: "ntop AF_INET (bytes_at 4 4 a) = ip" by blast
  obtain pt where pt: "CHR '':'' # utoa (unat (ntohs (bytes_at 2 2 a))) = pt" by blast
  have t: "text_in ntop a = ip @ pt" by (simp add: text_in_def ip pt [symmetric])
  show ?thesis
  proof (cases "length ip < length s")
    case False
    then show ?thesis
      by (simp add: prints_def t to_string_in_def inet_ntop_def ip Let_def)
  next
    case True
    with assms have len: "strlen (put_at 0 (ip @ [NUL]) s) = Ok (length ip)"
      unfolding ip by (rule strlen_put)
    have cont: "put_at (length ip) (pt @ [NUL]) (put_at 0 (ip @ [NUL]) s) = put_at 0 ((ip @ pt) @ [NUL]) s"
      if "length ip + length pt < length s"
      using that put_at_continue [of 0 ip "pt @ [NUL]" s "[NUL]"] by simp
    from True len cont show ?thesis
      by (auto simp: prints_def t to_string_in_def inet_ntop_def snprintf_def ip pt Let_def)
  qed
qed

lemma prints_in6:
  assumes "c_string (ntop AF_INET6 (bytes_at 8 16 a))"
  shows "prints (text_in6 ntop a) s e (to_string_in6 ntop a s e)"
proof -
  obtain ip where ip: "ntop AF_INET6 (bytes_at 8 16 a) = ip" by blast
  obtain pt where pt: "CHR '']'' # CHR '':'' # utoa (unat (ntohs (bytes_at 2 2 a))) = pt" by blast
  have t: "text_in6 ntop a = CHR ''['' # ip @ pt" by (simp add: text_in6_def ip pt [symmetric])
  show ?thesis
  proof (cases "1 + length ip < length s")
    case False
    then show ?thesis
      by (auto simp: prints_def t to_string_in6_def inet_ntop_def ip Let_def)
  next
    case True
    then have "drop 1 (put_at 1 (ip @ [NUL]) s) = ip @ NUL # drop (length ip + 2) s"
      by (simp add: put_at_def)
    with assms have len: "strlen (drop 1 (put_at 1 (ip @ [NUL]) s)) = Ok (length ip)"
      unfolding ip by (simp only: strlen_terminated)
    have cont: "put_at 0 ''['' (put_at (1 + length ip) (pt @ [NUL]) (put_at 1 (ip @ [NUL]) s)) =
        put_at 0 (CHR ''['' # (ip @ pt) @ [NUL]) s"
      if "1 + length ip + length pt < length s"
      using that put_at_continue [of 1 ip "pt @ [NUL]" s "[NUL]"]
        put_at_prepend [of "(ip @ pt) @ [NUL]" s "CHR ''[''"] by simp
    from True len cont show ?thesis
      by (auto simp: prints_def t to_string_in6_def inet_ntop_def snprintf_def ip pt Let_def)
  qed
qed

text \<open>
  printing an address never writes past the array: when the text and its terminator fit,
  the array starts with them and the rest of it is unchanged; otherwise the result is a null
  pointer with \<open>errno\<close> set to \<open>ENOSPC\<close>, and the array keeps its length. This holds for IPv4
  (\<open>a.b.c.d:port\<close>) and IPv6 (\<open>[x::y]:port\<close>), and for every array, the empty one included.
\<close>

theorem to_string_bounds:
  assumes "c_string (ntop AF_INET (bytes_at 4 4 a))" and "c_string (ntop AF_INET6 (bytes_at 8 16 a))"
  shows "prints (text_in ntop a) s e (ipv4_to_string ntop a s e) \<and>
         prints (text_in6 ntop a) s e (ipv6_to_string ntop a s e)"
  using prints_in [of ntop a, OF assms(1)] prints_in6 [of ntop a, OF assms(2)]
  by (simp add: ipv4_to_string_def ipv6_to_string_def)

text \<open>A table in the place of \<open>inet_pton\<close> and \<open>inet_ntop\<close>, for the witnesses.\<close>

definition sample_table :: "((sa_family \<times> string) \<times> byte list) list" where
  "sample_table =
     [((AF_INET, ''10.0.0.1''), [10, 0, 0, 1]), ((AF_INET6, ''::1''), replicate 15 0 @ [1])]"

definition sample_pton :: pton where
  "sample_pton fam t = map_of sample_table (fam, t)"

definition sample_ntop :: ntop where
  "sample_ntop fam bs =
     (if fam = AF_INET then ''10.0.0.1'' else ''::1'')"

theorem to_string_bounds_witness:
  "prints ''10.0.0.1:80'' (replicate 12 NUL) E_OK
     (ipv4_to_string sample_ntop ([2, 0, 0, 80, 10, 0, 0, 1] @ zeros 8) (replicate 12 NUL) E_OK) \<and>
   prints ''10.0.0.1:80'' (replicate 11 NUL) E_OK
     (ipv4_to_string sample_ntop ([2, 0, 0, 80, 10, 0, 0, 1] @ zeros 8) (replicate 11 NUL) E_OK)"
proof -
  let ?a = "[2, 0, 0, 80, 10, 0, 0, 1] @ zeros 8"
  have t: "text_in sample_ntop ?a = ''10.0.0.1:80''"
    by code_simp
  have c: "c_string (sample_ntop AF_INET (bytes_at 4 4 ?a))"
    "c_string (sample_ntop AF_INET6 (bytes_at 8 16 ?a))"
    by (simp_all add: sample_ntop_def)
  from to_string_bounds [OF c, of "replicate 12 NUL" E_OK] to_string_bounds [OF c, of "replicate 11 NUL" E_OK]
  show ?thesis unfolding t by blast
qed

section \<open>Round trips\<close>

text \<open>
  What \<open>inet_pton\<close> and \<open>inet_ntop\<close> are documented to do, for one address: its text is a
  non-empty string of fewer than \<open>INET6_ADDRSTRLEN\<close> characters without brackets that is read
  back as that address, and the text of an IPv6 address is not one of an IPv4 address.
\<close>

definition inet_text :: "pton \<Rightarrow> ntop \<Rightarrow> sa_family \<Rightarrow> byte list \<Rightarrow> bool" where
  "inet_text pton ntop fam bs \<longleftrightarrow>
     length bs = (if fam = AF_INET then 4 else 16) \<and>
     c_string (ntop fam bs) \<and> ntop fam bs \<noteq> [] \<and> CHR ''['' \<notin> set (ntop fam bs) \<and>
     length (ntop fam bs) < INET6_ADDRSTRLEN \<and>
     pton fam (ntop fam bs) = Some bs \<and> (fam = AF_INET6 \<longrightarrow> pton AF_INET (ntop fam bs) = None)"

lemma port_text: "length (utoa (unat (p :: in_port_t))) \<le> 5" "CHR '':'' \<notin> set (utoa n)"
proof -
  have "unat p < 2 ^ LENGTH(16)" by (rule unsigned_less)
  then have "unat p < 10 ^ 5" by simp
  then show "length (utoa (unat p)) \<le> 5" by (rule utoa_length) simp
  show "CHR '':'' \<notin> set (utoa n)" using utoa_digits is_digit_not(1) by blast
qed

lemma extract_texts:
  assumes "inet_text pton ntop fam bs" and "p \<noteq> 0"
  shows "extract_ip_port (ntop fam bs @ '':'' @ utoa (unat p)) = Some (ntop fam bs, p)"
    and "extract_ip_port (''['' @ ntop fam bs @ '']:'' @ utoa (unat p)) = Some (ntop fam bs, p)"
proof -
  obtain t where t: "ntop fam bs = t" and ne: "t \<noteq> []" and br: "hd t \<noteq> CHR ''[''"
    and len: "length t < INET6_ADDRSTRLEN"
    using assms(1) by (cases "ntop fam bs") (auto simp: inet_text_def)
  have "unbracket t = Some t" "unbracket (''['' @ t @ '']'') = Some t"
    using ne br by (auto simp: unbracket_def Suc_lessI)
  with len parse_port_utoa [OF assms(2)] extract_colon [OF port_text(2), of "t" "unat p"]
    extract_colon [OF port_text(2), of "''['' @ t @ '']''" "unat p"]
  show "extract_ip_port (ntop fam bs @ '':'' @ utoa (unat p)) = Some (ntop fam bs, p)"
    and "extract_ip_port (''['' @ ntop fam bs @ '']:'' @ utoa (unat p)) = Some (ntop fam bs, p)"
    unfolding t by simp_all
qed

text \<open>The storage \<open>build\<close> leaves, up to the length it sets.\<close>

definition stored_in :: "in_port_t \<Rightarrow> byte list \<Rightarrow> sockaddr \<Rightarrow> sockaddr" where
  "stored_in port bs st =
     put_at 8 (zeros 8) (put_at 2 (htons port) (put_at 0 (family_bytes AF_INET) (put_at 4 bs st)))"

definition stored_in6 :: "in_port_t \<Rightarrow> byte list \<Rightarrow> sockaddr \<Rightarrow> sockaddr" where
  "stored_in6 port bs st =
     put_at 24 (zeros 4) (put_at 4 (zeros 4) (put_at 2 (htons port)
       (put_at 0 (family_bytes AF_INET6) (put_at 8 bs st))))"

lemma stored_in_fields:
  assumes "length st = 128" and "length bs = 4"
  shows "take 16 (stored_in port bs st) = [2, 0] @ htons port @ bs @ zeros 8"
    and "family_of (stored_in port bs st) = AF_INET"
    and "bytes_at 2 2 (stored_in port bs st) = htons port"
    and "bytes_at 4 4 (stored_in port bs st) = bs"
proof -
  have "bytes_at 0 2 (stored_in port bs st) = family_bytes AF_INET"
    using assms by (simp add: stored_in_def field_simps)
  then show "family_of (stored_in port bs st) = AF_INET" by (rule family_of_bytes) simp
qed (use assms in \<open>simp_all add: stored_in_def field_simps\<close>,
     simp add: put_at_def htons_def zeros_def drop_Cons' take_Cons')

lemma stored_in6_fields:
  assumes "length st = 128" and "length bs = 16"
  shows "take 28 (stored_in6 port bs st) = [10, 0] @ htons port @ zeros 4 @ bs @ zeros 4"
    and "family_of (stored_in6 port bs st) = AF_INET6"
    and "bytes_at 2 2 (stored_in6 port bs st) = htons port"
    and "bytes_at 8 16 (stored_in6 port bs st) = bs"
proof -
  have "bytes_at 0 2 (stored_in6 port bs st) = family_bytes AF_INET6"
    using assms by (simp add: stored_in6_def field_simps)
  then show "family_of (stored_in6 port bs st) = AF_INET6" by (rule family_of_bytes) simp
qed (use assms in \<open>simp_all add: stored_in6_def field_simps\<close>,
     simp add: put_at_def htons_def zeros_def drop_Cons' take_Cons')

definition round_trips :: "pton \<Rightarrow> ntop \<Rightarrow> address \<Rightarrow> address \<Rightarrow> char list \<Rightarrow> bool" where
  "round_trips pton ntop a b s \<longleftrightarrow>
     (\<exists>text rest z. address_to_string ntop a s E_OK = Ok (True, text @ NUL # rest, E_OK) \<and>
        c_string text \<and> address_build_text pton text b = (True, z) \<and> address_eq z a = Ok True)"

lemma round_trips_in:
  assumes "inet_text pton ntop AF_INET bs" and "port \<noteq> 0" and "54 \<le> length s"
    and "length (addr_storage b) = 128" and "length st = 128"
  shows "round_trips pton ntop \<lparr>addr_storage = stored_in port bs st, addr_len = 16\<rparr> b s"
proof -
  let ?a = "stored_in port bs st" and ?text = "ntop AF_INET bs @ '':'' @ utoa (unat port)"
  let ?z = "\<lparr>addr_storage = stored_in port bs (addr_storage b), addr_len = 16\<rparr>"
  have bs: "length bs = 4" "c_string (ntop AF_INET bs)" "length (ntop AF_INET bs) < 46"
    "pton AF_INET (ntop AF_INET bs) = Some bs"
    using assms(1) by (simp_all add: inet_text_def INET6_ADDRSTRLEN_def)
  note f = stored_in_fields [OF assms(5) bs(1)]
  have t: "text_in ntop ?a = ?text" by (simp add: text_in_def f)
  have "length ?text < length s" using bs(3) port_text(1) [of port] assms(3) by simp
  moreover have "prints ?text s E_OK (to_string_in ntop ?a s E_OK)"
    using prints_in [of ntop ?a s E_OK] bs(2) unfolding t f by blast
  ultimately have "to_string_in ntop ?a s E_OK = Ok (True, put_at 0 (?text @ [NUL]) s, E_OK)"
    by (simp add: prints_def)
  then have "address_to_string ntop \<lparr>addr_storage = ?a, addr_len = 16\<rparr> s E_OK =
      Ok (True, ?text @ NUL # drop (length ?text + 1) s, E_OK)"
    by (simp add: address_to_string_def f(2) put_at_0)
  moreover have "address_build_text pton ?text b = (True, ?z)"
    using extract_texts(1) [OF assms(1,2)] bs(4)
    by (simp add: address_build_text_def address_build_def stored_in_def)
  moreover have "address_eq ?z \<lparr>addr_storage = ?a, addr_len = 16\<rparr> = Ok True"
    by (simp add: address_eq_def f(1) stored_in_fields(1) [OF assms(4) bs(1)])
  moreover have "c_string ?text" using bs(2) by simp
  ultimately show ?thesis unfolding round_trips_def by blast
qed

lemma round_trips_in6:
  assumes "inet_text pton ntop AF_INET6 bs" and "port \<noteq> 0" and "54 \<le> length s"
    and "length (addr_storage b) = 128" and "length st = 128"
  shows "round_trips pton ntop \<lparr>addr_storage = stored_in6 port bs st, addr_len = 28\<rparr> b s"
proof -
  let ?a = "stored_in6 port bs st"
  let ?text = "''['' @ ntop AF_INET6 bs @ '']:'' @ utoa (unat port)"
  let ?z = "\<lparr>addr_storage = stored_in6 port bs (addr_storage b), addr_len = 28\<rparr>"
  have bs: "length bs = 16" "c_string (ntop AF_INET6 bs)" "length (ntop AF_INET6 bs) < 46"
    "pton AF_INET6 (ntop AF_INET6 bs) = Some bs" "pton AF_INET (ntop AF_INET6 bs) = None"
    using assms(1) by (simp_all add: inet_text_def INET6_ADDRSTRLEN_def)
  note f = stored_in6_fields [OF assms(5) bs(1)]
  have t: "text_in6 ntop ?a = ?text" by (simp add: text_in6_def f)
  have "length ?text < length s" using bs(3) port_text(1) [of port] assms(3) by simp
  moreover have "prints ?text s E_OK (to_string_in6 ntop ?a s E_OK)"
    using prints_in6 [of ntop ?a s E_OK] bs(2) unfolding t f by blast
  ultimately have "to_string_in6 ntop ?a s E_OK = Ok (True, put_at 0 (?text @ [NUL]) s, E_OK)"
    by (simp add: prints_def)
  then have "address_to_string ntop \<lparr>addr_storage = ?a, addr_len = 28\<rparr> s E_OK =
      Ok (True, ?text @ NUL # drop (length ?text + 1) s, E_OK)"
    by (simp add: address_to_string_def f(2) put_at_0)
  moreover have "address_build_text pton ?text b = (True, ?z)"
    using extract_texts(2) [OF assms(1,2)] bs(4,5)
    by (simp add: address_build_text_def address_build_def stored_in6_def)
  moreover have "address_eq ?z \<lparr>addr_storage = ?a, addr_len = 28\<rparr> = Ok True"
    by (simp add: address_eq_def f(1) stored_in6_fields(1) [OF assms(4) bs(1)])
  moreover have "c_string ?text" using bs(2) by simp
  ultimately show ?thesis unfolding round_trips_def by blast
qed

text \<open>
  C40: an IPv4 or IPv6 address built from a host and a port other than 0 prints as a text, in any
  array of at least 54 characters, from which \<open>build\<close> makes an equal address (all bytes up to
  the address length agree), whatever was stored there before.
\<close>

theorem address_round_trip:
  assumes "address_build pton host port a0 = (True, a)" and "port \<noteq> 0"
    and "\<And>fam bs. pton fam host = Some bs \<Longrightarrow> inet_text pton ntop fam bs"
    and "length (addr_storage a0) = 128" and "length (addr_storage b) = 128" and "54 \<le> length s"
  shows "\<exists>text rest z. address_to_string ntop a s E_OK = Ok (True, text @ NUL # rest, E_OK) \<and>
           c_string text \<and> address_build_text pton text b = (True, z) \<and> address_eq z a = Ok True"
proof (cases "pton AF_INET host")
  case (Some bs)
  with assms(1) have "a = \<lparr>addr_storage = stored_in port bs (addr_storage a0), addr_len = 16\<rparr>"
    by (simp add: address_build_def stored_in_def)
  with round_trips_in [OF assms(3) [OF Some] assms(2,6,5,4)] show ?thesis
    unfolding round_trips_def by simp
next
  case None
  then obtain bs where bs: "pton AF_INET6 host = Some bs" using assms(1)
    by (auto simp: address_build_def split: option.splits)
  with assms(1) None have "a = \<lparr>addr_storage = stored_in6 port bs (addr_storage a0), addr_len = 28\<rparr>"
    by (simp add: address_build_def stored_in6_def)
  with round_trips_in6 [OF assms(3) [OF bs] assms(2,6,5,4)] show ?thesis
    unfolding round_trips_def by simp
qed

lemma sample_inet_text:
  "sample_pton fam ''::1'' = Some bs \<Longrightarrow> inet_text sample_pton sample_ntop fam bs"
  by (auto simp: sample_pton_def sample_table_def sample_ntop_def inet_text_def INET6_ADDRSTRLEN_def
      split: if_splits)

theorem address_round_trip_witness:
  "\<exists>text rest z. address_to_string sample_ntop
       (snd (address_build sample_pton ''::1'' 8080 (new_address (zeros 128)))) (replicate 60 NUL) E_OK =
       Ok (True, text @ NUL # rest, E_OK) \<and>
     c_string text \<and> address_build_text sample_pton text (new_address (zeros 128)) = (True, z) \<and>
     address_eq z (snd (address_build sample_pton ''::1'' 8080 (new_address (zeros 128)))) = Ok True"
proof -
  obtain a where a: "address_build sample_pton ''::1'' 8080 (new_address (zeros 128)) = (True, a)"
    by (simp add: address_build_def sample_pton_def sample_table_def)
  show ?thesis unfolding a snd_conv
    by (rule address_round_trip [OF a _ sample_inet_text]) (simp_all add: new_address_def)
qed

section \<open>Local addresses\<close>

lemma stored_path:
  assumes "length st = 128" and "length bs \<le> 108"
  defines "st' \<equiv> put_at (2 + length bs) (zeros (108 - length bs)) (put_at 2 bs st)"
  shows "sun_path st' = bs @ zeros (108 - length bs)" and "bytes_at 0 2 st' = bytes_at 0 2 st"
    and "length st' = 128" and "take 110 st' = take 2 st @ bs @ zeros (108 - length bs)"
proof -
  show "bytes_at 0 2 st' = bytes_at 0 2 st" and "length st' = 128"
    using assms(1,2) by (simp_all add: st'_def field_simps)
  show t: "take 110 st' = take 2 st @ bs @ zeros (108 - length bs)"
    using assms(1,2) by (simp add: st'_def put_at_def numeral_2_eq_2)
  have "sun_path st' = drop 2 (take 110 st')" by (simp add: sun_path_def bytes_at_def drop_take)
  then show "sun_path st' = bs @ zeros (108 - length bs)" unfolding t using assms(1) by simp
qed

lemma bytes_of_simps [simp]:
  "bytes_of [] = []" "bytes_of (c # s) = of_nat (char_code c) # bytes_of s"
  by (simp_all add: bytes_of_def)

lemma byte_of_char:
  "(of_nat (char_code c) :: byte) = of_nat (char_code d) \<longleftrightarrow> c = d"
  "(of_nat (char_code c) :: byte) = 0 \<longleftrightarrow> c = NUL"
proof -
  have u: "unat (of_nat (char_code c) :: byte) = char_code c" for c by (simp add: unat_of_nat)
  show "(of_nat (char_code c) :: byte) = of_nat (char_code d) \<longleftrightarrow> c = d"
    using u [of c] u [of d] by (metis of_char_eq_iff)
  have "char_code c = 0 \<longleftrightarrow> c = NUL" using of_char_eq_iff [of c NUL, where 'a = nat] by simp
  with u [of c] show "(of_nat (char_code c) :: byte) = 0 \<longleftrightarrow> c = NUL"
    by (metis unat_0 unat_eq_zero)
qed

lemma strcmp_paths:
  "c_string p \<Longrightarrow> c_string q \<Longrightarrow>
     strcmp_eq (bytes_of p @ zeros (Suc m)) (bytes_of q @ zeros (Suc n)) = Ok (p = q)"
proof (induction p arbitrary: q)
  case Nil
  then show ?case by (cases q) (auto simp: zeros_def byte_of_char)
next
  case (Cons c p)
  then show ?case by (cases q) (auto simp: zeros_def byte_of_char)
qed

text \<open>
  the class \<open>local\<close>: a path of 1 to 107 characters is accepted and printed back, into any
  array it fits with its terminator; longer and empty paths are refused with the object
  unchanged. Two such addresses are equal exactly when their paths are.
\<close>

theorem local_paths:
  assumes "c_string p" and "c_string q" and "length a = 110" and "length b = 110"
  shows "(0 < length p \<and> length p < 108 \<longrightarrow>
            fst (local_build p a) \<and> prints p s e (local_to_string (snd (local_build p a)) s e) \<and>
            (0 < length q \<and> length q < 108 \<longrightarrow>
               local_eq (snd (local_build p a)) (snd (local_build q b)) = Ok (p = q))) \<and>
         (\<not> (0 < length p \<and> length p < 108) \<longrightarrow> local_build p a = (False, a))"
proof -
  have path: "sun_path (snd (local_build p a)) = bytes_of p @ zeros (Suc (107 - length p))"
    if "0 < length p" "length p < 108" "length a = 110" for p a
  proof -
    have "Suc (107 - length p) = 108 - length p" using that by simp
    with that show ?thesis
      by (simp add: local_build_def Let_def sun_path_def bytes_at_def put_at_def numeral_2_eq_2)
  qed
  show ?thesis
  proof (intro conjI impI)
    assume p: "0 < length p \<and> length p < 108"
    then show "fst (local_build p a)" by (simp add: local_build_def Let_def)
    have "strlen (p @ replicate (Suc (107 - length p)) NUL) = Ok (length p)"
      by (rule strlen_padded [OF assms(1)]) simp
    with p show "prints p s e (local_to_string (snd (local_build p a)) s e)"
      using put_at_continue [of 0 p "[NUL]" s "[]"]
      by (simp add: prints_def local_to_string_def to_string_un_def path assms(3) Let_def)
    assume q: "0 < length q \<and> length q < 108"
    have "bytes_of p \<noteq> []" "(bytes_of p @ xs) ! 0 \<noteq> 0" for xs
      using p assms(1) by (cases p; simp add: byte_of_char)+
    with p q show "local_eq (snd (local_build p a)) (snd (local_build q b)) = Ok (p = q)"
      by (simp add: local_eq_def equal_un_def path assms(3,4) strcmp_paths [OF assms(1,2)])
  next
    assume "\<not> (0 < length p \<and> length p < 108)"
    then show "local_build p a = (False, a)" by (auto simp: local_build_def Let_def)
  qed
qed

theorem local_paths_witness:
  "local_eq (snd (local_build ''/tmp/a'' (zeros 110))) (snd (local_build ''/tmp/b'' (zeros 110))) = Ok False"
  using local_paths [of "''/tmp/a''" "''/tmp/b''" "zeros 110" "zeros 110" "[]" E_OK] by simp

lemma strcmp_unterminated: "0 \<notin> set bs \<Longrightarrow> strcmp_eq bs bs = Fault"
  by (induction bs) auto

text \<open>
  \<open>local::build(address, len)\<close> accepts 108 bytes without a terminator: it fills \<open>sun_path\<close>
  completely. Printing such an address, or comparing it with itself, reads past the end of
  the structure.
\<close>

theorem local_unterminated:
  assumes "length bs = 108" and "0 \<notin> set bs" and "length a = 110"
  shows "fst (local_build_bytes bs a) \<and>
         local_to_string (snd (local_build_bytes bs a)) s e = Fault \<and>
         local_eq (snd (local_build_bytes bs a)) (snd (local_build_bytes bs a)) = Fault"
proof -
  have path: "sun_path (snd (local_build_bytes bs a)) = bs"
    using assms
    by (simp add: local_build_bytes_def sun_path_def bytes_at_def put_at_def zeros_def numeral_2_eq_2)
  have "NUL \<notin> set (chars_of bs)"
  proof
    assume "NUL \<in> set (chars_of bs)"
    then obtain b where "b \<in> set bs" and "NUL = char_of (unat b)"
      unfolding chars_of_def set_map by (rule imageE)
    then have b: "b \<in> set bs" "char_of (unat b) = NUL" by simp_all
    from b(2) have "char_code (char_of (unat b)) = 0" by simp
    with byte_less [of b] have "b = 0" by (simp add: unat_eq_zero)
    with b(1) assms(2) show False by simp
  qed
  moreover have "bs ! 0 \<noteq> 0" using assms(1,2) by (metis nth_mem zero_less_numeral)
  moreover have "fst (local_build_bytes bs a)" using assms(1) by (simp add: local_build_bytes_def Let_def)
  ultimately show ?thesis
    unfolding local_to_string_def local_eq_def to_string_un_def equal_un_def path Let_def
    using strcmp_unterminated [OF assms(2)] by (simp add: strlen_def)
qed

theorem local_unterminated_witness:
  "local_to_string (snd (local_build_bytes (replicate 108 47) (zeros 110))) [] E_OK = Fault"
  using local_unterminated [of "replicate 108 47" "zeros 110"] by simp

end
