(* ===== verification/Socket.thy ===== *)
theory Socket
  imports Address
begin

text \<open>
  \<open>net::socket\<close> (net/socket.h, net/socket.cpp): a non-blocking stream socket that owns its
  descriptor. Every loop of the class retries an interrupted call; it ends when the kernel
  gives another answer. Addresses are passed as their bytes and length.
\<close>

section \<open>Calls\<close>

definition sys_close :: "int \<Rightarrow> machine \<Rightarrow> machine" where
  "sys_close fd m = note_call (Sock (C_close_socket fd)) m"

definition sys_socket :: "sa_family \<Rightarrow> machine \<Rightarrow> (int \<times> machine) res" where
  "sys_socket fam m = andThen (syscall (Sock (C_socket fam)) m) (\<lambda>(r, m). Ok (fd_of r, m))"

definition sys_status :: "sock_call \<Rightarrow> machine \<Rightarrow> (int \<times> machine) res" where
  "sys_status c m = andThen (syscall (Sock c) m) (\<lambda>(r, m). Ok (status_of r, m))"

text \<open>\<open>getsockopt\<close> for an \<open>int\<close>: the value, or nothing when it fails.\<close>

fun value_of :: "reply \<Rightarrow> int option" where
  "value_of (Ret n) = Some n"
| "value_of _ = None"

definition sys_getsockopt :: "int \<Rightarrow> sockopt \<Rightarrow> machine \<Rightarrow> (int option \<times> machine) res" where
  "sys_getsockopt fd opt m =
     andThen (syscall (Sock (C_getsockopt fd opt)) m) (\<lambda>(r, m). Ok (value_of r, m))"

text \<open>\<open>accept4\<close>: the new descriptor and the peer's address, or -1.\<close>

fun accepted_of :: "reply \<Rightarrow> int \<times> byte list" where
  "accepted_of (Accepted fd peer) = (max (-1) fd, peer)"
| "accepted_of _ = (-1, [])"

definition sys_accept4 :: "int \<Rightarrow> machine \<Rightarrow> ((int \<times> byte list) \<times> machine) res" where
  "sys_accept4 fd m =
     andThen (syscall (Sock (C_accept4 fd)) m) (\<lambda>(r, m). Ok (accepted_of r, m))"

text \<open>\<open>recv\<close>: the bytes received (none: the peer has closed the connection), or -1.\<close>

definition sys_recv :: "int \<Rightarrow> nat \<Rightarrow> machine \<Rightarrow> (byte list option \<times> machine) res" where
  "sys_recv fd len m =
     andThen (syscall (Sock (C_recv fd len)) m) (\<lambda>(r, m). Ok (data_of len r, m))"

definition sys_send :: "int \<Rightarrow> byte list \<Rightarrow> machine \<Rightarrow> (int \<times> machine) res" where
  "sys_send fd bs m =
     andThen (syscall (Sock (C_send fd bs)) m) (\<lambda>(r, m). Ok (count_of (length bs) r, m))"

text \<open>\<open>poll\<close> of one descriptor: 1 when it is ready, 0 for a timeout, -1 for an error.\<close>

fun poll_of :: "reply \<Rightarrow> int" where
  "poll_of (Ret n) = (if n = 0 then 0 else 1)"
| "poll_of _ = -1"

definition sys_poll :: "int \<Rightarrow> poll_event \<Rightarrow> int \<Rightarrow> machine \<Rightarrow> (int \<times> machine) res" where
  "sys_poll fd ev timeout m =
     andThen (syscall (Sock (C_poll fd ev timeout)) m) (\<lambda>(r, m). Ok (poll_of r, m))"

lemmas [sys_defs] = sys_socket_def sys_status_def sys_getsockopt_def sys_accept4_def
  sys_recv_def sys_send_def sys_poll_def

lemma sys_shorter:
  "sys_status c m = Ok (n, m') \<Longrightarrow> length (replies m') < length (replies m)"
  "sys_accept4 fd m = Ok (a, m') \<Longrightarrow> length (replies m') < length (replies m)"
  "sys_recv fd len m = Ok (d, m') \<Longrightarrow> length (replies m') < length (replies m)"
  "sys_send fd bs m = Ok (n, m') \<Longrightarrow> length (replies m') < length (replies m)"
  "sys_poll fd ev t m = Ok (n, m') \<Longrightarrow> length (replies m') < length (replies m)"
  by (auto simp: sys_defs andThen_Ok_iff syscall_Ok_iff)

section \<open>The object\<close>

record sock =
  sock_fd :: int

definition new_socket :: sock where
  "new_socket = \<lparr>sock_fd = -1\<rparr>"

definition socket_of_fd :: "int \<Rightarrow> sock" where
  "socket_of_fd fd = \<lparr>sock_fd = fd\<rparr>"

text \<open>The constructor that takes ownership: the new socket and the old one.\<close>

definition socket_take :: "sock \<Rightarrow> sock \<times> sock" where
  "socket_take s = (\<lparr>sock_fd = sock_fd s\<rparr>, s\<lparr>sock_fd := -1\<rparr>)"

definition sock_close :: "sock \<Rightarrow> machine \<Rightarrow> sock \<times> machine" where
  "sock_close s m =
     (if sock_fd s \<noteq> -1 then (s\<lparr>sock_fd := -1\<rparr>, sys_close (sock_fd s) m) else (s, m))"

definition socket_destroy :: "sock \<Rightarrow> machine \<Rightarrow> machine" where
  "socket_destroy s m = snd (sock_close s m)"

definition set_fd :: "int \<Rightarrow> sock \<Rightarrow> sock" where
  "set_fd n s = s\<lparr>sock_fd := n\<rparr>"

datatype shutdown_how = SHUT_RD | SHUT_WR | SHUT_RDWR

fun how_code :: "shutdown_how \<Rightarrow> int" where
  "how_code SHUT_RD = 0"
| "how_code SHUT_WR = 1"
| "how_code SHUT_RDWR = 2"

definition sock_shutdown :: "shutdown_how \<Rightarrow> sock \<Rightarrow> machine \<Rightarrow> (bool \<times> machine) res" where
  "sock_shutdown how s m =
     andThen (sys_status (C_shutdown (sock_fd s) (how_code how)) m) (\<lambda>(n, m). Ok (n = 0, m))"

section \<open>Options\<close>

definition get_socket_error :: "sock \<Rightarrow> machine \<Rightarrow> (int option \<times> machine) res" where
  "get_socket_error s m = sys_getsockopt (sock_fd s) SO_ERROR m"

definition get_recvbuf_size :: "sock \<Rightarrow> machine \<Rightarrow> (int option \<times> machine) res" where
  "get_recvbuf_size s m = sys_getsockopt (sock_fd s) SO_RCVBUF m"

definition get_sendbuf_size :: "sock \<Rightarrow> machine \<Rightarrow> (int option \<times> machine) res" where
  "get_sendbuf_size s m = sys_getsockopt (sock_fd s) SO_SNDBUF m"

definition set_option :: "sockopt \<Rightarrow> int \<Rightarrow> sock \<Rightarrow> machine \<Rightarrow> (bool \<times> machine) res" where
  "set_option opt v s m =
     andThen (sys_status (C_setsockopt (sock_fd s) opt v) m) (\<lambda>(n, m). Ok (n = 0, m))"

definition set_recvbuf_size :: "int \<Rightarrow> sock \<Rightarrow> machine \<Rightarrow> (bool \<times> machine) res" where
  "set_recvbuf_size n s m = set_option SO_RCVBUF n s m"

definition set_sendbuf_size :: "int \<Rightarrow> sock \<Rightarrow> machine \<Rightarrow> (bool \<times> machine) res" where
  "set_sendbuf_size n s m = set_option SO_SNDBUF n s m"

definition get_flag :: "sockopt \<Rightarrow> sock \<Rightarrow> machine \<Rightarrow> (bool option \<times> machine) res" where
  "get_flag opt s m =
     andThen (sys_getsockopt (sock_fd s) opt m) (\<lambda>(v, m).
       case v of Some optval \<Rightarrow> Ok (Some (optval \<noteq> 0), m) | None \<Rightarrow> Ok (None, m))"

definition get_keep_alive :: "sock \<Rightarrow> machine \<Rightarrow> (bool option \<times> machine) res" where
  "get_keep_alive s m = get_flag SO_KEEPALIVE s m"

definition set_keep_alive :: "bool \<Rightarrow> sock \<Rightarrow> machine \<Rightarrow> (bool \<times> machine) res" where
  "set_keep_alive on s m = set_option SO_KEEPALIVE (of_bool on) s m"

definition get_tcp_no_delay :: "sock \<Rightarrow> machine \<Rightarrow> (bool option \<times> machine) res" where
  "get_tcp_no_delay s m = get_flag TCP_NODELAY s m"

definition set_tcp_no_delay :: "bool \<Rightarrow> sock \<Rightarrow> machine \<Rightarrow> (bool \<times> machine) res" where
  "set_tcp_no_delay on s m = set_option TCP_NODELAY (of_bool on) s m"

definition cork :: "sock \<Rightarrow> machine \<Rightarrow> (bool \<times> machine) res" where
  "cork s m = set_option TCP_CORK 1 s m"

definition uncork :: "sock \<Rightarrow> machine \<Rightarrow> (bool \<times> machine) res" where
  "uncork s m = set_option TCP_CORK 0 s m"

section \<open>Waiting\<close>

definition wait_for :: "poll_event \<Rightarrow> int \<Rightarrow> sock \<Rightarrow> machine \<Rightarrow> (bool \<times> machine) res" where
  "wait_for ev timeout s m =
     andThen (sys_poll (sock_fd s) ev timeout m) (\<lambda>(n, m).
       if n = 1 then Ok (True, m)
       else if n = 0 then Ok (False, m\<lparr>errno := ETIMEDOUT\<rparr>)
       else Ok (False, m))"

definition wait_readable :: "int \<Rightarrow> sock \<Rightarrow> machine \<Rightarrow> (bool \<times> machine) res" where
  "wait_readable timeout s m = wait_for POLLIN_RDHUP timeout s m"

definition wait_writable :: "int \<Rightarrow> sock \<Rightarrow> machine \<Rightarrow> (bool \<times> machine) res" where
  "wait_writable timeout s m = wait_for POLLOUT timeout s m"

section \<open>Receiving\<close>

function sock_recv :: "nat \<Rightarrow> sock \<Rightarrow> machine \<Rightarrow> (byte list option \<times> machine) res" where
  "sock_recv len s m =
     andThen (sys_recv (sock_fd s) len m) (\<lambda>(ret, m).
       case ret of
         Some bs \<Rightarrow> Ok (Some bs, m)
       | None \<Rightarrow> if errno m \<noteq> EINTR then Ok (None, m) else sock_recv len s m)"
  by pat_completeness auto
termination
  by (relation "measure (\<lambda>(len, s, m). length (replies m))") (auto dest: sys_shorter)

definition recv_timed :: "nat \<Rightarrow> int \<Rightarrow> sock \<Rightarrow> machine \<Rightarrow> (byte list option \<times> machine) res" where
  "recv_timed len timeout s m =
     andThen (sock_recv len s m) (\<lambda>(ret, m).
       case ret of
         Some bs \<Rightarrow> Ok (Some bs, m)
       | None \<Rightarrow>
           if errno m = EAGAIN then
             andThen (wait_readable timeout s m) (\<lambda>(ready, m).
               if ready then sock_recv len s m else Ok (None, m))
           else Ok (None, m))"

section \<open>Sending\<close>

function sock_send :: "byte list \<Rightarrow> sock \<Rightarrow> machine \<Rightarrow> (int \<times> machine) res" where
  "sock_send bs s m =
     andThen (sys_send (sock_fd s) bs m) (\<lambda>(ret, m).
       if 0 \<le> ret then Ok (ret, m)
       else if errno m \<noteq> EINTR then Ok (-1, m) else sock_send bs s m)"
  by pat_completeness auto
termination
  by (relation "measure (\<lambda>(bs, s, m). length (replies m))") (auto dest: sys_shorter)

declare sock_recv.simps [simp del] sock_send.simps [simp del]

lemma sock_send_shorter:
  "sock_send bs s m = Ok (n, m') \<Longrightarrow> length (replies m') < length (replies m)"
proof (induction bs s m rule: sock_send.induct)
  case (1 bs s m)
  from 1(2) obtain k m1 where k: "sys_send (sock_fd s) bs m = Ok (k, m1)"
    and "(if 0 \<le> k then Ok (k, m1) else if errno m1 \<noteq> EINTR then Ok (-1, m1) else sock_send bs s m1) = Ok (n, m')"
    by (auto simp: sock_send.simps [of bs s m] andThen_Ok_iff)
  with sys_shorter(4) [OF k] 1(1) [OF k] show ?case by (auto split: if_splits)
qed

lemma wait_for_shorter:
  "wait_for ev t s m = Ok (b, m') \<Longrightarrow> length (replies m') < length (replies m)"
  by (auto simp: wait_for_def sys_defs andThen_Ok_iff syscall_Ok_iff split: if_splits)

text \<open>The loop of \<open>send(buf, len, timeout)\<close>: \<open>b\<close> is what is left to be sent.\<close>

function send_timed :: "byte list \<Rightarrow> int \<Rightarrow> sock \<Rightarrow> machine \<Rightarrow> (bool \<times> machine) res" where
  "send_timed b timeout s m =
     (if 0 < length b then
        andThen (sock_send b s m) (\<lambda>(ret, m).
          if 0 \<le> ret then send_timed (drop (nat ret) b) timeout s m
          else if errno m = EAGAIN then
            andThen (wait_writable timeout s m) (\<lambda>(ready, m).
              if \<not> ready then Ok (False, m) else send_timed b timeout s m)
          else Ok (False, m))
      else Ok (True, m))"
  by pat_completeness auto
termination
  by (relation "measure (\<lambda>(b, t, s, m). length (replies m))")
     (auto simp: wait_writable_def dest!: sock_send_shorter wait_for_shorter)

declare send_timed.simps [simp del]

section \<open>Connecting\<close>

function connect_loop :: "sockaddr \<Rightarrow> sock \<Rightarrow> machine \<Rightarrow> (bool \<times> sock \<times> machine) res" where
  "connect_loop addr s m =
     andThen (sys_status (C_connect (sock_fd s) addr) m) (\<lambda>(ret, m).
       if ret = 0 then Ok (True, s, m)
       else if errno m = EINPROGRESS then Ok (False, s, m)
       else if errno m \<noteq> EINTR then Ok (False, s\<lparr>sock_fd := -1\<rparr>, sys_close (sock_fd s) m)
       else connect_loop addr s m)"
  by pat_completeness auto
termination
  by (relation "measure (\<lambda>(a, s, m). length (replies m))") (auto dest: sys_shorter)

declare connect_loop.simps [simp del]

definition sock_connect :: "sockaddr \<Rightarrow> nat \<Rightarrow> sock \<Rightarrow> machine \<Rightarrow> (bool \<times> sock \<times> machine) res" where
  "sock_connect addr addrlen s m =
     andThen (sys_socket (family_of addr) m) (\<lambda>(fd, m). let s = s\<lparr>sock_fd := fd\<rparr> in
       if fd \<noteq> -1 then connect_loop (take addrlen addr) s m else Ok (False, s, m))"

definition connect_timed :: "sockaddr \<Rightarrow> nat \<Rightarrow> int \<Rightarrow> sock \<Rightarrow> machine \<Rightarrow> (bool \<times> sock \<times> machine) res" where
  "connect_timed addr addrlen timeout s m =
     andThen (sock_connect addr addrlen s m) (\<lambda>(ok, s, m).
       if ok then
         andThen (get_socket_error s m) (\<lambda>(error, m).
           if error = Some 0 then Ok (True, s, m)
           else Ok (False, s\<lparr>sock_fd := -1\<rparr>, sys_close (sock_fd s) m))
       else if sock_fd s \<noteq> -1 then
         andThen (wait_writable timeout s m) (\<lambda>(ready, m).
         andThen (if ready then get_socket_error s m else Ok (None, m)) (\<lambda>(error, m).
           if ready \<and> error = Some 0 then Ok (True, s, m)
           else Ok (False, s\<lparr>sock_fd := -1\<rparr>, sys_close (sock_fd s) m)))
       else Ok (False, s, m))"

definition connect_address :: "address \<Rightarrow> sock \<Rightarrow> machine \<Rightarrow> (bool \<times> sock \<times> machine) res" where
  "connect_address a s m = sock_connect (addr_storage a) (address_size a) s m"

definition connect_ipv4 :: "sockaddr \<Rightarrow> sock \<Rightarrow> machine \<Rightarrow> (bool \<times> sock \<times> machine) res" where
  "connect_ipv4 a s m = sock_connect a ipv4_size s m"

definition connect_ipv6 :: "sockaddr \<Rightarrow> sock \<Rightarrow> machine \<Rightarrow> (bool \<times> sock \<times> machine) res" where
  "connect_ipv6 a s m = sock_connect a ipv6_size s m"

definition connect_local :: "sockaddr \<Rightarrow> sock \<Rightarrow> machine \<Rightarrow> (bool \<times> sock \<times> machine) res" where
  "connect_local a s m = sock_connect a local_size s m"

definition connect_address_timed :: "address \<Rightarrow> int \<Rightarrow> sock \<Rightarrow> machine \<Rightarrow> (bool \<times> sock \<times> machine) res" where
  "connect_address_timed a timeout s m = connect_timed (addr_storage a) (address_size a) timeout s m"

definition connect_ipv4_timed :: "sockaddr \<Rightarrow> int \<Rightarrow> sock \<Rightarrow> machine \<Rightarrow> (bool \<times> sock \<times> machine) res" where
  "connect_ipv4_timed a timeout s m = connect_timed a ipv4_size timeout s m"

definition connect_ipv6_timed :: "sockaddr \<Rightarrow> int \<Rightarrow> sock \<Rightarrow> machine \<Rightarrow> (bool \<times> sock \<times> machine) res" where
  "connect_ipv6_timed a timeout s m = connect_timed a ipv6_size timeout s m"

definition connect_local_timed :: "sockaddr \<Rightarrow> int \<Rightarrow> sock \<Rightarrow> machine \<Rightarrow> (bool \<times> sock \<times> machine) res" where
  "connect_local_timed a timeout s m = connect_timed a local_size timeout s m"

section \<open>Listening and accepting\<close>

definition sock_listen :: "sockaddr \<Rightarrow> nat \<Rightarrow> sock \<Rightarrow> machine \<Rightarrow> (bool \<times> sock \<times> machine) res" where
  "sock_listen addr addrlen s m =
     andThen (sys_socket (family_of addr) m) (\<lambda>(fd, m). let s = s\<lparr>sock_fd := fd\<rparr> in
       if fd \<noteq> -1 then
         andThen (sys_status (C_setsockopt fd SO_REUSEADDR 1) m) (\<lambda>(a, m).
         andThen (if a = 0 then sys_status (C_setsockopt fd SO_REUSEPORT 1) m else Ok (-1, m)) (\<lambda>(b, m).
         andThen (if b = 0 then sys_status (C_bind fd (take addrlen addr)) m else Ok (-1, m)) (\<lambda>(c, m).
         andThen (if c = 0 then sys_status (C_listen fd) m else Ok (-1, m)) (\<lambda>(d, m).
           if d = 0 then Ok (True, s, m)
           else Ok (False, s\<lparr>sock_fd := -1\<rparr>, sys_close fd m)))))
       else Ok (False, s, m))"

definition listen_address :: "address \<Rightarrow> sock \<Rightarrow> machine \<Rightarrow> (bool \<times> sock \<times> machine) res" where
  "listen_address a s m = sock_listen (addr_storage a) (address_size a) s m"

definition listen_ipv4 :: "sockaddr \<Rightarrow> sock \<Rightarrow> machine \<Rightarrow> (bool \<times> sock \<times> machine) res" where
  "listen_ipv4 a s m = sock_listen a ipv4_size s m"

definition listen_ipv6 :: "sockaddr \<Rightarrow> sock \<Rightarrow> machine \<Rightarrow> (bool \<times> sock \<times> machine) res" where
  "listen_ipv6 a s m = sock_listen a ipv6_size s m"

definition listen_local :: "sockaddr \<Rightarrow> sock \<Rightarrow> machine \<Rightarrow> (bool \<times> sock \<times> machine) res" where
  "listen_local a s m = sock_listen a local_size s m"

text \<open>
  \<open>accept\<close> with a socket for the connection and room for the peer's address, or none: the
  kernel writes as much of the address as fits and sets the length to that of all of it.
\<close>

function sock_accept ::
    "sock \<Rightarrow> (sockaddr \<times> nat) option \<Rightarrow> sock \<Rightarrow> machine \<Rightarrow>
     (bool \<times> sock \<times> (sockaddr \<times> nat) option \<times> machine) res" where
  "sock_accept client addr s m =
     andThen (sys_accept4 (sock_fd s) m) (\<lambda>(conn, m).
       if fst conn \<noteq> -1 then
         Ok (True, client\<lparr>sock_fd := fst conn\<rparr>,
             map_option (\<lambda>(a, len). (put_at 0 (take len (snd conn)) a, length (snd conn))) addr, m)
       else if errno m \<noteq> EINTR then Ok (False, client, addr, m)
       else sock_accept client addr s m)"
  by pat_completeness auto
termination
  by (relation "measure (\<lambda>(c, a, s, m). length (replies m))") (auto dest: sys_shorter)

declare sock_accept.simps [simp del]

definition accept_timed ::
    "sock \<Rightarrow> (sockaddr \<times> nat) option \<Rightarrow> int \<Rightarrow> sock \<Rightarrow> machine \<Rightarrow>
     (bool \<times> sock \<times> (sockaddr \<times> nat) option \<times> machine) res" where
  "accept_timed client addr timeout s m =
     andThen (sock_accept client addr s m) (\<lambda>(ok, client, addr, m).
       if ok then Ok (True, client, addr, m)
       else if errno m = EAGAIN then
         andThen (wait_readable timeout s m) (\<lambda>(ready, m).
           if ready then sock_accept client addr s m else Ok (False, client, addr, m))
       else Ok (False, client, addr, m))"

definition store_peer :: "bool \<Rightarrow> (sockaddr \<times> nat) option \<Rightarrow> address \<Rightarrow> address" where
  "store_peer ok addr a =
     (case addr of
        Some (st, len) \<Rightarrow> \<lparr>addr_storage = st, addr_len = if ok then len else addr_len a\<rparr>
      | None \<Rightarrow> a)"

definition accept_address ::
    "sock \<Rightarrow> address \<Rightarrow> sock \<Rightarrow> machine \<Rightarrow> (bool \<times> sock \<times> address \<times> machine) res" where
  "accept_address client a s m =
     andThen (sock_accept client (Some (addr_storage a, address_size a)) s m)
       (\<lambda>(ok, client, addr, m). Ok (ok, client, store_peer ok addr a, m))"

definition accept_any :: "sock \<Rightarrow> sock \<Rightarrow> machine \<Rightarrow> (bool \<times> sock \<times> machine) res" where
  "accept_any client s m =
     andThen (sock_accept client None s m) (\<lambda>(ok, client, _, m). Ok (ok, client, m))"

definition accept_address_timed ::
    "sock \<Rightarrow> address \<Rightarrow> int \<Rightarrow> sock \<Rightarrow> machine \<Rightarrow> (bool \<times> sock \<times> address \<times> machine) res" where
  "accept_address_timed client a timeout s m =
     andThen (accept_timed client (Some (addr_storage a, address_size a)) timeout s m)
       (\<lambda>(ok, client, addr, m). Ok (ok, client, store_peer ok addr a, m))"

definition accept_any_timed :: "sock \<Rightarrow> int \<Rightarrow> sock \<Rightarrow> machine \<Rightarrow> (bool \<times> sock \<times> machine) res" where
  "accept_any_timed client timeout s m =
     andThen (accept_timed client None timeout s m) (\<lambda>(ok, client, _, m). Ok (ok, client, m))"

section \<open>Descriptors\<close>

text \<open>
  The descriptors a stretch of the trace opens and closes: for a descriptor \<open>f\<close>, how many times
  it was handed out by \<open>socket\<close> or \<open>accept4\<close>, minus how many times it was closed.
\<close>

fun fd_delta :: "int \<Rightarrow> call \<times> reply \<Rightarrow> int" where
  "fd_delta f (Sock (C_socket fam), r) = of_bool (fd_of r = f \<and> f \<noteq> -1)"
| "fd_delta f (Sock (C_accept4 l), r) = of_bool (fst (accepted_of r) = f \<and> f \<noteq> -1)"
| "fd_delta f (Sock (C_close_socket g), r) = - of_bool (g = f)"
| "fd_delta f _ = 0"

definition fd_balance :: "int \<Rightarrow> machine \<Rightarrow> int" where
  "fd_balance f m = (\<Sum>e\<leftarrow>trace m. fd_delta f e)"

text \<open>Likewise for the connection objects of OpenSSL.\<close>

fun ssl_delta :: "ptr \<Rightarrow> call \<times> reply \<Rightarrow> int" where
  "ssl_delta p (Ssl (C_SSL_new ctx), r) = of_bool (nat (fd_of r) = p \<and> p \<noteq> 0)"
| "ssl_delta p (Ssl (C_SSL_free q), r) = - of_bool (q = p)"
| "ssl_delta p _ = 0"

definition ssl_balance :: "ptr \<Rightarrow> machine \<Rightarrow> int" where
  "ssl_balance p m = (\<Sum>e\<leftarrow>trace m. ssl_delta p e)"

lemma ssl_balance_upd [simp]:
  "ssl_balance p (m\<lparr>replies := a, errno := b, trace := trace m @ [e]\<rparr>) = ssl_balance p m + ssl_delta p e"
  "ssl_balance p (m\<lparr>replies := a, trace := trace m @ [e]\<rparr>) = ssl_balance p m + ssl_delta p e"
  "ssl_balance p (m\<lparr>errno := b\<rparr>) = ssl_balance p m"
  "ssl_balance p (sys_close g m) = ssl_balance p m"
  by (simp_all add: ssl_balance_def sys_close_def)

lemma fd_balance_upd [simp]:
  "fd_balance f (m\<lparr>replies := a, errno := b, trace := trace m @ [e]\<rparr>) = fd_balance f m + fd_delta f e"
  "fd_balance f (m\<lparr>replies := a, trace := trace m @ [e]\<rparr>) = fd_balance f m + fd_delta f e"
  "fd_balance f (m\<lparr>errno := b\<rparr>) = fd_balance f m"
  "fd_balance f (sys_close g m) = fd_balance f m - of_bool (g = f)"
  by (simp_all add: fd_balance_def sys_close_def)

lemma sys_close_simps [simp]:
  "files (sys_close g m) = files m" "replies (sys_close g m) = replies m"
  by (simp_all add: sys_close_def)

lemma same_mem_upd [simp]:
  "same_mem m0 (m\<lparr>replies := a, errno := b, trace := c\<rparr>) = same_mem m0 m"
  "same_mem m0 (m\<lparr>replies := a, trace := c\<rparr>) = same_mem m0 m"
  "same_mem m0 (m\<lparr>errno := b\<rparr>) = same_mem m0 m"
  "same_mem m0 (sys_close g m) = same_mem m0 m"
  by (simp_all add: same_mem_def sys_close_def)

lemma later_close [simp]: "later m0 m \<Longrightarrow> later m0 (sys_close g m)"
  by (simp add: sys_close_def)

text \<open>A step that opens and closes nothing.\<close>

definition quiet :: "machine \<Rightarrow> machine \<Rightarrow> bool" where
  "quiet m m' \<longleftrightarrow>
     same_mem m m' \<and> later m m' \<and> files m' = files m \<and> length (replies m') \<le> length (replies m) \<and>
     (\<forall>f. fd_balance f m' = fd_balance f m) \<and> (\<forall>p. ssl_balance p m' = ssl_balance p m)"

lemma quiet_refl [simp]: "quiet m m"
  by (simp add: quiet_def)

lemma quiet_trans: "quiet a b \<Longrightarrow> quiet b c \<Longrightarrow> quiet a c"
  by (auto simp: quiet_def intro: same_mem_trans later_trans)

lemma wp_quiet:
  "wp (get_socket_error s m) (\<lambda>(e, m'). quiet m m')"
  "wp (wait_for ev t s m) (\<lambda>(b, m'). quiet m m')"
  "wp (sys_status (C_connect fd addr) m) (\<lambda>(n, m'). quiet m m')"
  "wp (sys_status (C_setsockopt fd opt v) m) (\<lambda>(n, m'). quiet m m')"
  "wp (sys_status (C_bind fd addr) m) (\<lambda>(n, m'). quiet m m')"
  "wp (sys_status (C_listen fd) m) (\<lambda>(n, m'). quiet m m')"
  by (auto simp: get_socket_error_def wait_for_def sys_defs quiet_def)

text \<open>
  What connecting guarantees about descriptors: the socket's descriptor is the only one opened
  and not closed again, and it is \<open>-1\<close> when none is left open.
\<close>

definition owns :: "machine \<Rightarrow> sock \<Rightarrow> machine \<Rightarrow> bool" where
  "owns m s m' \<longleftrightarrow>
     same_mem m m' \<and> later m m' \<and> files m' = files m \<and> length (replies m') \<le> length (replies m) \<and>
     (\<forall>f. fd_balance f m' = fd_balance f m + of_bool (f = sock_fd s \<and> f \<noteq> -1)) \<and>
     (\<forall>p. ssl_balance p m' = ssl_balance p m)"

lemma owns_quiet: "owns m s m' \<Longrightarrow> quiet m' m'' \<Longrightarrow> owns m s m''"
  by (auto simp: owns_def quiet_def intro: same_mem_trans later_trans)

lemma owns_close: "owns m s m' \<Longrightarrow> sock_fd s \<noteq> -1 \<Longrightarrow> owns m (s\<lparr>sock_fd := -1\<rparr>) (sys_close (sock_fd s) m')"
  by (auto simp: owns_def)

lemma wp_sys_socket:
  "wp (sys_socket fam m) (\<lambda>(fd, m'). owns m (s\<lparr>sock_fd := fd\<rparr>) m')"
  by (auto simp: sys_socket_def owns_def)

lemma wp_step:
  assumes "wp r P" and "\<And>a. P a \<Longrightarrow> wp (f a) Q" shows "wp (andThen r f) Q"
  using assms by (auto intro: wp_mono)

lemma wp_connect_loop:
  assumes "owns m0 s m" and "sock_fd s \<noteq> -1"
  shows "wp (connect_loop addr s m) (\<lambda>(ok, s', m').
           owns m0 s' m' \<and> (sock_fd s' = sock_fd s \<or> \<not> ok \<and> sock_fd s' = -1) \<and>
           (ok \<longrightarrow> sock_fd s' \<noteq> -1 \<and>
              (\<exists>n. last (trace m') = (Sock (C_connect (sock_fd s) addr), Ret n))) \<and>
           (\<not> ok \<and> sock_fd s' \<noteq> -1 \<longrightarrow> errno m' = EINPROGRESS))"
  using assms
proof (induction addr s m rule: connect_loop.induct)
  case (1 addr s m)
  note hyps = 1
  let ?Q = "\<lambda>(ok, s', m').
           owns m0 s' m' \<and> (sock_fd s' = sock_fd s \<or> \<not> ok \<and> sock_fd s' = -1) \<and>
           (ok \<longrightarrow> sock_fd s' \<noteq> -1 \<and>
              (\<exists>n. last (trace m') = (Sock (C_connect (sock_fd s) addr), Ret n))) \<and>
           (\<not> ok \<and> sock_fd s' \<noteq> -1 \<longrightarrow> errno m' = EINPROGRESS)"
  have q: "wp (sys_status (C_connect (sock_fd s) addr) m) (\<lambda>(n, m'). quiet m m' \<and>
      (n = 0 \<longrightarrow> (\<exists>k. last (trace m') = (Sock (C_connect (sock_fd s) addr), Ret k))))"
    by (auto simp: sys_defs quiet_def elim: status_of.elims)
  show ?case
  proof (cases "sys_status (C_connect (sock_fd s) addr) m")
    case (Ok x)
    then obtain n m1 where run: "sys_status (C_connect (sock_fd s) addr) m = Ok (n, m1)" by (cases x) auto
    from wp_Ok [OF q run] have m1: "quiet m m1"
      "n = 0 \<Longrightarrow> \<exists>k. last (trace m1) = (Sock (C_connect (sock_fd s) addr), Ret k)" by auto
    have own: "owns m0 s m1" by (rule owns_quiet [OF hyps(2) m1(1)])
    have "wp (connect_loop addr s m1) ?Q"
      if "n \<noteq> 0" "errno m1 \<noteq> EINPROGRESS" "errno m1 = EINTR"
      using that hyps(1) [OF run refl _ _ _ own hyps(3)] by simp
    with own owns_close [OF own hyps(3)] m1(2) hyps(3) show ?thesis
      by (auto simp: connect_loop.simps [of addr s m] run)
  qed (simp_all add: connect_loop.simps [of addr s m] sys_defs andThen_Fault_iff)
qed

lemma wp_sock_connect:
  "wp (sock_connect addr addrlen s m) (\<lambda>(ok, s', m').
     owns m s' m' \<and> (ok \<longrightarrow> sock_fd s' \<noteq> -1) \<and>
     (\<not> ok \<and> sock_fd s' \<noteq> -1 \<longrightarrow> errno m' = EINPROGRESS))"
  unfolding sock_connect_def Let_def
proof (rule wp_step [OF wp_sys_socket [of _ _ s]], clarify)
  fix fd m1
  assume own: "owns m (s\<lparr>sock_fd := fd\<rparr>) m1"
  show "wp (if fd \<noteq> -1 then connect_loop (take addrlen addr) (s\<lparr>sock_fd := fd\<rparr>) m1
            else Ok (False, s\<lparr>sock_fd := fd\<rparr>, m1))
     (\<lambda>(ok, s', m'). owns m s' m' \<and> (ok \<longrightarrow> sock_fd s' \<noteq> -1) \<and>
        (\<not> ok \<and> sock_fd s' \<noteq> -1 \<longrightarrow> errno m' = EINPROGRESS))"
  proof (cases "fd = -1")
    case False
    from wp_connect_loop [OF own, of "take addrlen addr"] False
    have "wp (connect_loop (take addrlen addr) (s\<lparr>sock_fd := fd\<rparr>) m1)
       (\<lambda>(ok, s', m'). owns m s' m' \<and> (ok \<longrightarrow> sock_fd s' \<noteq> -1) \<and>
          (\<not> ok \<and> sock_fd s' \<noteq> -1 \<longrightarrow> errno m' = EINPROGRESS))"
      by (auto elim!: wp_mono)
    with False show ?thesis by simp
  qed (use own in simp)
qed

lemma wp_connect_timed:
  "wp (connect_timed addr addrlen t s m) (\<lambda>(ok, s', m').
     owns m s' m' \<and> (ok \<longleftrightarrow> sock_fd s' \<noteq> -1) \<and>
     (ok \<longrightarrow> last (trace m') = (Sock (C_getsockopt (sock_fd s') SO_ERROR), Ret 0)))"
proof -
  have ge: "wp (get_socket_error s m) (\<lambda>(e, m'). quiet m m' \<and>
      (e = Some 0 \<longrightarrow> last (trace m') = (Sock (C_getsockopt (sock_fd s) SO_ERROR), Ret 0)))" for s m
    by (auto simp: get_socket_error_def sys_defs quiet_def elim: value_of.elims)
  note close = owns_close [OF owns_quiet]
  show ?thesis
    unfolding connect_timed_def
  proof (rule wp_step [OF wp_sock_connect], clarify)
    fix ok s1 m1
    assume 1: "owns m s1 m1" "ok \<longrightarrow> sock_fd s1 \<noteq> -1"
    let ?Q = "\<lambda>(ok, s', m'). owns m s' m' \<and> (ok \<longleftrightarrow> sock_fd s' \<noteq> -1) \<and>
     (ok \<longrightarrow> last (trace m') = (Sock (C_getsockopt (sock_fd s') SO_ERROR), Ret 0))"
    show "wp (if ok then
         andThen (get_socket_error s1 m1) (\<lambda>(error, m).
           if error = Some 0 then Ok (True, s1, m)
           else Ok (False, s1\<lparr>sock_fd := -1\<rparr>, sys_close (sock_fd s1) m))
       else if sock_fd s1 \<noteq> -1 then
         andThen (wait_writable t s1 m1) (\<lambda>(ready, m).
         andThen (if ready then get_socket_error s1 m else Ok (None, m)) (\<lambda>(error, m).
           if ready \<and> error = Some 0 then Ok (True, s1, m)
           else Ok (False, s1\<lparr>sock_fd := -1\<rparr>, sys_close (sock_fd s1) m)))
       else Ok (False, s1, m1)) ?Q"
    proof (cases ok)
      case True
      have "wp (get_socket_error s1 m1) (\<lambda>(e, m2). wp (if e = Some 0 then Ok (True, s1, m2)
          else Ok (False, s1\<lparr>sock_fd := -1\<rparr>, sys_close (sock_fd s1) m2)) ?Q)"
        by (rule wp_mono [OF ge]) (use 1 True in \<open>auto intro: owns_quiet close\<close>)
      with True show ?thesis by (simp add: case_prod_unfold)
    next
      case False
      have fin: "wp (andThen (if ready then get_socket_error s1 m2 else Ok (None, m2)) (\<lambda>(error, m).
           if ready \<and> error = Some 0 then Ok (True, s1, m)
           else Ok (False, s1\<lparr>sock_fd := -1\<rparr>, sys_close (sock_fd s1) m))) ?Q"
        if q: "quiet m1 m2" and n: "sock_fd s1 \<noteq> -1" for ready m2
      proof (cases ready)
        case True
        have "wp (get_socket_error s1 m2) (\<lambda>(e, m3). wp (if e = Some 0 then Ok (True, s1, m3)
            else Ok (False, s1\<lparr>sock_fd := -1\<rparr>, sys_close (sock_fd s1) m3)) ?Q)"
          by (rule wp_mono [OF ge]) (use 1 q n in \<open>auto intro: owns_quiet close quiet_trans\<close>)
        with True show ?thesis by (simp add: case_prod_unfold)
      next
        case False
        with 1 q n show ?thesis by (auto intro: close)
      qed
      show ?thesis
      proof (cases "sock_fd s1 = -1")
        case True
        with False 1 show ?thesis by simp
      next
        case n: False
        have "wp (wait_for POLLOUT t s1 m1) (\<lambda>(ready, m). wp (andThen
           (if ready then get_socket_error s1 m else Ok (None, m)) (\<lambda>(error, m).
             if ready \<and> error = Some 0 then Ok (True, s1, m)
             else Ok (False, s1\<lparr>sock_fd := -1\<rparr>, sys_close (sock_fd s1) m))) ?Q)"
          by (rule wp_mono [OF wp_quiet(2)], clarify) (rule fin [OF _ n])
        with False n show ?thesis by (simp add: wait_writable_def case_prod_unfold)
      qed
    qed
  qed
qed

text \<open>
  C34: a timed connect is never undefined behaviour, and the descriptors it opens and closes are
  balanced: it leaves open just the one it opened and then holds, if it returns true. It returns true
  exactly when the socket holds an open descriptor, and only after the kernel has reported
  that descriptor's pending error to be 0, whether the connection was completed at once or
  after waiting; on every failure the descriptor it opened is closed again and the socket
  holds -1. A descriptor that the socket held before is not closed: it stays open, and is lost.
  No memory of the program changes.
\<close>

theorem connect_timed_correct:
  "wp (connect_timed addr addrlen t s m) (\<lambda>(ok, s', m').
     same_mem m m' \<and>
     (\<forall>f. fd_balance f m' = fd_balance f m + of_bool (f = sock_fd s' \<and> f \<noteq> -1)) \<and>
     (ok \<longleftrightarrow> sock_fd s' \<noteq> -1) \<and>
     (ok \<longrightarrow> last (trace m') = (Sock (C_getsockopt (sock_fd s') SO_ERROR), Ret 0)) \<and>
     (0 < fd_balance (sock_fd s) m \<longrightarrow> 0 < fd_balance (sock_fd s) m'))"
  by (rule wp_mono [OF wp_connect_timed]) (simp add: case_prod_unfold owns_def)

text \<open>A connection that is completed after waiting.\<close>

theorem connect_timed_witness:
  "wp (connect_timed ([2, 0] @ zeros 14) 16 30000 new_socket
        (sample\<lparr>replies := [Ret 5, Err EINPROGRESS, Ret 1, Ret 0]\<rparr>))
     (\<lambda>(ok, s', m'). (ok \<longleftrightarrow> sock_fd s' \<noteq> -1) \<and>
        (ok \<longrightarrow> last (trace m') = (Sock (C_getsockopt (sock_fd s') SO_ERROR), Ret 0)))"
  by (rule wp_mono [OF connect_timed_correct]) auto

lemma owns_status:
  assumes "owns m0 s m"
    and "c = C_setsockopt fd opt v \<or> c = C_bind fd addr \<or> c = C_listen fd"
  shows "wp (if b then sys_status c m else Ok (-1, m)) (\<lambda>(n, m'). owns m0 s m')"
  using assms(2) owns_quiet [OF assms(1)] assms(1)
  by (auto intro!: wp_mono [OF wp_quiet(4)] wp_mono [OF wp_quiet(5)] wp_mono [OF wp_quiet(6)])

text \<open>
  \<open>listen\<close> leaks no descriptor: it returns true exactly when the socket holds an open one,
  and then \<open>setsockopt\<close>, \<open>bind\<close> and \<open>listen\<close> have all succeeded; if any of them fails, the
  descriptor is closed again.
\<close>

theorem listen_correct:
  "wp (sock_listen addr addrlen s m) (\<lambda>(ok, s', m').
     same_mem m m' \<and>
     (\<forall>f. fd_balance f m' = fd_balance f m + of_bool (f = sock_fd s' \<and> f \<noteq> -1)) \<and>
     (ok \<longleftrightarrow> sock_fd s' \<noteq> -1))"
proof -
  let ?Q = "\<lambda>(ok, s', m'). owns m s' m' \<and> (ok \<longleftrightarrow> sock_fd s' \<noteq> -1)"
  have "wp (sock_listen addr addrlen s m) ?Q"
    unfolding sock_listen_def Let_def
  proof (rule wp_step [OF wp_sys_socket [of _ _ s]], clarify)
    fix fd m1 assume own: "owns m (s\<lparr>sock_fd := fd\<rparr>) m1"
    let ?s = "s\<lparr>sock_fd := fd\<rparr>"
    note step = wp_step [OF owns_status]
    have fin: "wp (if d = 0 then Ok (True, ?s, m2) else Ok (False, ?s\<lparr>sock_fd := -1\<rparr>, sys_close fd m2)) ?Q"
      if "owns m ?s m2" "fd \<noteq> -1" for d :: int and m2
      using that owns_close [OF that(1)] by simp
    show "wp (if fd \<noteq> -1 then
         andThen (sys_status (C_setsockopt fd SO_REUSEADDR 1) m1) (\<lambda>(a, m).
         andThen (if a = 0 then sys_status (C_setsockopt fd SO_REUSEPORT 1) m else Ok (-1, m)) (\<lambda>(b, m).
         andThen (if b = 0 then sys_status (C_bind fd (take addrlen addr)) m else Ok (-1, m)) (\<lambda>(c, m).
         andThen (if c = 0 then sys_status (C_listen fd) m else Ok (-1, m)) (\<lambda>(d, m).
           if d = 0 then Ok (True, ?s, m)
           else Ok (False, ?s\<lparr>sock_fd := -1\<rparr>, sys_close fd m)))))
       else Ok (False, ?s, m1)) ?Q"
    proof (cases "fd = -1")
      case True
      with own show ?thesis by simp
    next
      case False
      show ?thesis
        unfolding if_P [OF False]
        apply (rule wp_step [OF owns_status [OF own, where b = True, unfolded if_True]], blast, clarify)
        apply (rule wp_step [OF owns_status], assumption, blast, clarify)
        apply (rule wp_step [OF owns_status], assumption, blast, clarify)
        apply (rule wp_step [OF owns_status], assumption, blast, clarify)
        apply (rule fin [OF _ False])
        apply assumption
        done
    qed
  qed
  then show ?thesis by (rule wp_mono) (simp add: case_prod_unfold owns_def)
qed

section \<open>What is sent\<close>

text \<open>The bytes the kernel has taken from the program for a descriptor, in order.\<close>

fun sent_by :: "int \<Rightarrow> call \<times> reply \<Rightarrow> byte list" where
  "sent_by fd (Sock (C_send g bs), r) = (if g = fd then take (nat (count_of (length bs) r)) bs else [])"
| "sent_by fd _ = []"

definition sent :: "int \<Rightarrow> machine \<Rightarrow> byte list" where
  "sent fd m = concat (map (sent_by fd) (trace m))"

lemma sent_upd [simp]:
  "sent fd (m\<lparr>replies := a, errno := b, trace := trace m @ [e]\<rparr>) = sent fd m @ sent_by fd e"
  "sent fd (m\<lparr>replies := a, trace := trace m @ [e]\<rparr>) = sent fd m @ sent_by fd e"
  "sent fd (m\<lparr>errno := b\<rparr>) = sent fd m"
  by (simp_all add: sent_def)

lemma wp_wait_sent: "wp (wait_for ev t s m) (\<lambda>(b, m'). sent fd m' = sent fd m \<and> quiet m m')"
  by (auto simp: wait_for_def sys_defs quiet_def)

lemma wp_sock_send:
  "wp (sock_send bs s m) (\<lambda>(n, m').
     -1 \<le> n \<and> n \<le> int (length bs) \<and> sent (sock_fd s) m' = sent (sock_fd s) m @ take (nat n) bs \<and>
     quiet m m')"
proof (induction bs s m rule: sock_send.induct)
  case (1 bs s m)
  note IH = 1
  show ?case
  proof (cases "sys_send (sock_fd s) bs m")
    case (Ok x)
    then obtain n m1 where run: "sys_send (sock_fd s) bs m = Ok (n, m1)" by (cases x) auto
    have m1: "-1 \<le> n" "n \<le> int (length bs)" "quiet m m1"
      "sent (sock_fd s) m1 = sent (sock_fd s) m @ take (nat n) bs"
      using run count_of_bounds [of "length bs"]
      by (auto simp: sys_defs andThen_Ok_iff syscall_Ok_iff quiet_def)
    show ?thesis
    proof (cases "0 \<le> n \<or> errno m1 \<noteq> EINTR")
      case True
      with m1 show ?thesis by (auto simp: sock_send.simps [of bs s m] run)
    next
      case False
      with m1(1) have "n = -1" by simp
      with False run have "sock_send bs s m = sock_send bs s m1" by (simp add: sock_send.simps [of bs s m])
      moreover have "sent (sock_fd s) m1 = sent (sock_fd s) m" using m1(4) \<open>n = -1\<close> by simp
      ultimately show ?thesis
        using IH [OF run refl] False m1(3) by (auto elim!: wp_mono intro: quiet_trans)
    qed
  qed (simp_all add: sock_send.simps [of bs s m] sys_defs andThen_Fault_iff)
qed

lemma wp_send_timed:
  "wp (send_timed b t s m) (\<lambda>(ok, m'). \<exists>k.
     sent (sock_fd s) m' = sent (sock_fd s) m @ take k b \<and> k \<le> length b \<and>
     (ok \<longleftrightarrow> k = length b) \<and> quiet m m')"
proof (induction b t s m rule: send_timed.induct)
  case (1 b t s m)
  note IH = 1
  let ?Q = "\<lambda>m b (ok, m'). \<exists>k.
     sent (sock_fd s) m' = sent (sock_fd s) m @ take k b \<and> k \<le> length b \<and>
     (ok \<longleftrightarrow> k = length b) \<and> quiet m m'"
  show ?case
  proof (cases "b = []")
    case True
    then show ?thesis by (simp add: send_timed.simps)
  next
    case ne: False
    show ?thesis
    proof (cases "sock_send b s m")
      case (Ok x)
      then obtain n m1 where run: "sock_send b s m = Ok (n, m1)" by (cases x) auto
      from wp_Ok [OF wp_sock_send run] have m1: "-1 \<le> n" "n \<le> int (length b)"
        "sent (sock_fd s) m1 = sent (sock_fd s) m @ take (nat n) b" "quiet m m1" by auto
      have stuck: "\<exists>k. sent (sock_fd s) m2 = sent (sock_fd s) m @ take k b \<and> k \<le> length b \<and>
          k \<noteq> length b \<and> quiet m m2"
        if "n < 0" "sent (sock_fd s) m2 = sent (sock_fd s) m1" "quiet m1 m2" for m2
        using that m1(3,4) ne by (intro exI [of _ 0]) (auto intro: quiet_trans)
      consider (progress) "0 \<le> n" | (block) "n < 0" "errno m1 = EAGAIN"
        | (error) "n < 0" "errno m1 \<noteq> EAGAIN" by linarith
      then show ?thesis
      proof cases
        case progress
        have "?Q m b y" if "?Q m1 (drop (nat n) b) y" for y
        proof -
          obtain ok m2 where y: "y = (ok, m2)" by (cases y)
          from that obtain k where k: "sent (sock_fd s) m2 = sent (sock_fd s) m1 @ take k (drop (nat n) b)"
            "k \<le> length b - nat n" "ok \<longleftrightarrow> k = length b - nat n" "quiet m1 m2"
            unfolding y by auto
          have "nat n \<le> length b" using m1(2) by simp
          with k m1(3,4) have "sent (sock_fd s) m2 = sent (sock_fd s) m @ take (nat n + k) b \<and>
              nat n + k \<le> length b \<and> (ok \<longleftrightarrow> nat n + k = length b) \<and> quiet m m2"
            by (auto simp: take_add intro: quiet_trans)
          then show ?thesis unfolding y by blast
        qed
        with IH(1) [OF _ run refl progress] ne progress show ?thesis
          by (auto simp: send_timed.simps [of b] run elim!: wp_mono)
      next
        case error
        with ne have "send_timed b t s m = Ok (False, m1)" by (simp add: send_timed.simps [of b] run)
        with stuck [OF error(1) refl quiet_refl] show ?thesis by simp
      next
        case block
        show ?thesis
        proof (cases "wait_writable t s m1")
          case (Ok y)
          then obtain ready m2 where w: "wait_for POLLOUT t s m1 = Ok (ready, m2)"
            by (cases y) (auto simp: wait_writable_def)
          from wp_Ok [OF wp_wait_sent [of _ _ _ _ "sock_fd s"] w] have m2:
            "sent (sock_fd s) m2 = sent (sock_fd s) m1" "quiet m1 m2" by auto
          show ?thesis
          proof (cases ready)
            case False
            with w block ne stuck [OF block(1) m2] show ?thesis
              by (simp add: send_timed.simps [of b] run wait_writable_def)
          next
            case True
            have eq: "send_timed b t s m = send_timed b t s m2"
              using w True block ne by (simp add: send_timed.simps [of b t s m] run wait_writable_def)
            have "quiet m m2" by (rule quiet_trans [OF m1(4) m2(2)])
            then have "?Q m b z" if "?Q m2 b z" for z
              using that m1(3) m2(1) block(1) by (auto intro: quiet_trans)
            moreover have "wp (send_timed b t s m2) (?Q m2 b)"
              by (rule IH(2) [OF _ run refl _ block(2) _ refl])
                 (use w True block ne in \<open>auto simp: wait_writable_def\<close>)
            ultimately show ?thesis unfolding eq by (auto elim!: wp_mono)
          qed
        next
          case Fault
          with wp_wait_sent [of POLLOUT t s m1 0] show ?thesis by (simp add: wait_writable_def)
        next
          case Blocked
          with block ne show ?thesis by (simp add: send_timed.simps [of b t s m] run)
        qed
      qed
    next
      case Fault
      with wp_sock_send [of b s m] show ?thesis by simp
    next
      case Blocked
      with ne show ?thesis by (simp add: send_timed.simps [of b t s m])
    qed
  qed
qed

text \<open>
  C35: \<open>send(buf, len, timeout)\<close> hands the kernel the bytes of the buffer in order, each exactly
  once: across short sends, interruptions and waits, what it adds to the bytes sent is a
  prefix of the buffer, and it returns true exactly when that prefix is all of it. It opens
  and closes nothing and changes no memory of the program.
\<close>

theorem send_timed_exact:
  "wp (send_timed b t s m) (\<lambda>(ok, m'). \<exists>k.
     sent (sock_fd s) m' = sent (sock_fd s) m @ take k b \<and> k \<le> length b \<and>
     (ok \<longleftrightarrow> k = length b) \<and> same_mem m m' \<and> (\<forall>f. fd_balance f m' = fd_balance f m))"
  by (rule wp_mono [OF wp_send_timed]) (auto simp: quiet_def)

text \<open>
  an interrupted wait is an error, unlike every other interrupted call of the class: when
  the send buffer is full and a signal arrives while \<open>poll\<close> waits, the timed send gives up
  with part of the data sent, and \<open>wait_readable\<close> and \<open>wait_writable\<close> return false.
\<close>

theorem interrupted_wait_fails:
  assumes "replies m = Ret n # Err EAGAIN # Err EINTR # rs" and "0 < n" and "n < int (length b)"
  shows "\<exists>m'. send_timed b t s m = Ok (False, m') \<and> errno m' = EINTR \<and> replies m' = rs \<and>
           sent (sock_fd s) m' = sent (sock_fd s) m @ take (nat n) b"
proof -
  obtain k where k: "n = int k" "0 < k" "k < length b" using assms(2,3) by (metis pos_int_cases zero_less_imp_eq_int of_nat_less_iff of_nat_0_less_iff)
  let ?m1 = "m\<lparr>replies := Err EAGAIN # Err EINTR # rs, trace := trace m @ [(Sock (C_send (sock_fd s) b), Ret n)]\<rparr>"
  have s1: "sock_send b s m = Ok (int k, ?m1)"
    using assms(1) k by (simp add: sock_send.simps [of b] sys_defs min_def)
  have s2: "\<exists>m2. sock_send (drop k b) s ?m1 = Ok (-1, m2) \<and> errno m2 = EAGAIN \<and> replies m2 = Err EINTR # rs \<and>
      sent (sock_fd s) m2 = sent (sock_fd s) ?m1"
    by (simp add: sock_send.simps [of "drop k b"] sys_defs sent_def)
  then obtain m2 where m2: "sock_send (drop k b) s ?m1 = Ok (-1, m2)" "errno m2 = EAGAIN"
    "replies m2 = Err EINTR # rs" "sent (sock_fd s) m2 = sent (sock_fd s) ?m1" by blast
  have "\<exists>m3. wait_writable t s m2 = Ok (False, m3) \<and> errno m3 = EINTR \<and> replies m3 = rs \<and>
      sent (sock_fd s) m3 = sent (sock_fd s) m2"
    using m2(3) by (simp add: wait_writable_def wait_for_def sys_defs sent_def)
  moreover have "sent (sock_fd s) ?m1 = sent (sock_fd s) m @ take k b"
    using k by (simp add: min_def)
  ultimately show ?thesis
    using s1 m2 k by (auto simp: send_timed.simps [of b] send_timed.simps [of "drop k b"])
qed

theorem interrupted_wait_witness:
  "\<exists>m'. send_timed [1, 2, 3] 30000 \<lparr>sock_fd = 5\<rparr>
     (sample\<lparr>replies := [Ret 2, Err EAGAIN, Err EINTR]\<rparr>) = Ok (False, m') \<and> sent 5 m' = [1, 2]"
  using interrupted_wait_fails [of "sample\<lparr>replies := [Ret 2, Err EAGAIN, Err EINTR]\<rparr>" 2 "[]"
      "[1, 2, 3]" 30000 "\<lparr>sock_fd = 5\<rparr>"]
  by (auto simp: sent_def sample_def)

section \<open>Receiving and accepting\<close>

lemma sock_recv_retry:
  "replies m = Err EINTR # rs \<Longrightarrow>
     sock_recv len s m = sock_recv len s (m\<lparr>replies := rs, errno := EINTR,
       trace := trace m @ [(Sock (C_recv (sock_fd s) len), Err EINTR)]\<rparr>)"
  by (simp add: sock_recv.simps [of len s m] sys_defs)

text \<open>
  \<open>recv\<close> retries an interrupted call, however often, and otherwise returns what the kernel
  answers: the data, at most \<open>len\<close> bytes of it, none of it when the peer has closed the
  connection, or -1 with its \<open>errno\<close>, which is never \<open>EINTR\<close>.
\<close>

theorem recv_correct:
  assumes "replies m = replicate k (Err EINTR) @ r # rs" and "r \<noteq> Err EINTR"
  shows "(\<forall>bs. r = Bytes bs \<longrightarrow>
            (\<exists>m'. sock_recv len s m = Ok (Some (take len bs), m') \<and> replies m' = rs)) \<and>
         (\<forall>e. r = Err e \<longrightarrow>
            (\<exists>m'. sock_recv len s m = Ok (None, m') \<and> errno m' = e \<and> e \<noteq> EINTR \<and> replies m' = rs))"
  using assms
proof (induction k arbitrary: m)
  case 0
  then show ?case by (auto simp: sock_recv.simps [of len s m] sys_defs)
next
  case (Suc k)
  let ?m = "m\<lparr>replies := replicate k (Err EINTR) @ r # rs, errno := EINTR,
       trace := trace m @ [(Sock (C_recv (sock_fd s) len), Err EINTR)]\<rparr>"
  have "sock_recv len s m = sock_recv len s ?m"
    by (rule sock_recv_retry) (use Suc.prems(1) in simp)
  with Suc.IH [of ?m] Suc.prems(2) show ?case by simp
qed

theorem recv_witness:
  "(\<exists>m'. sock_recv 2 \<lparr>sock_fd = 5\<rparr> (sample\<lparr>replies := [Err EINTR, Err EINTR, Bytes [1, 2, 3]]\<rparr>) =
      Ok (Some [1, 2], m'))"
  using recv_correct [of "sample\<lparr>replies := [Err EINTR, Err EINTR, Bytes [1, 2, 3]]\<rparr>" 2
      "Bytes [1, 2, 3]" "[]" 2 "\<lparr>sock_fd = 5\<rparr>"]
  by (auto simp: numeral_2_eq_2)

text \<open>
  \<open>accept\<close> with an address: the socket for the connection gets the new descriptor and the
  address the peer's length. Its bytes are the peer's only if the address had room for them:
  the room is the length of the address it held before, so an object that held an IPv4
  address (16 bytes) and accepts an IPv6 peer (28 bytes) keeps its own bytes from 16 on.
\<close>

theorem accept_address_room:
  assumes "replies m = Accepted fd peer # rs" and "0 \<le> fd" and "length peer \<le> 128"
    and "length (addr_storage a) = 128" and "addr_len a \<le> 128"
  shows "\<exists>a' m'. accept_address client a s m = Ok (True, client\<lparr>sock_fd := fd\<rparr>, a', m') \<and>
           addr_len a' = length peer \<and>
           (length peer \<le> addr_len a \<longrightarrow> take (addr_len a') (addr_storage a') = peer) \<and>
           (addr_len a < length peer \<longrightarrow>
              addr_storage a' = take (addr_len a) peer @ drop (addr_len a) (addr_storage a))"
  using assms
  by (auto simp: accept_address_def sock_accept.simps [of client] sys_defs max_def store_peer_def
      address_size_def put_at_0)

theorem accept_address_room_witness:
  "\<exists>a' m'. accept_address new_socket \<lparr>addr_storage = zeros 128, addr_len = 16\<rparr> \<lparr>sock_fd = 3\<rparr>
       (sample\<lparr>replies := [Accepted 6 ([10, 0] @ replicate 26 1)]\<rparr>) =
       Ok (True, \<lparr>sock_fd = 6\<rparr>, a', m') \<and>
     addr_len a' = 28 \<and> addr_storage a' = [10, 0] @ replicate 14 1 @ zeros 112"
proof -
  let ?peer = "[10, 0] @ replicate 26 1 :: byte list"
  have t: "take 16 ?peer = [10, 0] @ replicate 14 1" "drop 16 (zeros 128) = zeros 112"
    by (simp_all add: zeros_def)
  from accept_address_room [of "sample\<lparr>replies := [Accepted 6 ?peer]\<rparr>" 6 ?peer "[]"
      "\<lparr>addr_storage = zeros 128, addr_len = 16\<rparr>" new_socket "\<lparr>sock_fd = 3\<rparr>"] t
  show ?thesis by (simp add: new_socket_def)
qed

text \<open>
  a descriptor has one owner. Taking a socket's descriptor leaves the old object with none;
  destroying both objects, in either order, and closing either of them first, closes the
  descriptor exactly once.
\<close>

theorem socket_ownership:
  assumes "socket_take s = (a, b)"
  shows "sock_fd a = sock_fd s \<and> sock_fd b = -1 \<and>
         fd_balance f (socket_destroy a (socket_destroy b m)) = fd_balance f m - of_bool (f = sock_fd s \<and> f \<noteq> -1) \<and>
         fd_balance f (socket_destroy b (socket_destroy a m)) = fd_balance f m - of_bool (f = sock_fd s \<and> f \<noteq> -1) \<and>
         (case sock_close a m of (a', m') \<Rightarrow>
            sock_fd a' = -1 \<and> fd_balance f (socket_destroy a' m') = fd_balance f m - of_bool (f = sock_fd s \<and> f \<noteq> -1))"
  using assms by (auto simp: socket_take_def socket_destroy_def sock_close_def)

theorem socket_ownership_witness:
  "fd_balance 5 (socket_destroy (fst (socket_take \<lparr>sock_fd = 5\<rparr>))
     (socket_destroy (snd (socket_take \<lparr>sock_fd = 5\<rparr>)) sample)) = fd_balance 5 sample - 1"
  using socket_ownership [of "\<lparr>sock_fd = 5\<rparr>" "fst (socket_take \<lparr>sock_fd = 5\<rparr>)"
      "snd (socket_take \<lparr>sock_fd = 5\<rparr>)" 5 sample] by simp

end
