(* ===== verification/Ssl_Socket.thy ===== *)
theory Ssl_Socket
  imports Socket
begin

text \<open>
  \<open>net::ssl::socket\<close> and \<open>net::ssl::library\<close> (net/ssl): a TLS connection over a \<open>net::socket\<close>.
  OpenSSL answers each operation with a return value, the reason \<open>SSL_get_error\<close> gives for a
  failed one, and \<open>errno\<close>; the class retries an operation as the reason tells it to. The static
  \<open>_M_ctx\<close> is an argument (\<open>ctx\<close>) of the operations that read it.
\<close>

section \<open>OpenSSL\<close>

text \<open>What an operation returned, and why it failed.\<close>

fun ssl_ret :: "reply \<Rightarrow> int" where
  "ssl_ret (Ret n) = (if 0 < n then n else -1)"
| "ssl_ret (Bytes bs) = (if bs = [] then -1 else int (length bs))"
| "ssl_ret (SslErr n e _) = (if n = 0 then 0 else -1)"
| "ssl_ret _ = -1"

fun ssl_err :: "reply \<Rightarrow> ssl_error" where
  "ssl_err (SslErr n e _) = e"
| "ssl_err _ = SSL_ERROR_OTHER"

text \<open>An operation on a connection object; there must be one.\<close>

definition ssl_op :: "ptr \<Rightarrow> ssl_call \<Rightarrow> machine \<Rightarrow> (reply \<times> machine) res" where
  "ssl_op ssl c m = (if ssl = nullptr then Fault else syscall (Ssl c) m)"

text \<open>\<open>errno = 0; ERR_clear_error ();\<close>\<close>

definition clear_errors :: "machine \<Rightarrow> machine" where
  "clear_errors m = note_call (Ssl C_ERR_clear_error) (m\<lparr>errno := E_OK\<rparr>)"

text \<open>A length that is passed as an \<open>int\<close>.\<close>

definition int_of_len :: "nat \<Rightarrow> int" where
  "int_of_len n = sint (word_of_nat n :: 32 word)"

lemma ssl_op_shorter: "ssl_op p c m = Ok (r, m') \<Longrightarrow> length (replies m') < length (replies m)"
  by (auto simp: ssl_op_def syscall_Ok_iff split: if_splits)

lemma clear_errors_replies [simp]: "replies (clear_errors m) = replies m"
  by (simp add: clear_errors_def)

section \<open>The object\<close>

record ssl_sock =
  ssl_tcp :: sock
  ssl_ssl :: ptr

definition new_ssl_socket :: ssl_sock where
  "new_ssl_socket = \<lparr>ssl_tcp = new_socket, ssl_ssl = nullptr\<rparr>"

text \<open>The constructor that takes over a socket: the new object and the old socket.\<close>

definition ssl_socket_take :: "sock \<Rightarrow> ssl_sock \<times> sock" where
  "ssl_socket_take sock =
     (let (s, sock) = socket_take sock in (\<lparr>ssl_tcp = s, ssl_ssl = nullptr\<rparr>, sock))"

definition ssl_fd :: "ssl_sock \<Rightarrow> int" where
  "ssl_fd s = sock_fd (ssl_tcp s)"

definition ssl_free :: "ptr \<Rightarrow> machine \<Rightarrow> machine" where
  "ssl_free p m = note_call (Ssl (C_SSL_free p)) m"

definition ssl_close :: "ssl_sock \<Rightarrow> machine \<Rightarrow> ssl_sock \<times> machine" where
  "ssl_close s m =
     (let (tcp, m) = sock_close (ssl_tcp s) m; s = s\<lparr>ssl_tcp := tcp\<rparr> in
      if ssl_ssl s \<noteq> nullptr then (s\<lparr>ssl_ssl := nullptr\<rparr>, ssl_free (ssl_ssl s) m) else (s, m))"

definition ssl_destroy :: "ssl_sock \<Rightarrow> machine \<Rightarrow> machine" where
  "ssl_destroy s m = snd (ssl_close s m)"

text \<open>
  The part the loops share: whether a failed operation is tried again. A connection that waits
  for the peer is tried again when the socket becomes ready, an interrupted call always.
\<close>

definition ssl_retry :: "ssl_error \<Rightarrow> int \<Rightarrow> ssl_sock \<Rightarrow> machine \<Rightarrow> (bool \<times> machine) res" where
  "ssl_retry e timeout s m =
     (case e of
        SSL_ERROR_WANT_READ \<Rightarrow> wait_readable timeout (ssl_tcp s) m
      | SSL_ERROR_WANT_WRITE \<Rightarrow> wait_writable timeout (ssl_tcp s) m
      | SSL_ERROR_SYSCALL \<Rightarrow> Ok (errno m = EINTR, m)
      | _ \<Rightarrow> Ok (False, m))"

lemma ssl_retry_le: "ssl_retry e t s m = Ok (b, m') \<Longrightarrow> length (replies m') \<le> length (replies m)"
  by (auto simp: ssl_retry_def wait_readable_def wait_writable_def split: ssl_error.splits
      dest!: wait_for_shorter)

section \<open>Handshake\<close>

function handshake_loop :: "int \<Rightarrow> ssl_sock \<Rightarrow> machine \<Rightarrow> (bool \<times> machine) res" where
  "handshake_loop timeout s m =
     andThen (ssl_op (ssl_ssl s) (C_SSL_do_handshake (ssl_ssl s)) (clear_errors m)) (\<lambda>(r, m).
       if ssl_ret r = 1 then Ok (True, m)
       else if ssl_ret r = 0 then Ok (False, m)
       else if ssl_err r = SSL_ERROR_ZERO_RETURN then Ok (False, m)
       else
         andThen (ssl_retry (ssl_err r) timeout s m) (\<lambda>(again, m).
           if again then handshake_loop timeout s m else Ok (False, m)))"
  by pat_completeness auto
termination
  by (relation "measure (\<lambda>(t, s, m). length (replies m))")
     (auto dest!: ssl_op_shorter ssl_retry_le)

declare handshake_loop.simps [simp del]

datatype mode = Client | Server

definition ssl_handshake ::
    "ptr \<Rightarrow> mode \<Rightarrow> int \<Rightarrow> ssl_sock \<Rightarrow> machine \<Rightarrow> (bool \<times> ssl_sock \<times> machine) res" where
  "ssl_handshake ctx md timeout s m =
     andThen (syscall (Ssl (C_SSL_new ctx)) m) (\<lambda>(r, m).
     let p = nat (fd_of r); s = s\<lparr>ssl_ssl := p\<rparr> in
       if p \<noteq> nullptr then
         andThen (syscall (Ssl (C_SSL_set_fd p (ssl_fd s))) m) (\<lambda>(r, m).
         andThen (if status_of r = 0 then
                    handshake_loop timeout s
                      (note_call (Ssl (C_SSL_set_state p (md = Client))) m)
                  else Ok (False, m)) (\<lambda>(ok, m).
           if ok then Ok (True, s, m)
           else Ok (False, s\<lparr>ssl_ssl := nullptr\<rparr>, ssl_free p m)))
       else Ok (False, s, m))"

definition ssl_connect :: "ptr \<Rightarrow> int \<Rightarrow> ssl_sock \<Rightarrow> machine \<Rightarrow> (bool \<times> ssl_sock \<times> machine) res" where
  "ssl_connect ctx timeout s m =
     andThen (ssl_handshake ctx Client timeout s m) (\<lambda>(ok, s, m).
       if ok then Ok (True, s, m)
       else let (tcp, m) = sock_close (ssl_tcp s) m in Ok (False, s\<lparr>ssl_tcp := tcp\<rparr>, m))"

text \<open>The four public connects: the connection of the socket, then the handshake.\<close>

definition then_ssl_connect ::
    "ptr \<Rightarrow> int \<Rightarrow> (sock \<Rightarrow> machine \<Rightarrow> (bool \<times> sock \<times> machine) res) \<Rightarrow> ssl_sock \<Rightarrow> machine \<Rightarrow>
     (bool \<times> ssl_sock \<times> machine) res" where
  "then_ssl_connect ctx timeout tcp_connect s m =
     andThen (tcp_connect (ssl_tcp s) m) (\<lambda>(ok, tcp, m). let s = s\<lparr>ssl_tcp := tcp\<rparr> in
       if ok then ssl_connect ctx timeout s m else Ok (False, s, m))"

definition ssl_connect_address ::
    "ptr \<Rightarrow> address \<Rightarrow> int \<Rightarrow> ssl_sock \<Rightarrow> machine \<Rightarrow> (bool \<times> ssl_sock \<times> machine) res" where
  "ssl_connect_address ctx a timeout s m =
     then_ssl_connect ctx timeout (connect_address_timed a timeout) s m"

definition ssl_connect_ipv4 ::
    "ptr \<Rightarrow> sockaddr \<Rightarrow> int \<Rightarrow> ssl_sock \<Rightarrow> machine \<Rightarrow> (bool \<times> ssl_sock \<times> machine) res" where
  "ssl_connect_ipv4 ctx a timeout s m = then_ssl_connect ctx timeout (connect_ipv4_timed a timeout) s m"

definition ssl_connect_ipv6 ::
    "ptr \<Rightarrow> sockaddr \<Rightarrow> int \<Rightarrow> ssl_sock \<Rightarrow> machine \<Rightarrow> (bool \<times> ssl_sock \<times> machine) res" where
  "ssl_connect_ipv6 ctx a timeout s m = then_ssl_connect ctx timeout (connect_ipv6_timed a timeout) s m"

definition ssl_connect_local ::
    "ptr \<Rightarrow> sockaddr \<Rightarrow> int \<Rightarrow> ssl_sock \<Rightarrow> machine \<Rightarrow> (bool \<times> ssl_sock \<times> machine) res" where
  "ssl_connect_local ctx a timeout s m = then_ssl_connect ctx timeout (connect_local_timed a timeout) s m"

section \<open>Receiving\<close>

text \<open>The bytes of a successful \<open>SSL_read\<close>.\<close>

fun ssl_data :: "nat \<Rightarrow> reply \<Rightarrow> byte list option" where
  "ssl_data len (Bytes bs) = (if take len bs = [] then None else Some (take len bs))"
| "ssl_data len _ = None"

text \<open>\<open>recv\<close> without waiting: a result of no bytes says that the peer has closed the connection.\<close>

function ssl_recv :: "nat \<Rightarrow> ssl_sock \<Rightarrow> machine \<Rightarrow> (byte list option \<times> machine) res" where
  "ssl_recv len s m =
     andThen (ssl_op (ssl_ssl s) (C_SSL_read (ssl_ssl s) (int_of_len len)) (clear_errors m)) (\<lambda>(r, m).
       case ssl_data len r of
         Some bs \<Rightarrow> Ok (Some bs, m)
       | None \<Rightarrow>
           (case ssl_err r of
              SSL_ERROR_ZERO_RETURN \<Rightarrow> Ok (Some [], m)
            | SSL_ERROR_WANT_READ \<Rightarrow> Ok (None, m\<lparr>errno := EAGAIN\<rparr>)
            | SSL_ERROR_WANT_WRITE \<Rightarrow> Ok (None, m\<lparr>errno := EAGAIN\<rparr>)
            | SSL_ERROR_SYSCALL \<Rightarrow> if errno m \<noteq> EINTR then Ok (None, m) else ssl_recv len s m
            | _ \<Rightarrow> Ok (None, m)))"
  by pat_completeness auto
termination
  by (relation "measure (\<lambda>(len, s, m). length (replies m))") (auto dest!: ssl_op_shorter)

function ssl_recv_timed :: "nat \<Rightarrow> int \<Rightarrow> ssl_sock \<Rightarrow> machine \<Rightarrow> (byte list option \<times> machine) res" where
  "ssl_recv_timed len timeout s m =
     andThen (ssl_op (ssl_ssl s) (C_SSL_read (ssl_ssl s) (int_of_len len)) (clear_errors m)) (\<lambda>(r, m).
       case ssl_data len r of
         Some bs \<Rightarrow> Ok (Some bs, m)
       | None \<Rightarrow>
           if ssl_err r = SSL_ERROR_ZERO_RETURN then Ok (Some [], m)
           else
             andThen (ssl_retry (ssl_err r) timeout s m) (\<lambda>(again, m).
               if again then ssl_recv_timed len timeout s m else Ok (None, m)))"
  by pat_completeness auto
termination
  by (relation "measure (\<lambda>(len, t, s, m). length (replies m))")
     (auto dest!: ssl_op_shorter ssl_retry_le)

declare ssl_recv.simps [simp del] ssl_recv_timed.simps [simp del]

lemma ssl_recv_timed_shorter:
  "ssl_recv_timed len t s m = Ok (r, m') \<Longrightarrow> length (replies m') < length (replies m)"
proof (induction len t s m arbitrary: r m' rule: ssl_recv_timed.induct)
  case (1 len t s m)
  from 1(2) obtain a m1 where op: "ssl_op (ssl_ssl s) (C_SSL_read (ssl_ssl s) (int_of_len len)) (clear_errors m) = Ok (a, m1)"
    by (auto simp: ssl_recv_timed.simps [of len t s m] andThen_Ok_iff)
  then have lt: "length (replies m1) < length (replies m)" by (auto dest: ssl_op_shorter)
  consider (got) bs where "ssl_data len a = Some bs"
    | (closed) "ssl_data len a = None" "ssl_err a = SSL_ERROR_ZERO_RETURN"
    | (retry) "ssl_data len a = None" "ssl_err a \<noteq> SSL_ERROR_ZERO_RETURN" by (cases "ssl_data len a") auto
  then show ?case
  proof cases
    case retry
    with 1(2) op obtain b m2 where w: "ssl_retry (ssl_err a) t s m1 = Ok (b, m2)"
      and "(if b then ssl_recv_timed len t s m2 else Ok (None, m2)) = Ok (r, m')"
      by (auto simp: ssl_recv_timed.simps [of len t s m] andThen_Ok_iff)
    with 1(1) [OF op refl retry w refl] ssl_retry_le [OF w] lt show ?thesis
      by (cases b) auto
  qed (use 1(2) op lt in \<open>auto simp: ssl_recv_timed.simps [of len t s m]\<close>)
qed

section \<open>Sending\<close>

function ssl_send :: "byte list \<Rightarrow> ssl_sock \<Rightarrow> machine \<Rightarrow> (bool \<times> machine) res" where
  "ssl_send b s m =
     andThen (ssl_op (ssl_ssl s) (C_SSL_write (ssl_ssl s) b (int_of_len (length b))) (clear_errors m))
       (\<lambda>(r, m).
       if 0 < ssl_ret r then Ok (True, m)
       else
         (case ssl_err r of
            SSL_ERROR_WANT_READ \<Rightarrow> Ok (False, m\<lparr>errno := EAGAIN\<rparr>)
          | SSL_ERROR_WANT_WRITE \<Rightarrow> Ok (False, m\<lparr>errno := EAGAIN\<rparr>)
          | SSL_ERROR_SYSCALL \<Rightarrow> if errno m \<noteq> EINTR then Ok (False, m) else ssl_send b s m
          | _ \<Rightarrow> Ok (False, m)))"
  by pat_completeness auto
termination
  by (relation "measure (\<lambda>(b, s, m). length (replies m))") (auto dest!: ssl_op_shorter)

function ssl_send_timed :: "byte list \<Rightarrow> int \<Rightarrow> ssl_sock \<Rightarrow> machine \<Rightarrow> (bool \<times> machine) res" where
  "ssl_send_timed b timeout s m =
     andThen (ssl_op (ssl_ssl s) (C_SSL_write (ssl_ssl s) b (int_of_len (length b))) (clear_errors m))
       (\<lambda>(r, m).
       if 0 < ssl_ret r then Ok (True, m)
       else if ssl_err r = SSL_ERROR_ZERO_RETURN then Ok (False, m)
       else
         andThen (ssl_retry (ssl_err r) timeout s m) (\<lambda>(again, m).
           if again then ssl_send_timed b timeout s m else Ok (False, m)))"
  by pat_completeness auto
termination
  by (relation "measure (\<lambda>(b, t, s, m). length (replies m))")
     (auto dest!: ssl_op_shorter ssl_retry_le)

declare ssl_send.simps [simp del] ssl_send_timed.simps [simp del]

section \<open>Shutdown\<close>

datatype ssl_shutdown_how = Unidirectional | Bidirectional

definition BUFSIZ :: nat where
  "BUFSIZ = 8192"

text \<open>Discarding what the peer still sends.\<close>

function shutdown_drain :: "int \<Rightarrow> ssl_sock \<Rightarrow> machine \<Rightarrow> (bool \<times> machine) res" where
  "shutdown_drain timeout s m =
     andThen (ssl_recv_timed BUFSIZ timeout s m) (\<lambda>(r, m).
       case r of
         None \<Rightarrow> Ok (False, m)
       | Some bs \<Rightarrow> if bs = [] then Ok (True, m) else shutdown_drain timeout s m)"
  by pat_completeness auto
termination
  by (relation "measure (\<lambda>(t, s, m). length (replies m))") (auto dest!: ssl_recv_timed_shorter)

function shutdown_loop :: "int \<Rightarrow> ssl_sock \<Rightarrow> machine \<Rightarrow> (bool \<times> machine) res" where
  "shutdown_loop timeout s m =
     andThen (ssl_op (ssl_ssl s) (C_SSL_shutdown (ssl_ssl s)) (clear_errors m)) (\<lambda>(r, m).
       if ssl_ret r = 1 then Ok (True, m)
       else if ssl_ret r = 0 then shutdown_drain timeout s m
       else if ssl_err r = SSL_ERROR_ZERO_RETURN then Ok (True, m)
       else
         andThen (ssl_retry (ssl_err r) timeout s m) (\<lambda>(again, m).
           if again then shutdown_loop timeout s m else Ok (False, m)))"
  by pat_completeness auto
termination
  by (relation "measure (\<lambda>(t, s, m). length (replies m))")
     (auto dest!: ssl_op_shorter ssl_retry_le)

declare shutdown_drain.simps [simp del] shutdown_loop.simps [simp del]

text \<open>\<open>SSL_RECEIVED_SHUTDOWN\<close> is bit 1 of the shutdown state.\<close>

definition ssl_shutdown ::
    "ssl_shutdown_how \<Rightarrow> int \<Rightarrow> ssl_sock \<Rightarrow> machine \<Rightarrow> (bool \<times> machine) res" where
  "ssl_shutdown how timeout s m =
     andThen (if how = Unidirectional then
                andThen (ssl_op (ssl_ssl s) (C_SSL_get_shutdown (ssl_ssl s)) m) (\<lambda>(r, m).
                  Ok (note_call (Ssl (C_SSL_set_shutdown (ssl_ssl s) (or (fd_of r) 2))) m))
              else Ok m)
       (\<lambda>m. shutdown_loop timeout s m)"

section \<open>The library object\<close>

record library =
  lib_ctx :: ptr

definition new_library :: library where
  "new_library = \<lparr>lib_ctx = nullptr\<rparr>"

text \<open>\<open>init\<close> also sets the static context of the sockets, which it returns.\<close>

definition library_init :: "library \<Rightarrow> ptr \<Rightarrow> machine \<Rightarrow> (bool \<times> library \<times> ptr \<times> machine) res" where
  "library_init lib ctx m =
     andThen (syscall (Ctx C_TLS_method) m) (\<lambda>(r, m).
       if status_of r = 0 then
         andThen (syscall (Ctx C_SSL_CTX_new) m) (\<lambda>(r, m).
         let p = nat (fd_of r); lib = lib\<lparr>lib_ctx := p\<rparr> in
           if p \<noteq> nullptr then Ok (True, lib, p, m) else Ok (False, lib, ctx, m))
       else Ok (False, lib, ctx, m))"

definition library_destroy :: "library \<Rightarrow> machine \<Rightarrow> machine" where
  "library_destroy lib m =
     (if lib_ctx lib \<noteq> nullptr then note_call (Ctx (C_SSL_CTX_free (lib_ctx lib))) m else m)"

definition load_certificate :: "string \<Rightarrow> library \<Rightarrow> machine \<Rightarrow> (bool \<times> machine) res" where
  "load_certificate filename lib m =
     (if lib_ctx lib = nullptr then Fault else
      andThen (syscall (Ctx (C_SSL_CTX_certificate (lib_ctx lib) filename))
                 (note_call (Ssl C_ERR_clear_error) m)) (\<lambda>(r, m).
        Ok (ssl_ret r = 1, m)))"

definition load_private_key :: "string \<Rightarrow> library \<Rightarrow> machine \<Rightarrow> (bool \<times> machine) res" where
  "load_private_key filename lib m =
     (if lib_ctx lib = nullptr then Fault else
      andThen (syscall (Ctx (C_SSL_CTX_private_key (lib_ctx lib) filename))
                 (note_call (Ssl C_ERR_clear_error) m)) (\<lambda>(r, m).
        Ok (ssl_ret r = 1, m)))"

section \<open>What is sent\<close>

text \<open>
  The bytes a connection object has taken. \<open>SSL_write\<close>, without partial writes enabled,
  succeeds only when it has taken all of the \<open>num\<close> bytes it is given.
\<close>

fun ssl_sent_by :: "ptr \<Rightarrow> call \<times> reply \<Rightarrow> byte list" where
  "ssl_sent_by p (Ssl (C_SSL_write q bs num), r) =
     (if q = p \<and> 0 < ssl_ret r then take (nat num) bs else [])"
| "ssl_sent_by p _ = []"

definition ssl_sent :: "ptr \<Rightarrow> machine \<Rightarrow> byte list" where
  "ssl_sent p m = concat (map (ssl_sent_by p) (trace m))"

lemma ssl_sent_upd [simp]:
  "ssl_sent p (m\<lparr>replies := a, errno := b, trace := trace m @ [e]\<rparr>) = ssl_sent p m @ ssl_sent_by p e"
  "ssl_sent p (m\<lparr>replies := a, trace := trace m @ [e]\<rparr>) = ssl_sent p m @ ssl_sent_by p e"
  "ssl_sent p (m\<lparr>errno := b\<rparr>) = ssl_sent p m"
  "ssl_sent p (clear_errors m) = ssl_sent p m"
  by (simp_all add: ssl_sent_def clear_errors_def)

lemma later_clear_errors [simp]: "later m0 m \<Longrightarrow> later m0 (clear_errors m)"
  by (auto simp: later_def clear_errors_def)

lemma quiet_clear_errors [simp]: "quiet m (clear_errors m)"
  by (auto simp: quiet_def later_def clear_errors_def same_mem_def fd_balance_def ssl_balance_def)

text \<open>The operations on a connection that neither make nor free one.\<close>

fun plain_op :: "ssl_call \<Rightarrow> bool" where
  "plain_op (C_SSL_new ctx) = False"
| "plain_op (C_SSL_free p) = False"
| "plain_op _ = True"

lemma ssl_delta_plain [simp]: "plain_op c \<Longrightarrow> ssl_delta p (Ssl c, r) = 0"
  by (cases c) auto

lemma wp_ssl_op:
  "p \<noteq> 0 \<Longrightarrow> plain_op c \<Longrightarrow> wp (ssl_op p c (clear_errors m)) (\<lambda>(r, m'). quiet m m' \<and>
     ssl_sent q m' = ssl_sent q m @ ssl_sent_by q (Ssl c, r))"
  by (auto simp: ssl_op_def quiet_def later_def clear_errors_def same_mem_def fd_balance_def ssl_balance_def
      ssl_sent_def)

lemma wp_ssl_retry:
  "wp (ssl_retry e t s m) (\<lambda>(b, m'). quiet m m' \<and> ssl_sent q m' = ssl_sent q m)"
  by (cases e) (auto simp: ssl_retry_def wait_readable_def wait_writable_def wait_for_def sys_defs quiet_def)

lemma int_of_len_small: "n < 2 ^ 31 \<Longrightarrow> int_of_len n = int n"
  by (simp add: int_of_len_def sint_uint unsigned_of_nat take_bit_nat_eq_self signed_take_bit_int_eq_self)

text \<open>A loop that repeats an operation: its invariant is kept by the operation and by the wait.\<close>

lemma wp_handshake_loop:
  "ssl_ssl s \<noteq> 0 \<Longrightarrow> wp (handshake_loop t s m) (\<lambda>(ok, m'). quiet m m')"
proof (induction t s m rule: handshake_loop.induct)
  case (1 t s m)
  note IH = 1
  let ?op = "ssl_op (ssl_ssl s) (C_SSL_do_handshake (ssl_ssl s)) (clear_errors m)"
  show ?case
  proof (cases ?op)
    case (Ok x)
    then obtain r m1 where run: "?op = Ok (r, m1)" by (cases x) auto
    from wp_Ok [OF wp_ssl_op [OF IH(2), where q = 0] run] have q1: "quiet m m1" by simp
    have "wp (ssl_retry (ssl_err r) t s m1) (\<lambda>(again, m2).
        wp (if again then handshake_loop t s m2 else Ok (False, m2)) (\<lambda>(ok, m'). quiet m m'))"
      if "ssl_ret r \<noteq> 1" "ssl_ret r \<noteq> 0" "ssl_err r \<noteq> SSL_ERROR_ZERO_RETURN"
    proof (cases "ssl_retry (ssl_err r) t s m1")
      case (Ok y)
      then obtain b m2 where w: "ssl_retry (ssl_err r) t s m1 = Ok (b, m2)" by (cases y) auto
      from wp_Ok [OF wp_ssl_retry [where q = 0] w] q1 have q2: "quiet m m2" by (auto intro: quiet_trans)
      show ?thesis
      proof (cases b)
        case True
        from IH(1) [OF run refl that w refl True IH(2)] q2 w True show ?thesis
          by (auto elim!: wp_mono intro: quiet_trans)
      qed (use w q2 in simp)
    next
      case Fault
      with wp_ssl_retry [of "ssl_err r" t s m1 0] show ?thesis by simp
    qed simp
    with q1 show ?thesis
      by (simp add: handshake_loop.simps [of t s m] run case_prod_unfold)
  next
    case Fault
    with wp_ssl_op [OF IH(2), of "C_SSL_do_handshake (ssl_ssl s)" m 0] show ?thesis by simp
  qed (simp add: handshake_loop.simps [of t s m])
qed

lemma wp_ssl_send_timed:
  "ssl_ssl s \<noteq> 0 \<Longrightarrow> wp (ssl_send_timed b t s m) (\<lambda>(ok, m'). quiet m m' \<and>
     ssl_sent (ssl_ssl s) m' =
       ssl_sent (ssl_ssl s) m @ (if ok then take (nat (int_of_len (length b))) b else []))"
proof (induction b t s m rule: ssl_send_timed.induct)
  case (1 b t s m)
  note IH = 1
  let ?p = "ssl_ssl s"
  let ?op = "ssl_op ?p (C_SSL_write ?p b (int_of_len (length b))) (clear_errors m)"
  let ?Q = "\<lambda>(ok, m'). quiet m m' \<and> ssl_sent ?p m' =
       ssl_sent ?p m @ (if ok then take (nat (int_of_len (length b))) b else [])"
  show ?case
  proof (cases ?op)
    case (Ok x)
    then obtain r m1 where run: "?op = Ok (r, m1)" by (cases x) auto
    from wp_Ok [OF wp_ssl_op [OF IH(2), where q = ?p] run] have q1: "quiet m m1"
      "ssl_sent ?p m1 = ssl_sent ?p m @ (if 0 < ssl_ret r then take (nat (int_of_len (length b))) b else [])"
      by simp_all
    have "wp (ssl_retry (ssl_err r) t s m1) (\<lambda>(again, m2).
        wp (if again then ssl_send_timed b t s m2 else Ok (False, m2)) ?Q)"
      if "\<not> 0 < ssl_ret r" "ssl_err r \<noteq> SSL_ERROR_ZERO_RETURN"
    proof (cases "ssl_retry (ssl_err r) t s m1")
      case (Ok y)
      then obtain again m2 where w: "ssl_retry (ssl_err r) t s m1 = Ok (again, m2)" by (cases y) auto
      from wp_Ok [OF wp_ssl_retry [where q = ?p] w] q1 that have q2: "quiet m m2"
        "ssl_sent ?p m2 = ssl_sent ?p m" by (auto intro: quiet_trans)
      show ?thesis
      proof (cases again)
        case True
        from IH(1) [OF run refl that w refl True IH(2)] q2 w True show ?thesis
          by (auto elim!: wp_mono intro: quiet_trans)
      qed (use w q2 in simp)
    next
      case Fault
      with wp_ssl_retry [of "ssl_err r" t s m1 0] show ?thesis by simp
    qed simp
    with q1 show ?thesis
      by (simp add: ssl_send_timed.simps [of b t s m] run case_prod_unfold)
  next
    case Fault
    with wp_ssl_op [OF IH(2), of "C_SSL_write ?p b (int_of_len (length b))" m 0] show ?thesis by simp
  qed (simp add: ssl_send_timed.simps [of b t s m])
qed

definition sample_ssl :: ssl_sock where
  "sample_ssl = \<lparr>ssl_tcp = \<lparr>sock_fd = 5\<rparr>, ssl_ssl = 77\<rparr>"

text \<open>
  C36: the timed send over TLS hands a buffer of less than 2 GiB to the connection completely
  when it returns true, and not at all when it returns false, whatever waits and interruptions
  there were; it leaks nothing and changes no memory of the program.
\<close>

theorem ssl_send_exact:
  assumes "ssl_ssl s \<noteq> 0" and "length b < 2 ^ 31"
  shows "wp (ssl_send_timed b t s m) (\<lambda>(ok, m'). same_mem m m' \<and>
           (\<forall>f. fd_balance f m' = fd_balance f m) \<and>
           ssl_sent (ssl_ssl s) m' = ssl_sent (ssl_ssl s) m @ (if ok then b else []))"
  by (rule wp_mono [OF wp_ssl_send_timed [OF assms(1)]])
     (auto simp: quiet_def int_of_len_small [OF assms(2)])

theorem ssl_send_exact_witness:
  "wp (ssl_send_timed [1, 2, 3] 30000 sample_ssl
        (sample\<lparr>replies := [SslErr (-1) SSL_ERROR_WANT_WRITE E_OK, Ret 1, Ret 3]\<rparr>))
     (\<lambda>(ok, m'). ssl_sent 77 m' = ssl_sent 77 sample @ (if ok then [1, 2, 3] else []))"
  by (rule wp_mono [OF ssl_send_exact]) (auto simp: sample_ssl_def ssl_sent_def)

text \<open>
  C37: the length of a send over TLS is passed as an \<open>int\<close>: of a buffer of \<open>2 ^ 32 + k\<close> bytes only
  the first \<open>k\<close> are sent, and \<open>send\<close> returns true as if all were.
\<close>

theorem ssl_send_truncates:
  assumes "ssl_ssl s \<noteq> 0" and "length b = 2 ^ 32 + k" and "0 < k" and "k < 2 ^ 31"
    and "replies m = Ret (int k) # rs"
  shows "\<exists>m'. ssl_send_timed b t s m = Ok (True, m') \<and>
           ssl_sent (ssl_ssl s) m' = ssl_sent (ssl_ssl s) m @ take k b"
proof -
  have "(word_of_nat (2 ^ 32 + k) :: 32 word) = word_of_nat k"
    by (simp only: word_of_nat_eq_iff take_bit_eq_mod) simp
  then have "int_of_len (length b) = int_of_len k" by (simp only: int_of_len_def assms(2))
  then have k: "int_of_len (length b) = int k" using int_of_len_small [OF assms(4)] by simp
  have "\<exists>m'. ssl_send_timed b t s m = Ok (True, m')"
    using assms(1,3,5) by (simp add: ssl_send_timed.simps [of b] ssl_op_def)
  then obtain m' where run: "ssl_send_timed b t s m = Ok (True, m')" by blast
  with wp_Ok [OF wp_ssl_send_timed [OF assms(1)] run] k show ?thesis by simp
qed

theorem ssl_send_truncates_witness:
  "\<exists>m'. ssl_send_timed (replicate (2 ^ 32 + 5) 1) 30000 sample_ssl (sample\<lparr>replies := [Ret 5]\<rparr>) =
     Ok (True, m')"
  using ssl_send_truncates [of sample_ssl "replicate (2 ^ 32 + 5) 1" 5 "sample\<lparr>replies := [Ret 5]\<rparr>" "[]" 30000]
  by (auto simp: sample_ssl_def)

section \<open>Connections and their resources\<close>

text \<open>The object owns a descriptor and a connection object, or neither of them.\<close>

definition ssl_owns :: "machine \<Rightarrow> ssl_sock \<Rightarrow> machine \<Rightarrow> bool" where
  "ssl_owns m s m' \<longleftrightarrow>
     same_mem m m' \<and> later m m' \<and> files m' = files m \<and> length (replies m') \<le> length (replies m) \<and>
     (\<forall>f. fd_balance f m' = fd_balance f m + of_bool (f = ssl_fd s \<and> f \<noteq> -1)) \<and>
     (\<forall>p. ssl_balance p m' = ssl_balance p m + of_bool (p = ssl_ssl s \<and> p \<noteq> 0))"

lemma ssl_owns_quiet: "ssl_owns m s m' \<Longrightarrow> quiet m' m'' \<Longrightarrow> ssl_owns m s m''"
  by (auto simp: ssl_owns_def quiet_def intro: same_mem_trans later_trans)

lemma ssl_owns_tcp: "owns m (ssl_tcp s) m' \<Longrightarrow> ssl_ssl s = 0 \<Longrightarrow> ssl_owns m s m'"
  by (auto simp: ssl_owns_def owns_def ssl_fd_def)

lemma ssl_owns_free:
  "ssl_owns m s m' \<Longrightarrow> ssl_ssl s \<noteq> 0 \<Longrightarrow> ssl_owns m (s\<lparr>ssl_ssl := 0\<rparr>) (ssl_free (ssl_ssl s) m')"
  by (auto simp: ssl_owns_def ssl_free_def later_def same_mem_def fd_balance_def ssl_balance_def ssl_fd_def)

lemma ssl_owns_close:
  "ssl_owns m s m' \<Longrightarrow> sock_close (ssl_tcp s) m' = (tcp, m'') \<Longrightarrow>
     ssl_owns m (s\<lparr>ssl_tcp := tcp\<rparr>) m'' \<and> sock_fd tcp = -1"
  by (auto simp: ssl_owns_def sock_close_def ssl_fd_def split: if_splits)

lemma wp_ssl_new:
  "ssl_owns m0 s m \<Longrightarrow> ssl_ssl s = 0 \<Longrightarrow>
   wp (syscall (Ssl (C_SSL_new ctx)) m) (\<lambda>(r, m'). ssl_owns m0 (s\<lparr>ssl_ssl := nat (fd_of r)\<rparr>) m')"
  by (auto simp: ssl_owns_def ssl_fd_def)

lemma wp_plain: "plain_op c \<Longrightarrow> wp (syscall (Ssl c) m) (\<lambda>(r, m'). quiet m m')"
  by (auto simp: quiet_def)

lemma quiet_note: "plain_op c \<Longrightarrow> quiet m (note_call (Ssl c) m)"
  by (auto simp: quiet_def later_def same_mem_def fd_balance_def ssl_balance_def)

lemma wp_ssl_handshake:
  assumes own: "ssl_owns m0 s m" and "ssl_ssl s = 0"
  shows "wp (ssl_handshake ctx md t s m) (\<lambda>(ok, s', m').
           ssl_owns m0 s' m' \<and> ssl_tcp s' = ssl_tcp s \<and> (ok \<longleftrightarrow> ssl_ssl s' \<noteq> 0))" (is "wp _ ?Q")
  unfolding ssl_handshake_def Let_def
proof (rule wp_step [OF wp_ssl_new [OF assms]], goal_cases)
  case (1 x)
  obtain r m1 where x: "x = (r, m1)" by (cases x)
  let ?p = "nat (fd_of r)"
  let ?s = "s\<lparr>ssl_ssl := ?p\<rparr>"
  from 1 have own1: "ssl_owns m0 ?s m1" by (simp add: x)
  have fin: "wp (if ok then Ok (True, ?s, m4) else Ok (False, ?s\<lparr>ssl_ssl := 0\<rparr>, ssl_free ?p m4)) ?Q"
    if "ssl_owns m0 ?s m4" "?p \<noteq> 0" for ok m4
    using that ssl_owns_free [OF that(1)] by simp
  show ?case
  proof (cases "?p = 0")
    case True
    with own1 show ?thesis by (simp add: x)
  next
    case False
    show ?thesis
      unfolding x prod.case if_P [OF False]
    proof (rule wp_step [OF wp_plain], simp, goal_cases)
      case (1 y)
      obtain r2 m2 where y: "y = (r2, m2)" by (cases y)
      from 1 have own2: "ssl_owns m0 ?s m2" unfolding y prod.case by (rule ssl_owns_quiet [OF own1])
      let ?m3 = "note_call (Ssl (C_SSL_set_state ?p (md = Client))) m2"
      have own3: "ssl_owns m0 ?s ?m3" by (rule ssl_owns_quiet [OF own2 quiet_note]) simp
      have "wp (handshake_loop t ?s ?m3) (\<lambda>(ok, m4). ssl_owns m0 ?s m4)"
        using wp_handshake_loop [of ?s t ?m3] False ssl_owns_quiet [OF own3] by (auto elim!: wp_mono)
      then have hs: "wp (if status_of r2 = 0 then handshake_loop t ?s ?m3 else Ok (False, m2))
          (\<lambda>(ok, m4). ssl_owns m0 ?s m4)"
        using own2 by simp
      show ?case
        unfolding y prod.case
        by (rule wp_step [OF hs], clarify) (rule fin [OF _ False], assumption)
    qed
  qed
qed

lemma wp_ssl_connect:
  assumes "ssl_owns m0 s m" and "ssl_ssl s = 0" and "ssl_fd s \<noteq> -1"
  shows "wp (ssl_connect ctx t s m) (\<lambda>(ok, s', m').
           ssl_owns m0 s' m' \<and> (ok \<longleftrightarrow> ssl_fd s' \<noteq> -1) \<and> (ok \<longleftrightarrow> ssl_ssl s' \<noteq> 0))"
  unfolding ssl_connect_def
proof (rule wp_step [OF wp_ssl_handshake [OF assms(1,2)]], goal_cases)
  case (1 x)
  then obtain ok s1 m1 where x: "x = (ok, s1, m1)" and own: "ssl_owns m0 s1 m1"
    and s1: "ssl_tcp s1 = ssl_tcp s" "ok \<longleftrightarrow> ssl_ssl s1 \<noteq> 0" by (cases x) auto
  obtain tcp m2 where close: "sock_close (ssl_tcp s1) m1 = (tcp, m2)" by (cases "sock_close (ssl_tcp s1) m1")
  from ssl_owns_close [OF own close] own s1 assms(3) show ?case
    by (auto simp: x close [unfolded s1(1)] ssl_fd_def)
qed

lemma wp_ssl_connect_address:
  assumes "ssl_ssl s = 0"
  shows "wp (ssl_connect_address ctx a t s m) (\<lambda>(ok, s', m'). ssl_owns m s' m' \<and>
           (ok \<longleftrightarrow> ssl_fd s' \<noteq> -1) \<and> (ok \<longleftrightarrow> ssl_ssl s' \<noteq> 0))"
  unfolding ssl_connect_address_def then_ssl_connect_def connect_address_timed_def Let_def
proof (rule wp_step [OF wp_connect_timed], goal_cases)
  case (1 x)
  then obtain ok tcp m1 where x: "x = (ok, tcp, m1)" and own: "owns m tcp m1"
    and ok: "ok = (sock_fd tcp \<noteq> -1)" by (cases x) auto
  have "ssl_owns m (s\<lparr>ssl_tcp := tcp\<rparr>) m1" by (rule ssl_owns_tcp) (use own assms in simp_all)
  with wp_ssl_connect [OF this] ok assms show ?case by (simp add: x ssl_fd_def)
qed

text \<open>
  connecting over TLS leaks nothing: it returns true exactly when the object holds both an
  open descriptor and a connection object; on every failure, of the connection, of OpenSSL or
  of the handshake, the descriptor is closed and the connection object freed, each once.
\<close>

theorem ssl_connect_correct:
  assumes "ssl_ssl s = 0"
  shows "wp (ssl_connect_address ctx a t s m) (\<lambda>(ok, s', m').
           same_mem m m' \<and> (ok \<longleftrightarrow> ssl_fd s' \<noteq> -1) \<and> (ok \<longleftrightarrow> ssl_ssl s' \<noteq> 0) \<and>
           (\<forall>f. fd_balance f m' = fd_balance f m + of_bool (f = ssl_fd s' \<and> f \<noteq> -1)) \<and>
           (\<forall>p. ssl_balance p m' = ssl_balance p m + of_bool (p = ssl_ssl s' \<and> p \<noteq> 0)))"
  by (rule wp_mono [OF wp_ssl_connect_address [OF assms]]) (auto simp: ssl_owns_def)

theorem ssl_connect_witness:
  "wp (ssl_connect_address 9 \<lparr>addr_storage = [2, 0] @ zeros 126, addr_len = 16\<rparr> 30000 new_ssl_socket
        (sample\<lparr>replies := [Ret 5, Ret 0, Ret 0, Ret 77, Ret 1, SslErr (-1) SSL_ERROR_SSL E_OK]\<rparr>))
     (\<lambda>(ok, s', m'). (ok \<longleftrightarrow> ssl_fd s' \<noteq> -1) \<and> (ok \<longleftrightarrow> ssl_ssl s' \<noteq> 0))"
  by (rule wp_mono [OF ssl_connect_correct]) (auto simp: new_ssl_socket_def)

end
