(* ===== verification/Buffer.thy ===== *)
theory Buffer
  imports Machine
begin

text \<open>
  \<open>net::buffer\<close> (net/buffer.h, net/buffer.cpp): the accessors of a buffer object, its memory
  (\<open>init\<close>, \<open>clear\<close>, construction and destruction) and \<open>save\<close>, which writes it to a file.
  A range \<open>(data, len)\<close> the code passes is the list of its bytes.
\<close>

section \<open>Accessors\<close>

definition get_next :: "ptr \<Rightarrow> machine \<Rightarrow> ptr res" where
  "get_next p m = andThen (load p m) (\<lambda>b. Ok (buf_next b))"

definition set_next :: "ptr \<Rightarrow> ptr \<Rightarrow> machine \<Rightarrow> machine res" where
  "set_next p x m = modify p (\<lambda>b. b\<lparr>buf_next := x\<rparr>) m"

definition get_prev :: "ptr \<Rightarrow> machine \<Rightarrow> ptr res" where
  "get_prev p m = andThen (load p m) (\<lambda>b. Ok (buf_prev b))"

definition set_prev :: "ptr \<Rightarrow> ptr \<Rightarrow> machine \<Rightarrow> machine res" where
  "set_prev p x m = modify p (\<lambda>b. b\<lparr>buf_prev := x\<rparr>) m"

definition get_data :: "ptr \<Rightarrow> machine \<Rightarrow> ptr res" where
  "get_data p m = andThen (load p m) (\<lambda>b. Ok (buf_data b))"

definition get_length :: "ptr \<Rightarrow> machine \<Rightarrow> size_t res" where
  "get_length p m = andThen (load p m) (\<lambda>b. Ok (buf_length b))"

text \<open>The \<open>n\<close> bytes at the start of a block, as a callee that is handed the range reads them.\<close>

definition read_block :: "ptr \<Rightarrow> nat \<Rightarrow> machine \<Rightarrow> byte list res" where
  "read_block d n m =
     (if n = 0 then Ok []
      else case blocks m d of
        None \<Rightarrow> Fault
      | Some bs \<Rightarrow> if n \<le> length bs then Ok (take n bs) else Fault)"

text \<open>The contents of a buffer: the range \<open>(data(), length())\<close>.\<close>

definition view :: "ptr \<Rightarrow> machine \<Rightarrow> byte list res" where
  "view p m = andThen (load p m) (\<lambda>b. read_block (buf_data b) (unat (buf_length b)) m)"

section \<open>Memory\<close>

definition c_free :: "ptr \<Rightarrow> machine \<Rightarrow> machine res" where
  "c_free d m =
     (case blocks m d of None \<Rightarrow> Fault | Some _ \<Rightarrow> Ok (m\<lparr>blocks := (blocks m)(d := None)\<rparr>))"

text \<open>
  \<open>realloc\<close> as glibc has it: a block that is not live is undefined behaviour; size 0 for a
  live block frees it and gives \<open>NULL\<close>; otherwise the answer decides, and on success the old
  bytes are kept up to the new size and the old block is gone.
\<close>

definition c_realloc :: "ptr \<Rightarrow> nat \<Rightarrow> machine \<Rightarrow> (ptr \<times> machine) res" where
  "c_realloc d n m =
     (if d \<noteq> nullptr \<and> blocks m d = None then Fault
      else if d \<noteq> nullptr \<and> n = 0 then Ok (nullptr, m\<lparr>blocks := (blocks m)(d := None)\<rparr>)
      else andThen (syscall (Host (C_realloc n)) m) (\<lambda>(r, m).
        if status_of r = 0 then
          let old = (case blocks m d of None \<Rightarrow> [] | Some bs \<Rightarrow> bs)
          in Ok (brk m,
                 m\<lparr>blocks := (blocks m)(d := None,
                      brk m := Some (take n old @ replicate (n - length old) 0)),
                   brk := brk m + 1\<rparr>)
        else Ok (nullptr, m)))"

definition memcpy :: "ptr \<Rightarrow> byte list \<Rightarrow> machine \<Rightarrow> machine res" where
  "memcpy d bs m =
     (case blocks m d of
        None \<Rightarrow> Fault
      | Some old \<Rightarrow>
          if length bs \<le> length old
          then Ok (m\<lparr>blocks := (blocks m)(d \<mapsto> bs @ drop (length bs) old)\<rparr>)
          else Fault)"

text \<open>\<open>new (std::nothrow) buffer()\<close>: value-initialised, so every member is zero.\<close>

definition new_buffer :: "machine \<Rightarrow> (ptr \<times> machine) res" where
  "new_buffer m =
     andThen (syscall (Host C_new) m) (\<lambda>(r, m).
       if status_of r = 0 then
         Ok (brk m,
             m\<lparr>cells := (cells m)(brk m \<mapsto>
                  \<lparr>buf_data = nullptr, buf_length = 0, buf_prev = nullptr, buf_next = nullptr\<rparr>),
               brk := brk m + 1\<rparr>)
       else Ok (nullptr, m))"

definition clear :: "ptr \<Rightarrow> machine \<Rightarrow> machine res" where
  "clear p m =
     andThen (load p m) (\<lambda>b.
       if buf_data b \<noteq> nullptr then
         andThen (c_free (buf_data b) m) (\<lambda>m.
           modify p (\<lambda>b. b\<lparr>buf_data := nullptr\<rparr>) m)
       else Ok m)"

text \<open>\<open>delete\<close>: the destructor clears the buffer, then the object is gone.\<close>

definition delete_buffer :: "ptr \<Rightarrow> machine \<Rightarrow> machine res" where
  "delete_buffer p m =
     andThen (clear p m) (\<lambda>m. Ok (m\<lparr>cells := (cells m)(p := None)\<rparr>))"

definition init :: "ptr \<Rightarrow> byte list \<Rightarrow> machine \<Rightarrow> (bool \<times> machine) res" where
  "init p data m =
     andThen (get_data p m) (\<lambda>d.
     andThen (c_realloc d (length data) m) (\<lambda>(buf, m).
       if buf \<noteq> nullptr then
         andThen (memcpy buf data m) (\<lambda>m.
         andThen (modify p (\<lambda>b. b\<lparr>buf_data := buf\<rparr>) m) (\<lambda>m.
         andThen (modify p (\<lambda>b. b\<lparr>buf_length := of_nat (length data)\<rparr>) m) (\<lambda>m.
           Ok (True, m))))
       else Ok (False, m)))"

section \<open>Saving to a file\<close>

definition sys_open_write :: "string \<Rightarrow> machine \<Rightarrow> (int \<times> machine) res" where
  "sys_open_write name m =
     andThen (syscall (File (C_open name)) m) (\<lambda>(r, m).
       if fd_of r = -1 then Ok (-1, m)
       else if files m name = Some Dir then Ok (-1, m\<lparr>errno := EISDIR\<rparr>)
       else Ok (fd_of r, m\<lparr>files := (files m)(name \<mapsto> Reg []),
                           ofiles := (ofiles m)(fd_of r \<mapsto> name)\<rparr>))"

definition append_file :: "string option \<Rightarrow> byte list \<Rightarrow> (string \<Rightarrow> fnode option) \<Rightarrow>
    string \<Rightarrow> fnode option" where
  "append_file name bs fs =
     (case name of
        None \<Rightarrow> fs
      | Some f \<Rightarrow> (case fs f of Some (Reg old) \<Rightarrow> fs(f \<mapsto> Reg (old @ bs)) | _ \<Rightarrow> fs))"

definition sys_write :: "int \<Rightarrow> byte list \<Rightarrow> machine \<Rightarrow> (int \<times> machine) res" where
  "sys_write fd bs m =
     andThen (syscall (File (C_write fd bs)) m) (\<lambda>(r, m).
       let k = count_of (length bs) r
       in Ok (k, m\<lparr>files := append_file (ofiles m fd) (take (nat k) bs) (files m)\<rparr>))"

definition sys_close_file :: "int \<Rightarrow> machine \<Rightarrow> machine" where
  "sys_close_file fd m = note_call (File (C_close fd)) (m\<lparr>ofiles := (ofiles m)(fd := None)\<rparr>)"

definition sys_unlink :: "string \<Rightarrow> machine \<Rightarrow> machine res" where
  "sys_unlink name m =
     andThen (syscall (File (C_unlink name)) m) (\<lambda>(r, m).
       if status_of r = 0 then Ok (m\<lparr>files := (files m)(name := None)\<rparr>) else Ok m)"

lemma sys_write_shorter:
  "sys_write fd bs m = Ok (k, m') \<Longrightarrow> length (replies m') < length (replies m)"
  by (auto simp: sys_write_def andThen_Ok_iff syscall_Ok_iff Let_def)

function save_loop :: "int \<Rightarrow> string \<Rightarrow> byte list \<Rightarrow> nat \<Rightarrow> machine \<Rightarrow> (bool \<times> machine) res" where
  "save_loop fd filename data written m =
     (if written < length data then
        andThen (sys_write fd (drop written data) m) (\<lambda>(ret, m).
          if 0 < ret then save_loop fd filename data (written + nat ret) m
          else if ret < 0 then
            (if errno m \<noteq> EINTR then
               andThen (sys_unlink filename (sys_close_file fd m)) (\<lambda>m. Ok (False, m))
             else save_loop fd filename data written m)
          else save_loop fd filename data written m)
      else Ok (True, sys_close_file fd m))"
  by pat_completeness auto
termination
  by (relation "measure (\<lambda>(fd, f, d, w, m). length (replies m))") (auto dest: sys_write_shorter)

declare save_loop.simps [simp del]

definition save :: "ptr \<Rightarrow> string \<Rightarrow> machine \<Rightarrow> (bool \<times> machine) res" where
  "save p filename m =
     andThen (sys_open_write filename m) (\<lambda>(fd, m).
       if fd \<noteq> -1 then
         andThen (view p m) (\<lambda>data. save_loop fd filename data 0 m)
       else Ok (False, m))"

section \<open>Reads and writes\<close>

lemma get_next_Some [heap_simps]: "cells m p = Some b \<Longrightarrow> get_next p m = Ok (buf_next b)"
  by (simp add: get_next_def load_Some)

lemma get_prev_Some [heap_simps]: "cells m p = Some b \<Longrightarrow> get_prev p m = Ok (buf_prev b)"
  by (simp add: get_prev_def load_Some)

lemma get_data_Some [heap_simps]: "cells m p = Some b \<Longrightarrow> get_data p m = Ok (buf_data b)"
  by (simp add: get_data_def load_Some)

lemma set_next_Some [heap_simps]:
  "cells m p = Some b \<Longrightarrow>
     set_next p x m = Ok (m\<lparr>cells := (cells m)(p \<mapsto> b\<lparr>buf_next := x\<rparr>)\<rparr>)"
  by (simp add: set_next_def modify_Some)

lemma set_prev_Some [heap_simps]:
  "cells m p = Some b \<Longrightarrow>
     set_prev p x m = Ok (m\<lparr>cells := (cells m)(p \<mapsto> b\<lparr>buf_prev := x\<rparr>)\<rparr>)"
  by (simp add: set_prev_def modify_Some)

lemma view_Some:
  "cells m p = Some b \<Longrightarrow> view p m = read_block (buf_data b) (unat (buf_length b)) m"
  by (simp add: view_def load_Some)

lemma read_block_cong: "blocks m d = blocks m' d \<Longrightarrow> read_block d n m = read_block d n m'"
  by (simp add: read_block_def)

section \<open>Heap discipline\<close>

lemma heap_ok_links:
  assumes "heap_ok m" and "cells m p = Some b"
    and "buf_data b' = buf_data b" and "buf_length b' = buf_length b"
  shows "heap_ok (m\<lparr>cells := (cells m)(p \<mapsto> b')\<rparr>)" (is "heap_ok ?m")
proof -
  note ok = heap_okD [OF assms(1)]
  have "addr_ok ?m"
    using ok(1) assms(2) unfolding addr_ok_def by auto
  moreover have "data_ok ?m"
    using ok(2) assms(2-4) unfolding data_ok_def by auto
  moreover have "owner_ok ?m"
    using ok(3) assms(2,3) unfolding owner_ok_def by simp
  ultimately show ?thesis by (simp add: heap_ok_def)
qed

lemma heap_ok_cong:
  "cells m' = cells m \<Longrightarrow> blocks m' = blocks m \<Longrightarrow> brk m' = brk m \<Longrightarrow> heap_ok m' = heap_ok m"
  by (simp add: heap_ok_def addr_ok_def data_ok_def owner_ok_def)

lemma heap_ok_set_next:
  "heap_ok m \<Longrightarrow> set_next p x m = Ok m' \<Longrightarrow> heap_ok m'"
  by (auto simp: set_next_def modify_Ok_iff intro!: heap_ok_links)

lemma heap_ok_set_prev:
  "heap_ok m \<Longrightarrow> set_prev p x m = Ok m' \<Longrightarrow> heap_ok m'"
  by (auto simp: set_prev_def modify_Ok_iff intro!: heap_ok_links)

lemma new_buffer_Ok:
  assumes "new_buffer m = Ok (p, m')"
  shows "(p = 0 \<and> cells m' = cells m \<and> brk m' = brk m \<or>
          p = brk m \<and> brk m' = brk m + 1 \<and>
          cells m' = (cells m)(p \<mapsto> \<lparr>buf_data = 0, buf_length = 0, buf_prev = 0, buf_next = 0\<rparr>))
         \<and> blocks m' = blocks m"
  using assms by (cases "replies m") (auto simp: new_buffer_def split: if_splits)

lemma heap_ok_new_buffer:
  assumes "heap_ok m" and "new_buffer m = Ok (p, m')"
  shows "heap_ok m'"
proof -
  note ok = heap_okD [OF assms(1)] and new = new_buffer_Ok [OF assms(2)]
  show ?thesis
  proof (cases "p = 0")
    case True
    with new addr_ok_brk [OF ok(1)] have "cells m' = cells m" "brk m' = brk m" "blocks m' = blocks m"
      by auto
    with assms(1) show ?thesis by (simp cong: heap_ok_cong)
  next
    case False
    let ?b = "\<lparr>buf_data = 0, buf_length = 0, buf_prev = 0, buf_next = 0\<rparr>"
    from False new have eq: "cells m' = (cells m)(brk m \<mapsto> ?b)" "brk m' = Suc (brk m)"
      "blocks m' = blocks m" by auto
    have "addr_ok m'" using ok(1) addr_ok_brk [OF ok(1)]
      unfolding addr_ok_def eq by (auto simp: less_Suc_eq)
    moreover have "data_ok m'" using ok(2) unfolding data_ok_def eq by auto
    moreover have "owner_ok m'" using ok(3) unfolding owner_ok_def eq by auto
    ultimately show ?thesis by (simp add: heap_ok_def)
  qed
qed

text \<open>Detaching a buffer from its block: the heap after \<open>clear\<close>.\<close>

lemma heap_ok_detach:
  assumes "heap_ok m" and "cells m p = Some b"
  shows "heap_ok (m\<lparr>cells := (cells m)(p \<mapsto> b\<lparr>buf_data := 0\<rparr>),
                    blocks := (blocks m)(buf_data b := None)\<rparr>)" (is "heap_ok ?m")
proof -
  note ok = heap_okD [OF assms(1)]
  have "addr_ok ?m"
    using ok(1) assms(2) unfolding addr_ok_def by (auto split: if_splits)
  moreover have "data_ok ?m"
    using ok(2) owner_okD [OF ok(3) _ assms(2)] unfolding data_ok_def by auto
  moreover have "owner_ok ?m"
    using ok(3) unfolding owner_ok_def by simp
  ultimately show ?thesis by (simp add: heap_ok_def)
qed

lemma clear_Ok:
  assumes "heap_ok m" and "cells m p = Some b"
  shows "clear p m = Ok (m\<lparr>cells := (cells m)(p \<mapsto> b\<lparr>buf_data := 0\<rparr>),
                           blocks := (blocks m)(buf_data b := None)\<rparr>)"
proof (cases "buf_data b = 0")
  case True
  moreover from True have "b\<lparr>buf_data := 0\<rparr> = b" by simp
  moreover have "blocks m 0 = None"
    using heap_okD(1) [OF assms(1)] by (rule addr_ok_null)
  ultimately show ?thesis using assms
    by (simp add: clear_def load_Some fun_upd_idem)
next
  case False
  from data_okD [OF heap_okD(2) [OF assms(1)] assms(2) False]
  obtain bs where "blocks m (buf_data b) = Some bs" by blast
  with False assms show ?thesis by (simp add: clear_def load_Some c_free_def modify_Some)
qed

lemma heap_ok_drop_cell:
  assumes "heap_ok m" shows "heap_ok (m\<lparr>cells := (cells m)(p := None)\<rparr>)"
  using assms unfolding heap_ok_def addr_ok_def data_ok_def owner_ok_def by simp

lemma delete_buffer_Ok:
  assumes "heap_ok m" and "cells m p = Some b"
  shows "delete_buffer p m = Ok (m\<lparr>cells := (cells m)(p := None),
                                   blocks := (blocks m)(buf_data b := None)\<rparr>)"
    and "heap_ok (m\<lparr>cells := (cells m)(p := None),
                    blocks := (blocks m)(buf_data b := None)\<rparr>)"
proof -
  show "delete_buffer p m = Ok (m\<lparr>cells := (cells m)(p := None),
                                   blocks := (blocks m)(buf_data b := None)\<rparr>)"
    by (simp add: delete_buffer_def clear_Ok [OF assms])
  show "heap_ok (m\<lparr>cells := (cells m)(p := None),
                    blocks := (blocks m)(buf_data b := None)\<rparr>)"
    using heap_ok_drop_cell [OF heap_ok_detach [OF assms], of p]
    by (rule heap_ok_cong [THEN iffD1, rotated 3]) simp_all
qed

lemma sample_env_heap_ok [simp]: "heap_ok (sample\<lparr>replies := rs\<rparr>)"
  using sample_heap_ok by (simp cong: heap_ok_cong)

lemma sample_views:
  "view 2 (sample\<lparr>replies := rs\<rparr>) = Ok [1, 2]" "view 3 (sample\<lparr>replies := rs\<rparr>) = Ok [3]"
  "view 4 (sample\<lparr>replies := rs\<rparr>) = Ok []"
  by (simp_all add: view_def load_def read_block_def sample_def)

section \<open>Initialising\<close>

text \<open>What a successful \<open>init\<close> does to the heap.\<close>

lemma init_True_heap:
  assumes ok: "heap_ok m" and b: "cells m p = Some b"
    and run: "init p data m = Ok (True, m')"
  shows "cells m' = (cells m)(p \<mapsto> b\<lparr>buf_data := brk m, buf_length := of_nat (length data)\<rparr>)"
    and "blocks m' = (blocks m)(buf_data b := None, brk m \<mapsto> data)"
    and "brk m' = Suc (brk m)"
proof -
  have "0 < brk m" using addr_ok_brk heap_okD(1) ok by blast
  then show "cells m' = (cells m)(p \<mapsto> b\<lparr>buf_data := brk m, buf_length := of_nat (length data)\<rparr>)"
    and "blocks m' = (blocks m)(buf_data b := None, brk m \<mapsto> data)"
    and "brk m' = Suc (brk m)"
    using run b
    by (cases "replies m";
        force simp: init_def c_realloc_def memcpy_def heap_simps modify_Some Let_def
          split: if_splits option.splits)+
qed

lemma heap_ok_install:
  assumes ok: "heap_ok m" and b: "cells m p = Some b" and len: "length data < 2 ^ 64"
    and c: "cells m' = (cells m)(p \<mapsto> b\<lparr>buf_data := brk m, buf_length := of_nat (length data)\<rparr>)"
    and bl: "blocks m' = (blocks m)(buf_data b := None, brk m \<mapsto> data)"
    and br: "brk m' = Suc (brk m)"
  shows "heap_ok m'"
proof -
  note okD = heap_okD [OF ok]
  have fresh: "buf_data c \<noteq> brk m" if "cells m q = Some c" for q c
  proof
    assume eq: "buf_data c = brk m"
    with addr_ok_brk [OF okD(1)] have "buf_data c \<noteq> 0" by simp
    from data_okD [OF okD(2) that this] addr_ok_fresh(2) [OF okD(1)] eq show False by simp
  qed
  have "addr_ok m'"
    using okD(1) b unfolding addr_ok_def c bl br by (auto simp: less_Suc_eq)
  moreover have "data_ok m'"
    using okD(2) owner_okD [OF okD(3) _ b] len fresh
    unfolding data_ok_def c bl br by (auto simp: unat_of_nat)
  moreover have "owner_ok m'"
    using okD(3) fresh unfolding owner_ok_def c bl br by (auto dest: sym)
  ultimately show ?thesis by (simp add: heap_ok_def)
qed

lemma view_other:
  assumes ok: "heap_ok m" and b: "cells m p = Some b" and q: "q \<noteq> p"
    and c: "cells m' q = cells m q"
    and bl: "\<And>d. d \<noteq> buf_data b \<Longrightarrow> d \<noteq> brk m \<Longrightarrow> blocks m' d = blocks m d"
    and null: "blocks m' 0 = blocks m 0"
  shows "view q m' = view q m"
proof (cases "cells m q")
  case None
  with c show ?thesis by (simp add: view_def load_def)
next
  case (Some x)
  have "blocks m' (buf_data x) = blocks m (buf_data x)"
  proof (cases "buf_data x = 0")
    case True
    with null show ?thesis by simp
  next
    case False
    from data_okD [OF heap_okD(2) [OF ok] Some False]
    have "buf_data x \<noteq> brk m" using addr_ok_fresh(2) [OF heap_okD(1) [OF ok]] by auto
    moreover have "buf_data x \<noteq> buf_data b"
      by (rule owner_okD [OF heap_okD(3) [OF ok] Some b q False])
    ultimately show ?thesis using bl by simp
  qed
  with Some c show ?thesis by (simp add: view_Some read_block_def)
qed

lemma init_True_spec:
  assumes "heap_ok m" and "cells m p = Some b" and "length data < 2 ^ 64"
    and "init p data m = Ok (True, m')"
  shows "view p m' = Ok data \<and> heap_ok m' \<and> brk m' = Suc (brk m) \<and>
         (\<forall>q. q \<noteq> p \<longrightarrow> cells m' q = cells m q \<and> view q m' = view q m)"
proof -
  note heap = init_True_heap [OF assms(1,2,4)]
  have "0 < brk m" and nl: "blocks m 0 = None"
    using heap_okD(1) [OF assms(1)] addr_ok_brk addr_ok_null by blast+
  then have "blocks m' 0 = blocks m 0" using heap(2) by auto
  then have "view q m' = view q m" if "q \<noteq> p" for q
    using that by (intro view_other [OF assms(1,2)]) (simp_all add: heap)
  moreover have "\<forall>q. q \<noteq> p \<longrightarrow> cells m' q = cells m q" by (simp add: heap(1))
  moreover have "heap_ok m'" by (rule heap_ok_install [OF assms(1,2,3) heap])
  moreover have "view p m' = Ok data"
    using heap assms(3) by (simp add: view_def load_def read_block_def unat_of_nat)
  ultimately show ?thesis using heap(3) by simp
qed

lemma c_realloc_frame:
  "c_realloc d n m = Ok (p, m') \<Longrightarrow> files m' = files m \<and> host_only m m'"
  by (cases "replies m") (auto simp: c_realloc_def host_only_def Let_def split: if_splits)

lemma modify_frame: "modify p f m = Ok m' \<Longrightarrow> files m' = files m \<and> trace m' = trace m"
  by (auto simp: modify_Ok_iff)

lemma memcpy_frame: "memcpy d bs m = Ok m' \<Longrightarrow> files m' = files m \<and> trace m' = trace m"
  by (auto simp: memcpy_def split: if_splits option.splits)

lemma init_frame:
  assumes "init p data m = Ok (ok, m')" shows "files m' = files m \<and> host_only m m'"
proof -
  from assms obtain d buf m1 where r: "c_realloc d (length data) m = Ok (buf, m1)"
    and rest: "(if buf \<noteq> nullptr then
         andThen (memcpy buf data m1) (\<lambda>m.
         andThen (modify p (\<lambda>b. b\<lparr>buf_data := buf\<rparr>) m) (\<lambda>m.
         andThen (modify p (\<lambda>b. b\<lparr>buf_length := of_nat (length data)\<rparr>) m) (\<lambda>m. Ok (True, m))))
       else Ok (False, m1)) = Ok (ok, m')"
    by (auto simp: init_def andThen_Ok_iff)
  have "files m' = files m1 \<and> trace m' = trace m1"
    using rest by (cases "buf = 0") (auto simp: andThen_Ok_iff dest!: memcpy_frame modify_frame)
  with c_realloc_frame [OF r] show ?thesis by (auto simp: host_only_def)
qed

text \<open>
  a successful \<open>init\<close> leaves the buffer holding exactly the given bytes, keeps the heap in
  order, and leaves every other buffer and its contents as they were.
\<close>

theorem init_copies:
  assumes "heap_ok m" and "cells m p = Some b" and "length data < 2 ^ 64"
    and "init p data m = Ok (True, m')"
  shows "view p m' = Ok data \<and> heap_ok m' \<and>
         (\<forall>q. q \<noteq> p \<longrightarrow> cells m' q = cells m q \<and> view q m' = view q m)"
  using init_True_spec [OF assms] by blast

theorem init_copies_witness:
  "\<exists>m'. init 2 [7, 8, 9] (sample\<lparr>replies := [Ret 0]\<rparr>) = Ok (True, m') \<and>
     view 2 m' = Ok [7, 8, 9] \<and> heap_ok m' \<and> view 3 m' = Ok [3]"
proof -
  obtain m' where run: "init 2 [7, 8, 9] (sample\<lparr>replies := [Ret 0]\<rparr>) = Ok (True, m')"
    by (simp add: init_def c_realloc_def memcpy_def heap_simps sample_def)
  from init_copies [OF sample_env_heap_ok _ _ this] sample_views(2) run show ?thesis
    by (auto simp: sample_def)
qed

text \<open>A failed \<open>init\<close> of a non-empty range changes no buffer and no block.\<close>

lemma init_False_unchanged:
  assumes ok: "heap_ok m" and b: "cells m p = Some b" and ne: "data \<noteq> []"
    and run: "init p data m = Ok (False, m')"
  shows "cells m' = cells m \<and> blocks m' = blocks m \<and> brk m' = brk m"
proof (cases "replies m")
  case Nil
  with run b ne show ?thesis by (simp add: init_def c_realloc_def heap_simps split: if_splits)
next
  case (Cons r rs)
  have "0 < brk m" using addr_ok_brk heap_okD(1) ok by blast
  with Cons run b ne show ?thesis
    by (cases "status_of r = 0")
       (auto simp: init_def c_realloc_def memcpy_def heap_simps modify_Some Let_def
          split: if_splits)
qed

text \<open>
  C32: \<open>init\<close> with length 0 on a buffer that holds data: \<open>realloc\<close> frees the block and returns
  \<open>NULL\<close>, which \<open>init\<close> reports as a failed allocation and keeps the freed pointer, so the
  buffer's destructor frees it a second time.
\<close>

theorem init_empty_double_free:
  assumes "heap_ok m" and "cells m p = Some b" and "buf_data b \<noteq> 0"
  shows "\<exists>m'. init p [] m = Ok (False, m') \<and> cells m' p = Some b \<and>
           blocks m' (buf_data b) = None \<and> delete_buffer p m' = Fault"
proof -
  from data_okD [OF heap_okD(2) [OF assms(1)] assms(2,3)]
  have "blocks m (buf_data b) \<noteq> None" by auto
  with assms have "init p [] m = Ok (False, m\<lparr>blocks := (blocks m)(buf_data b := None)\<rparr>)"
    by (simp add: init_def c_realloc_def heap_simps)
  with assms show ?thesis
    by (simp add: delete_buffer_def clear_def load_def c_free_def)
qed

theorem init_empty_double_free_witness:
  "\<exists>m'. init 2 [] sample = Ok (False, m') \<and> blocks m' 10 = None \<and> delete_buffer 2 m' = Fault"
  using init_empty_double_free [OF sample_heap_ok, of 2] by (auto simp: sample_def)

section \<open>What \<open>save\<close> leaves on disk\<close>

text \<open>The state a failed write leaves: the file is unlinked, or a prefix of it stays.\<close>

definition aborted_file :: "string \<Rightarrow> byte list \<Rightarrow> machine \<Rightarrow> bool" where
  "aborted_file f data m \<longleftrightarrow>
     (\<exists>r k. last (trace m) = (File (C_unlink f), r) \<and>
        files m f = (if status_of r = 0 then None else Some (Reg (take k data))))"

lemma sys_write_Ok:
  assumes "sys_write fd (drop w data) m = Ok (ret, m1)" and "w \<le> length data"
    and "ofiles m fd = Some f" and "files m f = Some (Reg (take w data))"
  shows "-1 \<le> ret \<and> w + nat ret \<le> length data \<and> ofiles m1 = ofiles m \<and> same_mem m m1 \<and>
         files m1 = (files m)(f \<mapsto> Reg (take (w + nat ret) data))"
proof (cases "replies m")
  case Nil
  with assms(1) show ?thesis by (simp add: sys_write_def)
next
  case (Cons r rs)
  with assms count_of_bounds [of "length (drop w data)" r] show ?thesis
    by (auto simp: sys_write_def Let_def append_file_def take_add same_mem_def)
qed

lemma wp_sys_unlink:
  "wp (sys_unlink f m) (\<lambda>m1. same_mem m m1 \<and> ofiles m1 = ofiles m \<and>
     (\<exists>r. last (trace m1) = (File (C_unlink f), r) \<and>
        files m1 = (if status_of r = 0 then (files m)(f := None) else files m)))"
  by (auto simp: sys_unlink_def same_mem_def)

lemma wp_save_loop:
  assumes "w \<le> length data" and "ofiles m fd = Some f"
    and "files m f = Some (Reg (take w data))"
  shows "wp (save_loop fd f data w m) (\<lambda>(ok, m'). same_mem m m' \<and>
           (if ok then files m' = (files m)(f \<mapsto> Reg data)
            else (\<forall>g. g \<noteq> f \<longrightarrow> files m' g = files m g) \<and> aborted_file f data m'))"
  using assms
proof (induction fd f data w m rule: save_loop.induct)
  case (1 fd f data w m)
  note unf = save_loop.simps [of fd f data w m]
  show ?case
  proof (cases "w < length data")
    case False
    with "1.prems" show ?thesis
      by (subst unf) (simp add: sys_close_file_def same_mem_def fun_upd_idem)
  next
    case True
    show ?thesis
    proof (cases "sys_write fd (drop w data) m")
      case (Ok x)
      then obtain ret m1 where wr: "sys_write fd (drop w data) m = Ok (ret, m1)" by (cases x) auto
      note w1 = sys_write_Ok [OF wr "1.prems"]
      consider (more) "0 < ret" | (abort) "ret < 0" "errno m1 \<noteq> EINTR"
        | (eintr) "ret < 0" "errno m1 = EINTR" | (zero) "ret = 0" by linarith
      then show ?thesis
      proof cases
        case more
        with "1.IH"(1) [OF True wr refl more] w1 "1.prems"(2) show ?thesis
          by (simp add: unf True wr) (erule wp_mono, auto simp: same_mem_def)
      next
        case abort
        with w1 show ?thesis
          by (simp add: unf True wr)
             (rule wp_mono [OF wp_sys_unlink],
              auto simp: same_mem_def aborted_file_def sys_close_file_def)
      next
        case eintr
        with "1.IH"(2) [OF True wr refl _ eintr(1)] w1 "1.prems"(2) show ?thesis
          by (simp add: unf True wr) (erule wp_mono, auto simp: same_mem_def)
      next
        case zero
        with "1.IH"(3) [OF True wr refl] w1 "1.prems"(2) show ?thesis
          by (simp add: unf True wr) (erule wp_mono, auto simp: same_mem_def)
      qed
    qed (simp_all add: unf True sys_write_def syscall_def Let_def split: list.splits)
  qed
qed

lemma view_eq: "cells m' = cells m \<Longrightarrow> blocks m' = blocks m \<Longrightarrow> view p m' = view p m"
  by (cases "cells m p") (simp_all add: view_def load_def read_block_def)

lemma view_same_mem: "same_mem m m' \<Longrightarrow> view p m' = view p m"
  by (rule view_eq) (simp_all add: same_mem_def)

lemma view_upd_env [simp]:
  "view p (m\<lparr>replies := a, errno := b, trace := c\<rparr>) = view p m"
  "view p (m\<lparr>files := fs\<rparr>) = view p m"
  "view p (m\<lparr>ofiles := os\<rparr>) = view p m"
  "view p (m\<lparr>errno := b\<rparr>) = view p m"
  by (rule view_eq; simp)+

text \<open>The contract of \<open>save\<close>: what it may do to the disk, and that it touches no memory.\<close>

definition save_post :: "string \<Rightarrow> byte list \<Rightarrow> machine \<Rightarrow> bool \<Rightarrow> machine \<Rightarrow> bool" where
  "save_post f data m ok m' \<longleftrightarrow>
     same_mem m m' \<and> (\<forall>g. g \<noteq> f \<longrightarrow> files m' g = files m g) \<and>
     (if ok then files m' f = Some (Reg data)
      else files m' = files m \<or> aborted_file f data m')"

lemma wp_save:
  assumes "view p m = Ok data"
  shows "wp (save p f m) (\<lambda>(ok, m'). save_post f data m ok m')"
  using assms
  by (auto simp: save_def sys_open_write_def save_post_def same_mem_def
      intro!: wp_mono [OF wp_save_loop] split: if_splits)

lemma save_written:
  assumes "view p m = Ok data" and "save p f m = Ok (ok, m')"
  shows "(\<forall>g. g \<noteq> f \<longrightarrow> files m' g = files m g) \<and> same_mem m m' \<and>
         (if ok then files m' f = Some (Reg data)
          else files m' = files m \<or> aborted_file f data m')"
  using wp_Ok [OF wp_save [OF assms(1)] assms(2)] by (simp add: save_post_def)

text \<open>
  C31: \<open>save\<close> returns true only when the file holds exactly the bytes of the buffer; when it
  returns false, no other file has changed either, and the file it opened has been unlinked
  (unless the kernel refused to unlink it). It never touches memory.
\<close>

theorem save_writes_file:
  assumes "view p m = Ok data" and "save p f m = Ok (ok, m')"
  shows "(\<forall>g. g \<noteq> f \<longrightarrow> files m' g = files m g) \<and> same_mem m m' \<and>
         (if ok then files m' f = Some (Reg data)
          else files m' = files m \<or> aborted_file f data m')"
  by (rule save_written [OF assms])

text \<open>An interrupted write, a short one and the rest; and a write that fails.\<close>

theorem save_writes_file_witness:
  "(\<exists>m'. save 2 ''f'' (sample\<lparr>replies := [Ret 5, Err EINTR, Ret 1, Ret 9]\<rparr>) = Ok (True, m') \<and>
      files m' ''f'' = Some (Reg [1, 2])) \<and>
   (\<exists>m'. save 2 ''f'' (sample\<lparr>replies := [Ret 5, Ret 1, Err ENOSPC, Ret 0]\<rparr>) = Ok (False, m') \<and>
      (files m' = Map.empty \<or> aborted_file ''f'' [1, 2] m'))"
proof -
  obtain m1 m2 where
    1: "save 2 ''f'' (sample\<lparr>replies := [Ret 5, Err EINTR, Ret 1, Ret 9]\<rparr>) = Ok (True, m1)" and
    2: "save 2 ''f'' (sample\<lparr>replies := [Ret 5, Ret 1, Err ENOSPC, Ret 0]\<rparr>) = Ok (False, m2)"
    by (simp add: save_def sys_open_write_def sys_write_def sys_unlink_def save_loop.simps
        sys_close_file_def note_call_def view_def load_def read_block_def sample_def Let_def)
  have "files (sample\<lparr>replies := rs\<rparr>) = Map.empty" for rs by (simp add: sample_def)
  with 1 2 save_writes_file [OF sample_views(1) 1] save_writes_file [OF sample_views(1) 2]
  show ?thesis by simp
qed

subsection \<open>\<open>save\<close> returns\<close>

fun write_progress :: "reply \<Rightarrow> bool" where
  "write_progress (Ret n) = (0 < n)"
| "write_progress _ = False"

fun write_answer :: "reply \<Rightarrow> bool" where
  "write_answer (Ret n) = (0 < n)"
| "write_answer (Err e) = (e = EINTR)"
| "write_answer _ = False"

lemma save_loop_returns:
  assumes "replies m = rs" and "\<forall>r \<in> set rs. write_answer r"
    and "length data - w \<le> length (filter write_progress rs)" and "w \<le> length data"
  shows "\<exists>m'. save_loop fd f data w m = Ok (True, m')"
  using assms
proof (induction rs arbitrary: w m)
  case Nil
  then show ?case by (subst save_loop.simps) simp
next
  case (Cons r rs)
  note unf = save_loop.simps [of fd f data w m]
  show ?case
  proof (cases "w < length data")
    case False
    then show ?thesis by (simp add: unf)
  next
    case True
    let ?k = "count_of (length data - w) r"
    let ?m = "m\<lparr>replies := rs, errno := errno_after r (errno m),
                trace := trace m @ [(File (C_write fd (drop w data)), r)],
                files := append_file (ofiles m fd) (take (nat ?k) (drop w data)) (files m)\<rparr>"
    have wr: "sys_write fd (drop w data) m = Ok (?k, ?m)"
      using Cons.prems(1) by (simp add: sys_write_def Let_def)
    from Cons.prems(2) consider (progress) n where "r = Ret n" "0 < n" | (eintr) "r = Err EINTR"
      by (cases r) auto
    then show ?thesis
    proof cases
      case progress
      with True have k: "0 < ?k" "nat ?k \<le> length data - w" by auto
      with progress Cons.prems(3) have "length data - (w + nat ?k) \<le> length (filter write_progress rs)"
        by auto
      from Cons.IH [of ?m, OF _ _ this] Cons.prems(2) k True wr show ?thesis by (simp add: unf)
    next
      case eintr
      with Cons.IH [of ?m w] Cons.prems True wr show ?thesis by (simp add: unf)
    qed
  qed
qed

text \<open>
  \<open>save\<close> returns true when the file opens and the kernel accepts bytes: interrupted writes
  are retried, short writes are continued, and as many accepting answers as there are bytes are
  enough.
\<close>

theorem save_returns:
  assumes "view p m = Ok data" and "replies m = Ret fd # rs" and "0 \<le> fd"
    and "files m f \<noteq> Some Dir" and "\<forall>r \<in> set rs. write_answer r"
    and "length data \<le> length (filter write_progress rs)"
  shows "\<exists>m'. save p f m = Ok (True, m') \<and> files m' f = Some (Reg data)"
proof -
  let ?m = "m\<lparr>replies := rs, errno := errno_after (Ret fd) (errno m),
              trace := trace m @ [(File (C_open f), Ret fd)],
              files := (files m)(f \<mapsto> Reg []), ofiles := (ofiles m)(fd \<mapsto> f)\<rparr>"
  have "view p ?m = Ok data"
    using assms(1) view_eq [of ?m m p] by simp
  moreover obtain m' where "save_loop fd f data 0 ?m = Ok (True, m')"
    using save_loop_returns [of ?m rs data 0 fd f] assms(5,6) by auto
  ultimately have "save p f m = Ok (True, m')"
    using assms(2-4) by (simp add: save_def sys_open_write_def max_def)
  with save_written [OF assms(1) this] show ?thesis by auto
qed

theorem save_returns_witness:
  "\<exists>m'. save 2 ''f'' (sample\<lparr>replies := [Ret 5, Err EINTR, Ret 1, Ret 9]\<rparr>) = Ok (True, m') \<and>
     files m' ''f'' = Some (Reg [1, 2])"
  by (rule save_returns [OF sample_views(1), of _ 5 "[Err EINTR, Ret 1, Ret 9]"])
     (simp_all add: sample_def)

end
