(* ===== verification/Chain.thy ===== *)
theory Chain
  imports Buffer
begin

text \<open>
  Singly linked chains of buffers in the heap. \<open>chain h p xs q\<close>: following \<open>next\<close> from \<open>p\<close>
  visits exactly the buffers \<open>xs\<close> and then arrives at \<open>q\<close>. The free list of the allocator is
  a chain that ends at \<open>nullptr\<close>; the queue is a chain from its header back to its header.
\<close>

fun chain :: "(ptr \<Rightarrow> buffer option) \<Rightarrow> ptr \<Rightarrow> ptr list \<Rightarrow> ptr \<Rightarrow> bool" where
  "chain h p [] q = (p = q)"
| "chain h p (x # xs) q =
     (p = x \<and> (case h x of None \<Rightarrow> False | Some b \<Rightarrow> chain h (buf_next b) xs q))"

lemma chain_append:
  "chain h p (xs @ ys) q \<longleftrightarrow> (\<exists>r. chain h p xs r \<and> chain h r ys q)"
  by (induction xs arbitrary: p) (auto split: option.splits)

lemma chain_snoc:
  "chain h p (xs @ [l]) q \<longleftrightarrow> chain h p xs l \<and> (\<exists>b. h l = Some b \<and> buf_next b = q)"
  by (auto simp: chain_append split: option.splits)

lemma chain_live: "chain h p xs q \<Longrightarrow> x \<in> set xs \<Longrightarrow> \<exists>b. h x = Some b"
  by (induction xs arbitrary: p) (auto split: option.splits)

lemma chain_start: "chain h p xs q \<Longrightarrow> p = (if xs = [] then q else hd xs)"
  by (cases xs) auto

lemma chain_upd_notin [simp]:
  "u \<notin> set xs \<Longrightarrow> chain (h(u := v)) p xs q = chain h p xs q"
  by (induction xs arbitrary: p) (auto split: option.splits)

lemma chain_upd_next:
  "h u = Some b \<Longrightarrow> buf_next b' = buf_next b \<Longrightarrow> chain (h(u \<mapsto> b')) p xs q = chain h p xs q"
  by (induction xs arbitrary: p) (auto split: option.splits)

lemma chain_cong:
  "(\<And>x. x \<in> set xs \<Longrightarrow> map_option buf_next (h x) = map_option buf_next (h' x)) \<Longrightarrow>
     chain h p xs q = chain h' p xs q"
proof (induction xs arbitrary: p)
  case Nil
  then show ?case by simp
next
  case (Cons x xs)
  from Cons.prems [of x] have "map_option buf_next (h x) = map_option buf_next (h' x)" by simp
  with Cons.IH Cons.prems show ?case
    by (cases "h x"; cases "h' x") auto
qed

text \<open>
  The link fields of a heap as maps, and the effect of writing one of them. In this form a
  sequence of link updates is a composition whose fields the simplifier reads off.
\<close>

definition nextof :: "(ptr \<Rightarrow> buffer option) \<Rightarrow> ptr \<Rightarrow> ptr option" where
  "nextof h p = map_option buf_next (h p)"

definition prevof :: "(ptr \<Rightarrow> buffer option) \<Rightarrow> ptr \<Rightarrow> ptr option" where
  "prevof h p = map_option buf_prev (h p)"

definition contentof :: "(ptr \<Rightarrow> buffer option) \<Rightarrow> ptr \<Rightarrow> (ptr \<times> size_t) option" where
  "contentof h p = map_option (\<lambda>b. (buf_data b, buf_length b)) (h p)"

definition upd_next :: "ptr \<Rightarrow> ptr \<Rightarrow> (ptr \<Rightarrow> buffer option) \<Rightarrow> ptr \<Rightarrow> buffer option" where
  "upd_next p x h = h(p := map_option (\<lambda>b. b\<lparr>buf_next := x\<rparr>) (h p))"

definition upd_prev :: "ptr \<Rightarrow> ptr \<Rightarrow> (ptr \<Rightarrow> buffer option) \<Rightarrow> ptr \<Rightarrow> buffer option" where
  "upd_prev p x h = h(p := map_option (\<lambda>b. b\<lparr>buf_prev := x\<rparr>) (h p))"

lemma upd_live [simp]:
  "upd_next p x h q = None \<longleftrightarrow> h q = None"
  "upd_prev p x h q = None \<longleftrightarrow> h q = None"
  by (simp_all add: upd_next_def upd_prev_def)

lemma upd_other [simp]:
  "q \<noteq> p \<Longrightarrow> upd_next p x h q = h q"
  "q \<noteq> p \<Longrightarrow> upd_prev p x h q = h q"
  by (simp_all add: upd_next_def upd_prev_def)

lemma nextof_upd [simp]:
  "h p \<noteq> None \<Longrightarrow> nextof (upd_next p x h) q = (if q = p then Some x else nextof h q)"
  "nextof (upd_prev p x h) q = nextof h q"
  by (auto simp: nextof_def upd_next_def upd_prev_def option.map_comp comp_def)

lemma prevof_upd [simp]:
  "h p \<noteq> None \<Longrightarrow> prevof (upd_prev p x h) q = (if q = p then Some x else prevof h q)"
  "prevof (upd_next p x h) q = prevof h q"
  by (auto simp: prevof_def upd_next_def upd_prev_def option.map_comp comp_def)

lemma contentof_upd [simp]:
  "contentof (upd_next p x h) q = contentof h q"
  "contentof (upd_prev p x h) q = contentof h q"
  by (auto simp: contentof_def upd_next_def upd_prev_def option.map_comp comp_def)

lemma nextof_live: "nextof h p = Some x \<Longrightarrow> h p \<noteq> None"
  by (auto simp: nextof_def)

lemma prevof_live: "prevof h p = Some x \<Longrightarrow> h p \<noteq> None"
  by (auto simp: prevof_def)

lemma get_nextof: "nextof (cells m) p = Some x \<Longrightarrow> get_next p m = Ok x"
  by (auto simp: nextof_def get_next_Some)

lemma get_prevof: "prevof (cells m) p = Some x \<Longrightarrow> get_prev p m = Ok x"
  by (auto simp: prevof_def get_prev_Some)

lemma set_next_upd:
  "cells m p \<noteq> None \<Longrightarrow> set_next p x m = Ok (m\<lparr>cells := upd_next p x (cells m)\<rparr>)"
  by (auto simp: set_next_Some upd_next_def)

lemma set_prev_upd:
  "cells m p \<noteq> None \<Longrightarrow> set_prev p x m = Ok (m\<lparr>cells := upd_prev p x (cells m)\<rparr>)"
  by (auto simp: set_prev_Some upd_prev_def)

lemmas link_simps = get_nextof get_prevof set_next_upd set_prev_upd

lemma chain_Cons_nextof:
  "chain h p (x # xs) q \<longleftrightarrow> p = x \<and> (\<exists>n. nextof h x = Some n \<and> chain h n xs q)"
  by (auto simp: nextof_def split: option.splits)

lemma chain_snoc_nextof:
  "chain h p (xs @ [l]) q \<longleftrightarrow> chain h p xs l \<and> nextof h l = Some q"
  by (auto simp: chain_append chain_Cons_nextof simp del: chain.simps(2))

lemma chain_nextof_cong:
  "(\<And>x. x \<in> set xs \<Longrightarrow> nextof h x = nextof h' x) \<Longrightarrow> chain h p xs q = chain h' p xs q"
  unfolding nextof_def by (rule chain_cong)

text \<open>Redirecting the last buffer of a chain.\<close>

lemma chain_set_last:
  assumes "chain h p (xs @ [l]) q" and "l \<notin> set xs" and "h l = Some b"
  shows "chain (h(l \<mapsto> b\<lparr>buf_next := r\<rparr>)) p (xs @ [l]) r"
  using assms by (simp add: chain_snoc)

lemma chain_unique:
  "chain h p xs q \<Longrightarrow> chain h p ys q \<Longrightarrow> q \<notin> set xs \<Longrightarrow> q \<notin> set ys \<Longrightarrow> xs = ys"
proof (induction xs arbitrary: p ys)
  case Nil
  then show ?case by (cases ys) auto
next
  case (Cons x xs)
  then obtain ys' where "ys = x # ys'" by (cases ys) auto
  with Cons show ?case by (auto split: option.splits)
qed

text \<open>A chain that does not come back to its end visits no buffer twice.\<close>

lemma chain_distinct: "chain h p xs q \<Longrightarrow> q \<notin> set xs \<Longrightarrow> distinct xs"
proof (induction xs arbitrary: p)
  case Nil
  then show ?case by simp
next
  case (Cons x xs)
  have "x \<notin> set xs"
  proof
    assume "x \<in> set xs"
    then obtain as bs where split: "xs = as @ x # bs" by (meson split_list)
    from Cons.prems split have "chain h x (x # as @ x # bs) q" by (auto split: option.splits)
    moreover from this have "chain h x (x # bs) q"
      by (auto simp: chain_append split: option.splits)
    ultimately show False
      using chain_unique [of h x "x # as @ x # bs" q "x # bs"] Cons.prems(2) split by auto
  qed
  with Cons show ?case by (auto split: option.splits)
qed

lemma chain_addresses:
  assumes "heap_ok m" and "chain (cells m) p xs q"
  shows "set xs \<subseteq> {1..<brk m}"
proof
  fix x assume "x \<in> set xs"
  with chain_live [OF assms(2)] obtain b where "cells m x = Some b" by blast
  with addr_ok_cell [OF heap_okD(1) [OF assms(1)]] show "x \<in> {1..<brk m}" by force
qed

text \<open>The addresses in use bound the length of a chain, which is the fuel of the walks over it.\<close>

lemma chain_length:
  assumes "heap_ok m" and "chain (cells m) p xs q" and "distinct xs"
  shows "length xs < brk m"
proof -
  have "length xs = card (set xs)" using assms(3) by (simp add: distinct_card)
  also have "\<dots> \<le> card {1..<brk m}"
    by (intro card_mono chain_addresses [OF assms(1,2)]) simp
  also have "\<dots> < brk m" using addr_ok_brk [OF heap_okD(1) [OF assms(1)]] by simp
  finally show ?thesis .
qed

text \<open>
  Two machines whose buffers agree on a chain up to their \<open>prev\<close> fields: what writing
  \<open>prev\<close> fields, and anything done to other buffers, leaves of the contents.
\<close>

definition same_contents :: "ptr set \<Rightarrow> machine \<Rightarrow> machine \<Rightarrow> bool" where
  "same_contents P m m' \<longleftrightarrow>
     (\<forall>p \<in> P. contentof (cells m') p = contentof (cells m) p) \<and>
     blocks m' = blocks m"

lemma same_contents_view:
  assumes "same_contents P m m'" and "p \<in> P"
  shows "view p m' = view p m"
proof (cases "cells m p")
  case None
  with assms have "cells m' p = None" by (auto simp: same_contents_def contentof_def)
  with None show ?thesis by (simp add: view_def load_def)
next
  case (Some b)
  with assms obtain b' where "cells m' p = Some b'" "buf_data b' = buf_data b"
    "buf_length b' = buf_length b" "blocks m' = blocks m"
    by (auto simp: same_contents_def contentof_def dest!: bspec)
  with Some show ?thesis by (simp add: view_Some read_block_def)
qed

section \<open>Deleting a chain\<close>

text \<open>
  Walks that delete a chain. A live chain has fewer buffers than there are addresses below
  \<open>brk\<close>, so \<open>brk m\<close> steps are enough for every walk that ends.
\<close>

fun delete_chain :: "nat \<Rightarrow> ptr \<Rightarrow> ptr \<Rightarrow> machine \<Rightarrow> machine res" where
  "delete_chain 0 buf stop m = (if buf = stop then Ok m else Blocked)"
| "delete_chain (Suc fuel) buf stop m =
     (if buf \<noteq> stop then
        andThen (get_next buf m) (\<lambda>next.
        andThen (delete_buffer buf m) (\<lambda>m.
          delete_chain fuel next stop m))
      else Ok m)"

lemma delete_chain_Ok:
  assumes "heap_ok m" and "chain (cells m) p xs q" and "distinct xs" and "q \<notin> set xs"
    and "length xs \<le> fuel"
  shows "\<exists>m'. delete_chain fuel p q m = Ok m' \<and> heap_ok m' \<and>
           cells m' = (\<lambda>x. if x \<in> set xs then None else cells m x)"
  using assms
proof (induction xs arbitrary: p m fuel)
  case Nil
  then show ?case by (cases fuel) auto
next
  case (Cons x xs)
  then obtain b f where b: "cells m x = Some b" and p: "p = x" and f: "fuel = Suc f"
    and ch: "chain (cells m) (buf_next b) xs q" by (cases fuel) (auto split: option.splits)
  let ?m = "m\<lparr>cells := (cells m)(x := None), blocks := (blocks m)(buf_data b := None)\<rparr>"
  note del = delete_buffer_Ok [OF Cons.prems(1) b]
  have "chain (cells ?m) (buf_next b) xs q" using ch Cons.prems(3) by simp
  from Cons.IH [OF del(2) this] Cons.prems(3-5) f obtain m' where
    "delete_chain f (buf_next b) q ?m = Ok m'" "heap_ok m'"
    "cells m' = (\<lambda>y. if y \<in> set xs then None else cells ?m y)" by auto
  with b p f del(1) Cons.prems(4) show ?case by (auto simp: get_next_Some)
qed

end
