(* ===== verification/Interfaces.thy ===== *)
theory Interfaces
  imports Prelude
begin

text \<open>
  The interfaces between the components, as locales: what a client may call (\<open>fixes\<close>) and what
  the provider promises (\<open>assumes\<close>). The states are type parameters, so that a client's lemmas
  cannot depend on how a provider represents them.
\<close>

section \<open>A queue of buffers\<close>

text \<open>
  \<open>holds m q xs\<close>: in machine \<open>m\<close> the queue \<open>q\<close> holds the buffers \<open>xs\<close>, first to last.
  \<open>owns m q xs zs\<close>: the caller owns the chain \<open>zs\<close>, none of which is among \<open>xs\<close>.
\<close>

locale buffer_queue =
  fixes inv :: "'m \<Rightarrow> bool"
    and holds :: "'m \<Rightarrow> 'q \<Rightarrow> 'b list \<Rightarrow> bool"
    and owns :: "'m \<Rightarrow> 'q \<Rightarrow> 'b list \<Rightarrow> 'b list \<Rightarrow> bool"
    and push_front_all :: "'b list \<Rightarrow> 'q \<Rightarrow> 'm \<Rightarrow> (size_t \<times> 'q \<times> 'm) res"
    and push_back_all :: "'b list \<Rightarrow> 'q \<Rightarrow> 'm \<Rightarrow> (size_t \<times> 'q \<times> 'm) res"
    and take_first :: "'q \<Rightarrow> 'm \<Rightarrow> ('b option \<times> 'q \<times> 'm) res"
    and take_all :: "'q \<Rightarrow> 'm \<Rightarrow> ('b list \<times> 'q \<times> 'm) res"
  assumes push_front_law:
      "inv m \<Longrightarrow> holds m q xs \<Longrightarrow> owns m q xs zs \<Longrightarrow>
         \<exists>q' m'. push_front_all zs q m = Ok (of_nat (length (zs @ xs)), q', m') \<and>
           inv m' \<and> holds m' q' (zs @ xs)"
    and push_back_law:
      "inv m \<Longrightarrow> holds m q xs \<Longrightarrow> owns m q xs zs \<Longrightarrow>
         \<exists>q' m'. push_back_all zs q m = Ok (of_nat (length (xs @ zs)), q', m') \<and>
           inv m' \<and> holds m' q' (xs @ zs)"
    and take_first_empty: "inv m \<Longrightarrow> holds m q [] \<Longrightarrow> take_first q m = Ok (None, q, m)"
    and take_first_law:
      "inv m \<Longrightarrow> holds m q (x # xs) \<Longrightarrow>
         \<exists>q' m'. take_first q m = Ok (Some x, q', m') \<and> inv m' \<and> holds m' q' xs"
    and take_all_empty: "inv m \<Longrightarrow> holds m q [] \<Longrightarrow> take_all q m = Ok ([], q, m)"
    and take_all_law:
      "inv m \<Longrightarrow> holds m q xs \<Longrightarrow> xs \<noteq> [] \<Longrightarrow>
         \<exists>q' m'. take_all q m = Ok (xs, q', m') \<and> inv m' \<and> holds m' q' [] \<and> owns m' q' [] xs"
begin

text \<open>Buffers come out in the order in which they were pushed at the back.\<close>

lemma fifo:
  assumes "inv m" and "holds m q (x # xs)" and "owns m q (x # xs) zs"
  shows "\<exists>q1 m1 q2 m2. push_back_all zs q m = Ok (of_nat (length (x # xs @ zs)), q1, m1) \<and>
           take_first q1 m1 = Ok (Some x, q2, m2) \<and> inv m2 \<and> holds m2 q2 (xs @ zs)"
proof -
  from push_back_law [OF assms] obtain q1 m1 where
    1: "push_back_all zs q m = Ok (of_nat (length (x # xs @ zs)), q1, m1)" "inv m1"
       "holds m1 q1 (x # xs @ zs)" by auto
  from take_first_law [OF this(2,3)] 1(1) show ?thesis by blast
qed

text \<open>Taking everything and returning it to the front restores the queue.\<close>

lemma return_all:
  assumes "inv m" and "holds m q xs" and "xs \<noteq> []"
  shows "\<exists>q1 m1 q2 m2. take_all q m = Ok (xs, q1, m1) \<and> holds m1 q1 [] \<and>
           push_front_all xs q1 m1 = Ok (of_nat (length xs), q2, m2) \<and> inv m2 \<and> holds m2 q2 xs"
proof -
  from take_all_law [OF assms] obtain q1 m1 where
    1: "take_all q m = Ok (xs, q1, m1)" "inv m1" "holds m1 q1 []" "owns m1 q1 [] xs" by auto
  from push_front_law [OF this(2-4)] 1(1,3) show ?thesis by auto
qed

text \<open>Draining a queue one by one gives its list.\<close>

fun drain :: "nat \<Rightarrow> 'q \<Rightarrow> 'm \<Rightarrow> ('b list \<times> 'q \<times> 'm) res" where
  "drain 0 q m = Ok ([], q, m)"
| "drain (Suc n) q m =
     andThen (take_first q m) (\<lambda>(b, q, m).
       case b of
         None \<Rightarrow> Ok ([], q, m)
       | Some x \<Rightarrow> andThen (drain n q m) (\<lambda>(xs, q, m). Ok (x # xs, q, m)))"

lemma drain_all:
  assumes "inv m" and "holds m q xs" and "length xs \<le> n"
  shows "\<exists>q' m'. drain n q m = Ok (xs, q', m') \<and> inv m' \<and> holds m' q' []"
  using assms
proof (induction xs arbitrary: n q m)
  case Nil
  then show ?case by (cases n) (auto simp: take_first_empty)
next
  case (Cons x xs)
  then obtain k where n: "n = Suc k" "length xs \<le> k" by (cases n) auto
  from take_first_law [OF Cons.prems(1,2)] obtain q1 m1 where
    1: "take_first q m = Ok (Some x, q1, m1)" "inv m1" "holds m1 q1 xs" by auto
  from Cons.IH [OF this(2,3) n(2)] 1(1) n(1) show ?case by auto
qed

end

section \<open>A pool of buffers\<close>

locale buffer_pool =
  fixes inv :: "'m \<Rightarrow> bool"
    and pool :: "'m \<Rightarrow> 'a \<Rightarrow> 'b list \<Rightarrow> bool"
    and live :: "'m \<Rightarrow> 'b \<Rightarrow> bool"
    and put :: "'b \<Rightarrow> 'a \<Rightarrow> 'm \<Rightarrow> ('a \<times> 'm) res"
    and get_stock :: "'a \<Rightarrow> 'm \<Rightarrow> ('b \<times> 'a \<times> 'm) res"
  assumes put_law:
      "inv m \<Longrightarrow> pool m a xs \<Longrightarrow> live m p \<Longrightarrow> p \<notin> set xs \<Longrightarrow>
         \<exists>a' m'. put p a m = Ok (a', m') \<and> inv m' \<and> pool m' a' (p # xs) \<and>
           (\<forall>r. live m' r = live m r)"
    and get_law:
      "inv m \<Longrightarrow> pool m a (x # xs) \<Longrightarrow>
         \<exists>a' m'. get_stock a m = Ok (x, a', m') \<and> inv m' \<and> pool m' a' xs \<and> (\<forall>r. live m' r = live m r)"
begin

text \<open>Returning a list of buffers puts them all in the pool, the last returned in front.\<close>

fun put_all :: "'b list \<Rightarrow> 'a \<Rightarrow> 'm \<Rightarrow> ('a \<times> 'm) res" where
  "put_all [] a m = Ok (a, m)"
| "put_all (p # ps) a m = andThen (put p a m) (\<lambda>(a, m). put_all ps a m)"

lemma put_all_pool:
  assumes "inv m" and "pool m a xs" and "\<forall>p \<in> set ps. live m p" and "distinct ps"
    and "set ps \<inter> set xs = {}"
  shows "\<exists>a' m'. put_all ps a m = Ok (a', m') \<and> inv m' \<and> pool m' a' (rev ps @ xs)"
  using assms
proof (induction ps arbitrary: a m xs)
  case Nil
  then show ?case by simp
next
  case (Cons p ps)
  then obtain a1 m1 where 1: "put p a m = Ok (a1, m1)" "inv m1" "pool m1 a1 (p # xs)"
    "\<forall>r. live m1 r = live m r" using put_law [of m a xs p] by auto
  with Cons.IH [of m1 a1 "p # xs"] Cons.prems show ?case by auto
qed

lemma put_then_get:
  assumes "inv m" and "pool m a xs" and "live m p" and "p \<notin> set xs"
  shows "\<exists>a1 m1 a2 m2. put p a m = Ok (a1, m1) \<and> get_stock a1 m1 = Ok (p, a2, m2) \<and>
           inv m2 \<and> pool m2 a2 xs"
proof -
  from put_law [OF assms] obtain a1 m1 where
    1: "put p a m = Ok (a1, m1)" "inv m1" "pool m1 a1 (p # xs)" by blast
  from get_law [OF this(2,3)] 1(1) show ?thesis by blast
qed

end

end
