(* ===== verification/Buffers.thy ===== *)
theory Buffers
  imports Chain Interfaces
begin

text \<open>
  \<open>net::buffers\<close> (net/buffers.h, net/buffers.cpp): the queue of buffers the producers and the
  sender thread share, a circular list through an embedded header with a count, a mutex and a
  condition variable. It is abstracted to the list of the buffers it holds, first to last.
  The waiting operations are in the theory \<open>Buffers_Timed\<close>.
\<close>

record buffers =
  header :: ptr
  count :: size_t
  q_locked :: bool

text \<open>The constructor. The header is a member: its storage comes with the object.\<close>

definition new_buffers :: "machine \<Rightarrow> (buffers \<times> machine) res" where
  "new_buffers m =
     (let h = brk m;
          m = m\<lparr>cells := (cells m)(h \<mapsto>
                  \<lparr>buf_data = nullptr, buf_length = 0, buf_prev = nullptr, buf_next = nullptr\<rparr>),
                brk := brk m + 1\<rparr> in
      andThen (set_prev h h m) (\<lambda>m.
      andThen (set_next h h m) (\<lambda>m.
        Ok (\<lparr>header = h, count = 0, q_locked = False\<rparr>, m))))"

text \<open>
  The number of buffers from \<open>first\<close> to \<open>final\<close> (\<open>last\<close> in the code). A walk of more steps than there are addresses
  runs in a cycle that misses \<open>last\<close>, and never returns.
\<close>

fun distance_loop :: "nat \<Rightarrow> ptr \<Rightarrow> ptr \<Rightarrow> size_t \<Rightarrow> machine \<Rightarrow> size_t res" where
  "distance_loop 0 first final n m = (if first \<noteq> final then Blocked else Ok n)"
| "distance_loop (Suc fuel) first final n m =
     (if first \<noteq> final then
        andThen (get_next first m) (\<lambda>first. distance_loop fuel first final (n + 1) m)
      else Ok n)"

definition distance :: "ptr \<Rightarrow> ptr \<Rightarrow> machine \<Rightarrow> size_t res" where
  "distance first final m = distance_loop (brk m) first final 1 m"

definition cond_signal :: "machine \<Rightarrow> machine" where
  "cond_signal m = note_call (Host C_cond_signal) m"

definition push_front :: "ptr \<Rightarrow> buffers \<Rightarrow> machine \<Rightarrow> (size_t \<times> buffers \<times> machine) res" where
  "push_front buf q m =
     andThen (mutex_lock (q_locked q)) (\<lambda>l. let q = q\<lparr>q_locked := l\<rparr> in
     andThen (set_prev buf (header q) m) (\<lambda>m.
     andThen (get_next (header q) m) (\<lambda>n.
     andThen (set_next buf n m) (\<lambda>m.
     andThen (get_next (header q) m) (\<lambda>n.
     andThen (set_prev n buf m) (\<lambda>m.
     andThen (set_next (header q) buf m) (\<lambda>m.
     let q = q\<lparr>count := count q + 1\<rparr>; c = count q; m = cond_signal m in
     andThen (mutex_unlock (q_locked q)) (\<lambda>l. Ok (c, q\<lparr>q_locked := l\<rparr>, m)))))))))"

definition push_front_chain ::
    "ptr \<Rightarrow> ptr \<Rightarrow> buffers \<Rightarrow> machine \<Rightarrow> (size_t \<times> buffers \<times> machine) res" where
  "push_front_chain first final q m =
     andThen (distance first final m) (\<lambda>n.
     andThen (mutex_lock (q_locked q)) (\<lambda>l. let q = q\<lparr>q_locked := l\<rparr> in
     andThen (set_prev first (header q) m) (\<lambda>m.
     andThen (get_next (header q) m) (\<lambda>x.
     andThen (set_next final x m) (\<lambda>m.
     andThen (get_next (header q) m) (\<lambda>x.
     andThen (set_prev x final m) (\<lambda>m.
     andThen (set_next (header q) first m) (\<lambda>m.
     let q = q\<lparr>count := count q + n\<rparr>; c = count q; m = cond_signal m in
     andThen (mutex_unlock (q_locked q)) (\<lambda>l. Ok (c, q\<lparr>q_locked := l\<rparr>, m))))))))))"

definition push_back :: "ptr \<Rightarrow> buffers \<Rightarrow> machine \<Rightarrow> (size_t \<times> buffers \<times> machine) res" where
  "push_back buf q m =
     andThen (mutex_lock (q_locked q)) (\<lambda>l. let q = q\<lparr>q_locked := l\<rparr> in
     andThen (get_prev (header q) m) (\<lambda>x.
     andThen (set_prev buf x m) (\<lambda>m.
     andThen (set_next buf (header q) m) (\<lambda>m.
     andThen (get_prev (header q) m) (\<lambda>x.
     andThen (set_next x buf m) (\<lambda>m.
     andThen (set_prev (header q) buf m) (\<lambda>m.
     let q = q\<lparr>count := count q + 1\<rparr>; c = count q; m = cond_signal m in
     andThen (mutex_unlock (q_locked q)) (\<lambda>l. Ok (c, q\<lparr>q_locked := l\<rparr>, m)))))))))"

definition push_back_chain ::
    "ptr \<Rightarrow> ptr \<Rightarrow> buffers \<Rightarrow> machine \<Rightarrow> (size_t \<times> buffers \<times> machine) res" where
  "push_back_chain first final q m =
     andThen (distance first final m) (\<lambda>n.
     andThen (mutex_lock (q_locked q)) (\<lambda>l. let q = q\<lparr>q_locked := l\<rparr> in
     andThen (get_prev (header q) m) (\<lambda>x.
     andThen (set_prev first x m) (\<lambda>m.
     andThen (set_next final (header q) m) (\<lambda>m.
     andThen (get_prev (header q) m) (\<lambda>x.
     andThen (set_next x first m) (\<lambda>m.
     andThen (set_prev (header q) final m) (\<lambda>m.
     let q = q\<lparr>count := count q + n\<rparr>; c = count q; m = cond_signal m in
     andThen (mutex_unlock (q_locked q)) (\<lambda>l. Ok (c, q\<lparr>q_locked := l\<rparr>, m))))))))))"

text \<open>Taking the first buffer out, which the two versions of \<open>pop_front\<close> share.\<close>

definition unlink_first :: "ptr \<Rightarrow> buffers \<Rightarrow> machine \<Rightarrow> (buffers \<times> machine) res" where
  "unlink_first buf q m =
     andThen (get_next buf m) (\<lambda>n.
     andThen (set_prev n (header q) m) (\<lambda>m.
     andThen (get_next buf m) (\<lambda>n.
     andThen (set_next (header q) n m) (\<lambda>m.
       Ok (q\<lparr>count := count q - 1\<rparr>, m)))))"

definition pop_front :: "buffers \<Rightarrow> machine \<Rightarrow> (ptr \<times> buffers \<times> machine) res" where
  "pop_front q m =
     andThen (mutex_lock (q_locked q)) (\<lambda>l. let q = q\<lparr>q_locked := l\<rparr> in
     andThen (get_next (header q) m) (\<lambda>buf.
     andThen (if buf \<noteq> header q
              then andThen (unlink_first buf q m) (\<lambda>(q, m). Ok (buf, q, m))
              else Ok (nullptr, q, m)) (\<lambda>(buf, q, m).
     andThen (mutex_unlock (q_locked q)) (\<lambda>l. Ok (buf, q\<lparr>q_locked := l\<rparr>, m)))))"

text \<open>Taking everything out, which the two versions of \<open>pop\<close> share.\<close>

definition unlink_all :: "buffers \<Rightarrow> machine \<Rightarrow> (size_t \<times> ptr \<times> ptr \<times> buffers \<times> machine) res" where
  "unlink_all q m =
     andThen (get_next (header q) m) (\<lambda>first.
     andThen (get_prev (header q) m) (\<lambda>final. let c = count q in
     andThen (set_prev (header q) (header q) m) (\<lambda>m.
     andThen (set_next (header q) (header q) m) (\<lambda>m.
       Ok (c, first, final, q\<lparr>count := 0\<rparr>, m)))))"

definition pop_all :: "buffers \<Rightarrow> machine \<Rightarrow> (size_t \<times> ptr \<times> ptr \<times> buffers \<times> machine) res" where
  "pop_all q m =
     andThen (mutex_lock (q_locked q)) (\<lambda>l. let q = q\<lparr>q_locked := l\<rparr> in
     andThen (get_next (header q) m) (\<lambda>n.
     if n \<noteq> header q then
       andThen (unlink_all q m) (\<lambda>(c, first, final, q, m).
       andThen (mutex_unlock (q_locked q)) (\<lambda>l.
         Ok (c, first, final, q\<lparr>q_locked := l\<rparr>, m)))
     else
       andThen (mutex_unlock (q_locked q)) (\<lambda>l.
         Ok (0, nullptr, nullptr, q\<lparr>q_locked := l\<rparr>, m))))"

text \<open>The destructor deletes the buffers still queued; the header goes with the object.\<close>

definition buffers_destroy :: "buffers \<Rightarrow> machine \<Rightarrow> machine res" where
  "buffers_destroy q m =
     andThen (get_next (header q) m) (\<lambda>buf. delete_chain (brk m) buf (header q) m)"

section \<open>The list a queue holds\<close>

definition ring :: "(ptr \<Rightarrow> buffer option) \<Rightarrow> ptr \<Rightarrow> ptr list \<Rightarrow> bool" where
  "ring h z xs \<longleftrightarrow>
     distinct (z # xs) \<and> chain h z (z # xs) z \<and> prevof h z = Some (last (z # xs))"

definition queue_list :: "machine \<Rightarrow> buffers \<Rightarrow> ptr list \<Rightarrow> bool" where
  "queue_list m q xs \<longleftrightarrow>
     \<not> q_locked q \<and> ring (cells m) (header q) xs \<and> count q = of_nat (length xs)"

text \<open>
  An operation that only relinks buffers of \<open>A\<close>: contents, blocks, addresses, files and the
  answers still to come are what they were.
\<close>

definition relinked :: "ptr set \<Rightarrow> machine \<Rightarrow> machine \<Rightarrow> bool" where
  "relinked A m m' \<longleftrightarrow>
     m' = m\<lparr>cells := cells m', trace := trace m'\<rparr> \<and>
     (\<forall>p. p \<notin> A \<longrightarrow> cells m' p = cells m p) \<and>
     (\<forall>p. contentof (cells m') p = contentof (cells m) p)"

lemma relinked_fields:
  assumes "relinked A m m'"
  shows "blocks m' = blocks m" "brk m' = brk m" "files m' = files m" "ofiles m' = ofiles m"
    "tz m' = tz m" "errno m' = errno m" "replies m' = replies m"
proof -
  from assms have eq: "m' = m\<lparr>cells := cells m', trace := trace m'\<rparr>" by (simp add: relinked_def)
  show "blocks m' = blocks m" "brk m' = brk m" "files m' = files m" "ofiles m' = ofiles m"
    "tz m' = tz m" "errno m' = errno m" "replies m' = replies m"
    by (subst eq, simp)+
qed

lemma contentof_Some:
  assumes "contentof h' p = contentof h p" and "h' p = Some b'"
  shows "\<exists>b. h p = Some b \<and> buf_data b = buf_data b' \<and> buf_length b = buf_length b'"
  using assms by (cases "h p") (auto simp: contentof_def)

lemma relinked_heap_ok:
  assumes "relinked A m m'" and "heap_ok m"
  shows "heap_ok m'"
proof -
  note f = relinked_fields [OF assms(1)] and ok = heap_okD [OF assms(2)]
  have c: "\<exists>b. cells m p = Some b \<and> buf_data b = buf_data b' \<and> buf_length b = buf_length b'"
    if "cells m' p = Some b'" for p b'
    using assms(1) that contentof_Some [of "cells m'" p "cells m" b'] by (simp add: relinked_def)
  have "addr_ok m'"
    using ok(1) c unfolding addr_ok_def f by blast
  moreover have "data_ok m'"
    using ok(2) c unfolding data_ok_def f by metis
  moreover have "owner_ok m'"
    unfolding owner_ok_def
  proof (intro allI impI)
    fix p q b' c'
    assume "cells m' p = Some b'" "cells m' q = Some c'" "p \<noteq> q" "buf_data b' \<noteq> 0"
    with c [of p b'] c [of q c'] owner_okD [OF ok(3)] show "buf_data b' \<noteq> buf_data c'" by metis
  qed
  ultimately show ?thesis by (simp add: heap_ok_def)
qed

lemma relinked_view: "relinked A m m' \<Longrightarrow> view p m' = view p m"
  using relinked_fields(1) [of A m m']
  by (intro same_contents_view [of UNIV]) (auto simp: same_contents_def relinked_def)

lemma relinked_mono: "relinked A m m' \<Longrightarrow> A \<subseteq> B \<Longrightarrow> relinked B m m'"
  unfolding relinked_def by blast

text \<open>How splicing a chain into a ring, and taking buffers out of it, acts on the links.\<close>

lemma ring_front:
  assumes "ring h z xs" and "chain h f (ys @ [l]) r" and "distinct (ys @ [l])"
    and "set (ys @ [l]) \<inter> set (z # xs) = {}"
    and "\<And>p. p \<noteq> l \<Longrightarrow> p \<noteq> z \<Longrightarrow> nextof h' p = nextof h p"
    and "nextof h' l = nextof h z" and "nextof h' z = Some f"
    and "prevof h' z = (if xs = [] then Some l else prevof h z)"
  shows "ring h' z (ys @ l # xs)"
proof -
  from assms(1) obtain n where n: "nextof h z = Some n" "chain h n xs z"
    by (auto simp: ring_def chain_Cons_nextof simp del: chain.simps(2))
  have "nextof h' x = nextof h x" if "x \<in> set xs" for x
    using that assms(1,4) by (intro assms(5)) (auto simp: ring_def)
  with n(2) have "chain h' n xs z" by (simp only: chain_nextof_cong [of xs h' h])
  moreover have "nextof h' x = nextof h x" if "x \<in> set ys" for x
    using that assms(3,4) by (intro assms(5)) auto
  with assms(2) have "chain h' f ys l"
    by (simp only: chain_snoc_nextof chain_nextof_cong [of ys h' h])
  ultimately have "chain h' z (z # ys @ l # xs) z"
    using assms(6,7) n(1)
    by (auto simp: chain_Cons_nextof chain_append simp del: chain.simps(2))
  with assms(1,3,4,8) show ?thesis by (auto simp: ring_def)
qed

lemma ring_back:
  assumes "ring h z xs" and "chain h f (ys @ [l]) r" and "distinct (ys @ [l])"
    and "set (ys @ [l]) \<inter> set (z # xs) = {}"
    and "\<And>p. p \<noteq> l \<Longrightarrow> p \<noteq> last (z # xs) \<Longrightarrow> nextof h' p = nextof h p"
    and "nextof h' l = Some z" and "nextof h' (last (z # xs)) = Some f"
    and "prevof h' z = Some l"
  shows "ring h' z (xs @ ys @ [l])"
proof -
  obtain i e where split: "z # xs = i @ [e]" by (metis list.distinct(1) rev_exhaust)
  then have e: "last (z # xs) = e" by (metis last_snoc)
  note same = assms(5) [unfolded e]
  have disj: "set (ys @ [l]) \<inter> set (i @ [e]) = {}" using assms(4) unfolding split .
  from assms(1) have ch: "chain h z (i @ [e]) z" and dist: "distinct (i @ [e])"
    unfolding ring_def split by blast+
  have "nextof h' x = nextof h x" if "x \<in> set i" for x
    using that disj dist by (intro same) auto
  with ch have "chain h' z i e" by (simp only: chain_snoc_nextof chain_nextof_cong [of i h' h])
  moreover have "nextof h' x = nextof h x" if "x \<in> set ys" for x
    using that disj assms(3) by (intro same) auto
  with assms(2) have "chain h' f ys l"
    by (simp only: chain_snoc_nextof chain_nextof_cong [of ys h' h])
  ultimately have "chain h' z ((i @ [e]) @ ys @ [l]) z"
    using assms(6,7) unfolding e
    by (auto simp: chain_append chain_Cons_nextof simp del: chain.simps(2))
  then have "chain h' z (z # xs @ ys @ [l]) z" unfolding split [symmetric] by simp
  with assms(1,3,4,8) show ?thesis by (auto simp: ring_def)
qed

lemma ring_drop_first:
  assumes "ring h z (x # xs)" and "nextof h' z = nextof h x"
    and "\<And>p. p \<noteq> z \<Longrightarrow> nextof h' p = nextof h p"
    and "prevof h' z = (if xs = [] then Some z else prevof h z)"
  shows "ring h' z xs"
proof -
  from assms(1) obtain n where n: "nextof h x = Some n" "chain h n xs z"
    by (auto simp: ring_def chain_Cons_nextof simp del: chain.simps(2))
  have "nextof h' p = nextof h p" if "p \<in> set xs" for p
    using that assms(1) by (intro assms(3)) (auto simp: ring_def)
  with n(2) have "chain h' n xs z" by (simp only: chain_nextof_cong [of xs h' h])
  with n assms(1,2,4) show ?thesis
    by (auto simp: ring_def chain_Cons_nextof simp del: chain.simps(2))
qed

lemma ring_live: "ring h z xs \<Longrightarrow> p \<in> set (z # xs) \<Longrightarrow> h p \<noteq> None"
  unfolding ring_def using chain_live by fastforce

lemma ring_next: "ring h z xs \<Longrightarrow> nextof h z = Some (if xs = [] then z else hd xs)"
  by (auto simp: ring_def chain_Cons_nextof dest: chain_start simp del: chain.simps(2))

lemma ring_prev: "ring h z xs \<Longrightarrow> prevof h z = Some (last (z # xs))"
  by (simp add: ring_def)

section \<open>Counting a chain\<close>

lemma distance_loop_Ok:
  assumes "chain (cells m) p xs l" and "l \<notin> set xs" and "length xs \<le> fuel"
  shows "distance_loop fuel p l n m = Ok (n + of_nat (length xs))"
  using assms
proof (induction xs arbitrary: p n fuel)
  case Nil
  then show ?case by (cases fuel) auto
next
  case (Cons x xs)
  then obtain nx f where "p = x" "nextof (cells m) x = Some nx" "chain (cells m) nx xs l"
    "fuel = Suc f" by (cases fuel) (auto simp: chain_Cons_nextof simp del: chain.simps(2))
  with Cons show ?case by (simp add: get_nextof algebra_simps)
qed

lemma distance_Ok:
  assumes "heap_ok m" and "chain (cells m) f (ys @ [l]) r" and "distinct (ys @ [l])"
  shows "distance f l m = Ok (of_nat (length (ys @ [l])))"
proof -
  have "length ys \<le> brk m" using chain_length [OF assms] by simp
  with distance_loop_Ok [of m f ys l] assms(2,3) show ?thesis
    by (simp add: distance_def chain_snoc_nextof)
qed

section \<open>The operations on the list\<close>

text \<open>
  A chain the caller owns: linked by \<open>next\<close> from \<open>first\<close> to \<open>final\<close>, no buffer twice, none of
  them in the queue. Where its last buffer points, and its \<open>prev\<close> fields, do not matter.
\<close>

definition own_chain :: "machine \<Rightarrow> buffers \<Rightarrow> ptr list \<Rightarrow> ptr \<Rightarrow> ptr list \<Rightarrow> ptr \<Rightarrow> bool" where
  "own_chain m q xs first zs final \<longleftrightarrow>
     zs \<noteq> [] \<and> final = last zs \<and> distinct zs \<and> set zs \<inter> set (header q # xs) = {} \<and>
     (case nextof (cells m) final of None \<Rightarrow> False | Some r \<Rightarrow> chain (cells m) first zs r)"

lemma own_chain_split:
  assumes "own_chain m q xs first zs final"
  obtains ys r where "zs = ys @ [final]" "chain (cells m) first (ys @ [final]) r"
    "distinct (ys @ [final])" "set (ys @ [final]) \<inter> set (header q # xs) = {}"
    "cells m first \<noteq> None" "cells m final \<noteq> None" "first \<in> set zs"
proof -
  from assms obtain r where r: "chain (cells m) first zs r" and ne: "zs \<noteq> []" "final = last zs"
    by (auto simp: own_chain_def split: option.splits)
  then have "first \<in> set zs" by (auto dest: chain_start)
  moreover have "cells m p \<noteq> None" if "p \<in> set zs" for p using chain_live [OF r that] by auto
  ultimately show ?thesis
    using that [of "butlast zs" r] assms r ne
    by (simp add: own_chain_def)
qed

lemma push_front_chain_Ok:
  assumes ok: "heap_ok m" and q: "queue_list m q xs" and own: "own_chain m q xs first zs final"
  shows "\<exists>q' m'. push_front_chain first final q m = Ok (of_nat (length (zs @ xs)), q', m') \<and>
           queue_list m' q' (zs @ xs) \<and> header q' = header q \<and>
           relinked (set (zs @ header q # xs)) m m'"
proof -
  obtain ys r where zs: "zs = ys @ [final]" and ch: "chain (cells m) first (ys @ [final]) r"
    and dist: "distinct (ys @ [final])" and disj: "set (ys @ [final]) \<inter> set (header q # xs) = {}"
    and live: "cells m first \<noteq> None" "cells m final \<noteq> None" and fin: "first \<in> set zs"
    using own_chain_split [OF own] .
  let ?h = "header q" and ?c = "cells m"
  from q have ring: "ring ?c ?h xs" and unl: "\<not> q_locked q" and cnt: "count q = of_nat (length xs)"
    by (simp_all add: queue_list_def)
  let ?n = "if xs = [] then ?h else hd xs"
  let ?c' = "upd_next ?h first (upd_prev ?n final (upd_next final ?n (upd_prev first ?h ?c)))"
  let ?q = "q\<lparr>count := count q + of_nat (length zs)\<rparr>"
  let ?m = "cond_signal (m\<lparr>cells := ?c'\<rparr>)"
  have ne: "first \<noteq> ?h" "final \<noteq> ?h" "final \<noteq> ?n" "first \<noteq> ?n"
    using fin disj zs by (auto dest: hd_in_set)
  have n: "nextof ?c ?h = Some ?n" by (rule ring_next [OF ring])
  have hdx: "xs \<noteq> [] \<Longrightarrow> hd xs \<noteq> ?h" using ring by (cases xs) (auto simp: ring_def)
  have liven: "?c ?n \<noteq> None" "?c ?h \<noteq> None"
    using ring_live [OF ring] by (cases xs, auto)+
  have "push_front_chain first final q m = Ok (of_nat (length (zs @ xs)), ?q, ?m)"
    using unl live liven ne n distance_Ok [OF ok ch dist]
    by (simp add: push_front_chain_def link_simps Let_def zs cnt cond_signal_def algebra_simps)
  moreover have "ring ?c' ?h (ys @ final # xs)"
    by (rule ring_front [OF ring ch dist disj]) (use live liven ne n hdx in auto)
  then have "queue_list ?m ?q (zs @ xs)"
    using unl cnt by (simp add: queue_list_def cond_signal_def zs algebra_simps)
  moreover have "?c' p = ?c p" if "p \<notin> set (zs @ ?h # xs)" for p
  proof -
    have "p \<noteq> first \<and> p \<noteq> final \<and> p \<noteq> ?n \<and> p \<noteq> ?h" using that fin zs by (auto dest: hd_in_set)
    then show ?thesis by simp
  qed
  then have "relinked (set (zs @ ?h # xs)) m ?m"
    by (simp only: relinked_def cond_signal_def note_call_def) simp
  ultimately show ?thesis by auto
qed

lemma push_back_chain_Ok:
  assumes ok: "heap_ok m" and q: "queue_list m q xs" and own: "own_chain m q xs first zs final"
  shows "\<exists>q' m'. push_back_chain first final q m = Ok (of_nat (length (xs @ zs)), q', m') \<and>
           queue_list m' q' (xs @ zs) \<and> header q' = header q \<and>
           relinked (set (zs @ header q # xs)) m m'"
proof -
  obtain ys r where zs: "zs = ys @ [final]" and ch: "chain (cells m) first (ys @ [final]) r"
    and dist: "distinct (ys @ [final])" and disj: "set (ys @ [final]) \<inter> set (header q # xs) = {}"
    and live: "cells m first \<noteq> None" "cells m final \<noteq> None" and fin: "first \<in> set zs"
    using own_chain_split [OF own] .
  let ?h = "header q" and ?c = "cells m"
  from q have ring: "ring ?c ?h xs" and unl: "\<not> q_locked q" and cnt: "count q = of_nat (length xs)"
    by (simp_all add: queue_list_def)
  define e where "e = last (?h # xs)"
  let ?c' = "upd_prev ?h final (upd_next e first (upd_next final ?h (upd_prev first e ?c)))"
  let ?q = "q\<lparr>count := count q + of_nat (length zs)\<rparr>"
  let ?m = "cond_signal (m\<lparr>cells := ?c'\<rparr>)"
  have e: "e \<in> set (?h # xs)" unfolding e_def by (rule last_in_set) simp
  have ne: "first \<noteq> ?h" "final \<noteq> ?h" "final \<noteq> e" "first \<noteq> e"
    using fin disj zs e by auto
  have p: "prevof ?c ?h = Some e" unfolding e_def by (rule ring_prev [OF ring])
  have livee: "?c e \<noteq> None" "?c ?h \<noteq> None"
    using ring_live [OF ring] e by auto
  have "push_back_chain first final q m = Ok (of_nat (length (xs @ zs)), ?q, ?m)"
    using unl live livee ne p distance_Ok [OF ok ch dist]
    by (simp add: push_back_chain_def link_simps Let_def zs cnt cond_signal_def algebra_simps)
  moreover have "ring ?c' ?h (xs @ ys @ [final])"
    by (rule ring_back [OF ring ch dist disj, folded e_def]) (use live livee ne in auto)
  then have "queue_list ?m ?q (xs @ zs)"
    using unl cnt by (simp add: queue_list_def cond_signal_def zs)
  moreover have "?c' p = ?c p" if "p \<notin> set (zs @ ?h # xs)" for p
  proof -
    have "p \<noteq> first \<and> p \<noteq> final \<and> p \<noteq> e \<and> p \<noteq> ?h" using that fin zs e by auto
    then show ?thesis by simp
  qed
  then have "relinked (set (zs @ ?h # xs)) m ?m"
    by (simp only: relinked_def cond_signal_def note_call_def) simp
  ultimately show ?thesis by auto
qed

text \<open>Pushing one buffer is pushing the chain of that buffer.\<close>

lemma distance_self: "distance p p m = Ok 1"
  by (cases "brk m") (simp_all add: distance_def)

lemma push_front_chain_self: "push_front p q m = push_front_chain p p q m"
  by (simp add: push_front_def push_front_chain_def distance_self)

lemma push_back_chain_self: "push_back p q m = push_back_chain p p q m"
  by (simp add: push_back_def push_back_chain_def distance_self)

lemma own_chain_single:
  assumes "cells m p \<noteq> None" and "p \<notin> set (header q # xs)"
  shows "own_chain m q xs p [p] p"
  using assms by (auto simp: own_chain_def nextof_def)

lemma pop_front_Nil:
  assumes "queue_list m q []"
  shows "pop_front q m = Ok (0, q, m)"
  using assms ring_next [of "cells m" "header q" "[]"]
  by (simp add: pop_front_def queue_list_def get_nextof Let_def)

lemma pop_front_Cons:
  assumes "queue_list m q (x # xs)"
  shows "\<exists>q' m'. pop_front q m = Ok (x, q', m') \<and> queue_list m' q' xs \<and> header q' = header q \<and>
           relinked (set (header q # xs)) m m'"
proof -
  let ?h = "header q" and ?c = "cells m"
  from assms have ring: "ring ?c ?h (x # xs)" and unl: "\<not> q_locked q"
    and cnt: "count q = of_nat (length (x # xs))" by (simp_all add: queue_list_def)
  let ?n = "if xs = [] then ?h else hd xs"
  let ?c' = "upd_next ?h ?n (upd_prev ?n ?h ?c)"
  have n: "nextof ?c ?h = Some x" using ring_next [OF ring] by simp
  have nx: "nextof ?c x = Some ?n"
    using ring by (auto simp: ring_def chain_Cons_nextof dest: chain_start simp del: chain.simps(2))
  have ne: "x \<noteq> ?h" "xs \<noteq> [] \<Longrightarrow> hd xs \<noteq> ?h" using ring by (cases xs, auto simp: ring_def)+
  have live: "?c ?n \<noteq> None" "?c ?h \<noteq> None" using ring_live [OF ring] by (cases xs, auto)+
  have "pop_front q m = Ok (x, q\<lparr>count := of_nat (length xs)\<rparr>, m\<lparr>cells := ?c'\<rparr>)"
    using unl n nx ne live cnt
    by (simp add: pop_front_def unlink_first_def link_simps Let_def)
  moreover have "ring ?c' ?h xs"
    by (rule ring_drop_first [OF ring]) (use nx ne live in auto)
  then have "queue_list (m\<lparr>cells := ?c'\<rparr>) (q\<lparr>count := of_nat (length xs)\<rparr>) xs"
    using unl by (simp add: queue_list_def)
  moreover have "?c' p = ?c p" if "p \<notin> set (?h # xs)" for p
  proof -
    have "p \<noteq> ?n \<and> p \<noteq> ?h" using that by (auto dest: hd_in_set)
    then show ?thesis by simp
  qed
  then have "relinked (set (?h # xs)) m (m\<lparr>cells := ?c'\<rparr>)"
    by (simp only: relinked_def) simp
  ultimately show ?thesis by auto
qed

lemma pop_all_Nil:
  assumes "queue_list m q []"
  shows "pop_all q m = Ok (0, 0, 0, q, m)"
  using assms ring_next [of "cells m" "header q" "[]"]
  by (simp add: pop_all_def queue_list_def get_nextof Let_def)

text \<open>Taking everything leaves an empty queue and the old buffers as one chain.\<close>

lemma pop_all_Cons:
  assumes "queue_list m q xs" and "xs \<noteq> []"
  shows "\<exists>q' m'. pop_all q m = Ok (of_nat (length xs), hd xs, last xs, q', m') \<and>
           queue_list m' q' [] \<and> header q' = header q \<and> own_chain m' q' [] (hd xs) xs (last xs) \<and>
           relinked {header q} m m'"
proof -
  let ?h = "header q" and ?c = "cells m"
  from assms have ring: "ring ?c ?h xs" and unl: "\<not> q_locked q"
    and cnt: "count q = of_nat (length xs)" by (simp_all add: queue_list_def)
  let ?c' = "upd_next ?h ?h (upd_prev ?h ?h ?c)"
  have n: "nextof ?c ?h = Some (hd xs)" using ring_next [OF ring] assms(2) by simp
  have p: "prevof ?c ?h = Some (last xs)" using ring_prev [OF ring] assms(2) by simp
  have ne: "hd xs \<noteq> ?h" using ring assms(2) by (cases xs) (auto simp: ring_def)
  have live: "?c ?h \<noteq> None" using ring_live [OF ring] by auto
  have run: "pop_all q m =
      Ok (of_nat (length xs), hd xs, last xs, q\<lparr>count := 0\<rparr>, m\<lparr>cells := ?c'\<rparr>)"
    using unl n p ne live cnt
    by (simp add: pop_all_def unlink_all_def link_simps Let_def)
  have empty: "queue_list (m\<lparr>cells := ?c'\<rparr>) (q\<lparr>count := 0\<rparr>) []"
    using unl live by (auto simp: queue_list_def ring_def chain_Cons_nextof simp del: chain.simps(2))
  have old: "chain ?c (hd xs) xs ?h" "?h \<notin> set xs" "distinct xs"
    using ring n by (auto simp: ring_def chain_Cons_nextof simp del: chain.simps(2))
  have same: "nextof ?c' y = nextof ?c y" if "y \<in> set xs" for y
    using that old(2) live by auto
  with old(1) have "chain ?c' (hd xs) xs ?h" by (simp only: chain_nextof_cong [of xs ?c' ?c])
  moreover from this have "nextof ?c' (last xs) = Some ?h"
    using chain_snoc_nextof [of ?c' "hd xs" "butlast xs" "last xs" ?h] assms(2) by simp
  ultimately have "own_chain (m\<lparr>cells := ?c'\<rparr>) (q\<lparr>count := 0\<rparr>) [] (hd xs) xs (last xs)"
    using assms(2) old by (simp add: own_chain_def)
  moreover have "relinked {?h} m (m\<lparr>cells := ?c'\<rparr>)" by (auto simp: relinked_def)
  ultimately show ?thesis using run empty by auto
qed

section \<open>The queue provides the interface\<close>

text \<open>The buffers from \<open>first\<close> to \<open>final\<close>, read off the heap.\<close>

fun members :: "nat \<Rightarrow> ptr \<Rightarrow> ptr \<Rightarrow> machine \<Rightarrow> ptr list res" where
  "members 0 first final m = (if first \<noteq> final then Blocked else Ok [first])"
| "members (Suc fuel) first final m =
     (if first \<noteq> final then
        andThen (get_next first m) (\<lambda>n. andThen (members fuel n final m) (\<lambda>xs. Ok (first # xs)))
      else Ok [first])"

lemma members_Ok:
  assumes "chain (cells m) p (xs @ [l]) r" and "l \<notin> set xs" and "length xs \<le> fuel"
  shows "members fuel p l m = Ok (xs @ [l])"
  using assms
proof (induction xs arbitrary: p fuel)
  case Nil
  then show ?case by (cases fuel) (auto split: option.splits)
next
  case (Cons x xs)
  then obtain nx f where "p = x" "nextof (cells m) x = Some nx" "chain (cells m) nx (xs @ [l]) r"
    "fuel = Suc f" by (cases fuel) (auto simp: chain_Cons_nextof simp del: chain.simps(2))
  with Cons show ?case by (simp add: get_nextof)
qed

definition take_first :: "buffers \<Rightarrow> machine \<Rightarrow> (ptr option \<times> buffers \<times> machine) res" where
  "take_first q m =
     andThen (pop_front q m) (\<lambda>(p, q, m). Ok (if p = nullptr then None else Some p, q, m))"

definition take_all :: "buffers \<Rightarrow> machine \<Rightarrow> (ptr list \<times> buffers \<times> machine) res" where
  "take_all q m =
     andThen (pop_all q m) (\<lambda>(n, first, final, q, m).
       if n = 0 then Ok ([], q, m)
       else andThen (members (brk m) first final m) (\<lambda>xs. Ok (xs, q, m)))"

text \<open>
  Fewer buffers than \<open>2 ^ 64\<close> fit an address space of 64 bits; the count of a longer queue would
  wrap around.
\<close>

definition queue_ok :: "machine \<Rightarrow> bool" where
  "queue_ok m \<longleftrightarrow> heap_ok m \<and> brk m < 2 ^ 64"

lemma queue_ok_relinked: "queue_ok m \<Longrightarrow> relinked A m m' \<Longrightarrow> queue_ok m'"
  by (simp add: queue_ok_def relinked_heap_ok relinked_fields)

lemma queue_list_length:
  assumes "heap_ok m" and "queue_list m q xs"
  shows "length xs < brk m" and "0 \<notin> set xs"
proof -
  from assms(2) obtain n where n: "chain (cells m) n xs (header q)" "distinct xs"
    by (auto simp: queue_list_def ring_def chain_Cons_nextof simp del: chain.simps(2))
  show "length xs < brk m" by (rule chain_length [OF assms(1) n])
  show "0 \<notin> set xs" using chain_addresses [OF assms(1) n(1)] by auto
qed

lemma take_all_Cons:
  assumes ok: "queue_ok m" and q: "queue_list m q xs" and ne: "xs \<noteq> []"
  shows "\<exists>q' m'. take_all q m = Ok (xs, q', m') \<and> queue_ok m' \<and> queue_list m' q' [] \<and>
           own_chain m' q' [] (hd xs) xs (last xs)"
proof -
  from pop_all_Cons [OF q ne] obtain q' m' where
    pop: "pop_all q m = Ok (of_nat (length xs), hd xs, last xs, q', m')"
    and e: "queue_list m' q' []" and own: "own_chain m' q' [] (hd xs) xs (last xs)"
    and rl: "relinked {header q} m m'" by blast
  have ok': "queue_ok m'" by (rule queue_ok_relinked [OF ok rl])
  from own obtain r where ch: "chain (cells m') (hd xs) xs r" and d: "distinct xs"
    by (auto simp: own_chain_def split: option.splits)
  have len: "length xs < brk m'"
    using chain_length [OF _ ch d] ok' by (simp add: queue_ok_def)
  with ok' have "of_nat (length xs) \<noteq> (0 :: size_t)"
    using ne by (simp add: queue_ok_def word_unat_eq_iff unat_of_nat)
  moreover have "members (brk m') (hd xs) (last xs) m' = Ok (butlast xs @ [last xs])"
    using ch d ne len by (intro members_Ok [of m' "hd xs" _ _ r])
      (auto simp: distinct_butlast dest: append_butlast_last_id [THEN arg_cong [of _ _ distinct]])
  ultimately show ?thesis using pop e own ok' ne by (simp add: take_all_def)
qed

interpretation queue: buffer_queue queue_ok queue_list
  "\<lambda>m q xs zs. own_chain m q xs (hd zs) zs (last zs)"
  "\<lambda>zs. push_front_chain (hd zs) (last zs)" "\<lambda>zs. push_back_chain (hd zs) (last zs)"
  take_first take_all
proof unfold_locales
  fix m q xs zs
  assume ok: "queue_ok m" and q: "queue_list m q xs"
    and own: "own_chain m q xs (hd zs) zs (last zs)"
  then have h: "heap_ok m" by (simp add: queue_ok_def)
  from push_front_chain_Ok [OF h q own] queue_ok_relinked [OF ok]
  show "\<exists>q' m'. push_front_chain (hd zs) (last zs) q m = Ok (of_nat (length (zs @ xs)), q', m') \<and>
          queue_ok m' \<and> queue_list m' q' (zs @ xs)" by blast
  from push_back_chain_Ok [OF h q own] queue_ok_relinked [OF ok]
  show "\<exists>q' m'. push_back_chain (hd zs) (last zs) q m = Ok (of_nat (length (xs @ zs)), q', m') \<and>
          queue_ok m' \<and> queue_list m' q' (xs @ zs)" by blast
next
  fix m q assume "queue_list m q []"
  then show "take_first q m = Ok (None, q, m)" and "take_all q m = Ok ([], q, m)"
    by (simp_all add: take_first_def take_all_def pop_front_Nil pop_all_Nil)
next
  fix m q x xs assume ok: "queue_ok m" and q: "queue_list m q (x # xs)"
  then have "x \<noteq> 0" using queue_list_length(2) [of m q "x # xs"] by (auto simp: queue_ok_def)
  with pop_front_Cons [OF q] queue_ok_relinked [OF ok]
  show "\<exists>q' m'. take_first q m = Ok (Some x, q', m') \<and> queue_ok m' \<and> queue_list m' q' xs"
    by (auto simp: take_first_def)
next
  fix m q xs assume "queue_ok m" and "queue_list m q xs" and "xs \<noteq> []"
  then show "\<exists>q' m'. take_all q m = Ok (xs, q', m') \<and> queue_ok m' \<and> queue_list m' q' [] \<and>
      own_chain m' q' [] (hd xs) xs (last xs)" by (rule take_all_Cons)
qed

section \<open>Properties of the queue\<close>

definition sample_queue :: buffers where
  "sample_queue = \<lparr>header = 1, count = 2, q_locked = False\<rparr>"

lemma sample_queue_list: "queue_list sample sample_queue [2, 3]"
  by (simp add: queue_list_def ring_def prevof_def sample_def sample_queue_def)

lemma sample_own_chain: "own_chain sample sample_queue [2, 3] 4 [4, 5] 5"
  by (simp add: own_chain_def nextof_def sample_def sample_queue_def)

lemma sample_queue_ok: "queue_ok sample"
  using sample_heap_ok by (simp add: queue_ok_def sample_def)

text \<open>
  pushing a chain at the back appends its buffers, in their order, to what the queue holds,
  returns the new number of buffers, signals the condition variable once and releases the
  mutex. Contents of buffers, blocks and every buffer outside the queue and the chain are
  untouched, and the heap stays in order.
\<close>

theorem push_back_chain_correct:
  assumes "heap_ok m" and "queue_list m q xs" and "own_chain m q xs first zs final"
  shows "\<exists>q' m'. push_back_chain first final q m = Ok (of_nat (length xs + length zs), q', m') \<and>
           queue_list m' q' (xs @ zs) \<and> heap_ok m' \<and> (\<forall>p. view p m' = view p m) \<and>
           (\<forall>p. p \<notin> set (zs @ header q # xs) \<longrightarrow> cells m' p = cells m p)"
proof -
  from push_back_chain_Ok [OF assms] obtain q' m' where
    "push_back_chain first final q m = Ok (of_nat (length (xs @ zs)), q', m')"
    "queue_list m' q' (xs @ zs)" "relinked (set (zs @ header q # xs)) m m'" by blast
  with relinked_heap_ok [OF this(3) assms(1)] relinked_view [OF this(3)] show ?thesis
    unfolding relinked_def by (metis length_append)
qed

theorem push_back_chain_witness:
  "\<exists>q' m'. push_back_chain 4 5 sample_queue sample = Ok (of_nat (2 + 2), q', m') \<and>
     queue_list m' q' [2, 3, 4, 5] \<and> heap_ok m'"
  using push_back_chain_correct [OF sample_heap_ok sample_queue_list sample_own_chain] by auto

text \<open>
  pushing a chain at the front puts its buffers, in their order, before what the queue
  holds, with the same guarantees.
\<close>

theorem push_front_chain_correct:
  assumes "heap_ok m" and "queue_list m q xs" and "own_chain m q xs first zs final"
  shows "\<exists>q' m'. push_front_chain first final q m = Ok (of_nat (length zs + length xs), q', m') \<and>
           queue_list m' q' (zs @ xs) \<and> heap_ok m' \<and> (\<forall>p. view p m' = view p m) \<and>
           (\<forall>p. p \<notin> set (zs @ header q # xs) \<longrightarrow> cells m' p = cells m p)"
proof -
  from push_front_chain_Ok [OF assms] obtain q' m' where
    "push_front_chain first final q m = Ok (of_nat (length (zs @ xs)), q', m')"
    "queue_list m' q' (zs @ xs)" "relinked (set (zs @ header q # xs)) m m'" by blast
  with relinked_heap_ok [OF this(3) assms(1)] relinked_view [OF this(3)] show ?thesis
    unfolding relinked_def by (metis length_append)
qed

theorem push_front_chain_witness:
  "\<exists>q' m'. push_front_chain 4 5 sample_queue sample = Ok (of_nat (2 + 2), q', m') \<and>
     queue_list m' q' [4, 5, 2, 3] \<and> heap_ok m'"
  using push_front_chain_correct [OF sample_heap_ok sample_queue_list sample_own_chain] by auto

text \<open>
  the single-buffer pushes: \<open>push_front\<close> makes the buffer the first, \<open>push_back\<close> the last,
  and both return the new count.
\<close>

theorem push_single_correct:
  assumes "heap_ok m" and "queue_list m q xs" and "cells m p \<noteq> None" and "p \<notin> set (header q # xs)"
  shows "(\<exists>q' m'. push_front p q m = Ok (of_nat (length xs + 1), q', m') \<and>
            queue_list m' q' (p # xs) \<and> heap_ok m') \<and>
         (\<exists>q' m'. push_back p q m = Ok (of_nat (length xs + 1), q', m') \<and>
            queue_list m' q' (xs @ [p]) \<and> heap_ok m')"
proof -
  note own = own_chain_single [OF assms(3,4)]
  from push_front_chain_Ok [OF assms(1,2) own] push_back_chain_Ok [OF assms(1,2) own]
  show ?thesis
    unfolding push_front_chain_self push_back_chain_self
    using relinked_heap_ok [OF _ assms(1)] by fastforce
qed

theorem push_single_witness:
  "(\<exists>q' m'. push_front 5 sample_queue sample = Ok (of_nat (2 + 1), q', m') \<and>
      queue_list m' q' [5, 2, 3] \<and> heap_ok m') \<and>
   (\<exists>q' m'. push_back 5 sample_queue sample = Ok (of_nat (2 + 1), q', m') \<and>
      queue_list m' q' [2, 3, 5] \<and> heap_ok m')"
  using push_single_correct [OF sample_heap_ok sample_queue_list, of 5]
  by (simp add: sample_def sample_queue_def)

text \<open>
  \<open>pop_front\<close> returns the first buffer and leaves the rest, or returns \<open>nullptr\<close> and changes
  nothing when the queue is empty.
\<close>

theorem pop_front_correct:
  assumes "heap_ok m" and "queue_list m q xs"
  shows "\<exists>p q' m'. pop_front q m = Ok (p, q', m') \<and> heap_ok m' \<and> queue_list m' q' (tl xs) \<and>
           (\<forall>p. view p m' = view p m) \<and>
           (if xs = [] then p = 0 \<and> q' = q \<and> m' = m else p = hd xs \<and> p \<noteq> 0)"
proof (cases xs)
  case Nil
  with pop_front_Nil assms show ?thesis by simp
next
  case (Cons x ys)
  with queue_list_length(2) [OF assms] have "x \<noteq> 0" by simp
  with pop_front_Cons [of m q x ys] assms(2) Cons relinked_heap_ok [OF _ assms(1)] relinked_view
  show ?thesis by fastforce
qed

theorem pop_front_witness:
  "\<exists>q' m'. pop_front sample_queue sample = Ok (2, q', m') \<and> queue_list m' q' [3] \<and> heap_ok m'"
  using pop_front_correct [OF sample_heap_ok sample_queue_list] by auto

text \<open>
  \<open>pop\<close> hands out everything at once: the count, the first and the last buffer of a chain
  that links all of them in order, and leaves the queue empty; on an empty queue it returns 0
  and two null pointers.
\<close>

theorem pop_all_correct:
  assumes "heap_ok m" and "queue_list m q xs"
  shows "\<exists>n first final q' m'. pop_all q m = Ok (n, first, final, q', m') \<and>
           n = of_nat (length xs) \<and> heap_ok m' \<and> queue_list m' q' [] \<and>
           (\<forall>p. view p m' = view p m) \<and>
           (if xs = [] then first = 0 \<and> final = 0 else own_chain m' q' [] first xs final)"
proof (cases "xs = []")
  case True
  with pop_all_Nil assms show ?thesis by simp
next
  case False
  with pop_all_Cons [of m q xs] assms(2) relinked_heap_ok [OF _ assms(1)] relinked_view
  show ?thesis by fastforce
qed

theorem pop_all_witness:
  "\<exists>first final q' m'. pop_all sample_queue sample = Ok (2, first, final, q', m') \<and>
     queue_list m' q' [] \<and> own_chain m' q' [] first [2, 3] final"
  using pop_all_correct [OF sample_heap_ok sample_queue_list] by auto

text \<open>
  A queue and its clients, as lists: what the queue holds, and the chains that the clients own. A
  client may push a chain of its own; what it pops is its own.
\<close>

datatype queue_result = New_count size_t | First_buffer ptr | Whole_chain size_t ptr ptr

fun queue_exec :: "queue_op \<Rightarrow> buffers \<Rightarrow> machine \<Rightarrow> (queue_result \<times> buffers \<times> machine) res" where
  "queue_exec (Push_front p) q m = andThen (push_front p q m) (\<lambda>(n, q, m). Ok (New_count n, q, m))"
| "queue_exec (Push_back p) q m = andThen (push_back p q m) (\<lambda>(n, q, m). Ok (New_count n, q, m))"
| "queue_exec (Push_front_chain f l) q m =
     andThen (push_front_chain f l q m) (\<lambda>(n, q, m). Ok (New_count n, q, m))"
| "queue_exec (Push_back_chain f l) q m =
     andThen (push_back_chain f l q m) (\<lambda>(n, q, m). Ok (New_count n, q, m))"
| "queue_exec Pop_front q m = andThen (pop_front q m) (\<lambda>(p, q, m). Ok (First_buffer p, q, m))"
| "queue_exec Pop_all q m = andThen (pop_all q m) (\<lambda>(n, f, l, q, m). Ok (Whole_chain n f l, q, m))"

fun queue_run :: "queue_op list \<Rightarrow> buffers \<Rightarrow> machine \<Rightarrow> (queue_result list \<times> buffers \<times> machine) res" where
  "queue_run [] q m = Ok ([], q, m)"
| "queue_run (c # cs) q m =
     andThen (queue_exec c q m) (\<lambda>(r, q, m). andThen (queue_run cs q m) (\<lambda>(rs, q, m). Ok (r # rs, q, m)))"

type_synonym queue_model = "ptr list \<times> ptr list list"

fun model_exec :: "queue_op \<Rightarrow> queue_model \<Rightarrow> (queue_result \<times> queue_model) option" where
  "model_exec (Push_front p) (xs, css) =
     (if [p] \<in> set css then Some (New_count (of_nat (length (p # xs))), p # xs, remove1 [p] css) else None)"
| "model_exec (Push_back p) (xs, css) =
     (if [p] \<in> set css then Some (New_count (of_nat (length (xs @ [p]))), xs @ [p], remove1 [p] css) else None)"
| "model_exec (Push_front_chain f l) (xs, css) =
     (case find (\<lambda>zs. hd zs = f \<and> last zs = l) css of None \<Rightarrow> None
      | Some zs \<Rightarrow> Some (New_count (of_nat (length (zs @ xs))), zs @ xs, remove1 zs css))"
| "model_exec (Push_back_chain f l) (xs, css) =
     (case find (\<lambda>zs. hd zs = f \<and> last zs = l) css of None \<Rightarrow> None
      | Some zs \<Rightarrow> Some (New_count (of_nat (length (xs @ zs))), xs @ zs, remove1 zs css))"
| "model_exec Pop_front (xs, css) =
     (case xs of [] \<Rightarrow> Some (First_buffer 0, [], css) | x # ys \<Rightarrow> Some (First_buffer x, ys, [x] # css))"
| "model_exec Pop_all (xs, css) =
     (if xs = [] then Some (Whole_chain 0 0 0, [], css)
      else Some (Whole_chain (of_nat (length xs)) (hd xs) (last xs), [], xs # css))"

fun model_run :: "queue_op list \<Rightarrow> queue_model \<Rightarrow> (queue_result list \<times> queue_model) option" where
  "model_run [] st = Some ([], st)"
| "model_run (c # cs) st =
     Option.bind (model_exec c st) (\<lambda>(r, st).
     Option.bind (model_run cs st) (\<lambda>(rs, st). Some (r # rs, st)))"

fun represents :: "machine \<Rightarrow> buffers \<Rightarrow> queue_model \<Rightarrow> bool" where
  "represents m q (xs, css) \<longleftrightarrow>
     queue_ok m \<and> queue_list m q xs \<and> (\<forall>zs \<in> set css. own_chain m q xs (hd zs) zs (last zs)) \<and> distinct (concat css)"

lemma own_chain_relinked:
  assumes "own_chain m q xs f zs l" and "relinked A m m'" and "set zs \<inter> A = {}"
    and "header q' = header q" and "set zs \<inter> set xs' = {}"
  shows "own_chain m' q' xs' f zs l"
proof -
  have same: "nextof (cells m') x = nextof (cells m) x" if "x \<in> set zs" for x
    using assms(2,3) that by (auto simp: relinked_def nextof_def)
  from assms(1) obtain r where r: "zs \<noteq> []" "l = last zs" "distinct zs" "header q \<notin> set zs"
    "nextof (cells m) l = Some r" "chain (cells m) f zs r"
    by (auto simp: own_chain_def split: option.splits)
  have "chain (cells m') f zs r" using r(6) same by (simp only: chain_nextof_cong [of zs "cells m'" "cells m"])
  with r same [of l] assms(4,5) show ?thesis by (simp add: own_chain_def)
qed

lemma represents_others:
  assumes "represents m q (xs, css)" and "relinked (set (zs @ header q # xs)) m m'" and "header q' = header q"
    and "set xs' \<subseteq> set (zs @ xs)" and "\<forall>ws \<in> set ds. set ws \<inter> set zs = {}" and "set ds \<subseteq> set css"
  shows "\<forall>ws \<in> set ds. own_chain m' q' xs' (hd ws) ws (last ws)"
proof
  fix ws assume ws: "ws \<in> set ds"
  with assms(1,6) have own: "own_chain m q xs (hd ws) ws (last ws)" by auto
  then have "set ws \<inter> set (header q # xs) = {}" by (simp add: own_chain_def)
  with ws assms(5) have "set ws \<inter> set (zs @ header q # xs) = {}" by auto
  with assms(4) show "own_chain m' q' xs' (hd ws) ws (last ws)"
    by (intro own_chain_relinked [OF own assms(2) _ assms(3)]) auto
qed

text \<open>A chain of a client goes to the queue.\<close>

lemma represents_push:
  assumes "represents m q (xs, css)" and "zs \<in> set css" and "queue_list m' q' xs'" and "set xs' = set (zs @ xs)"
    and "header q' = header q" and "relinked (set (zs @ header q # xs)) m m'"
  shows "represents m' q' (xs', remove1 zs css)"
proof -
  from split_list_first [OF assms(2)] obtain as bs where css: "css = as @ zs # bs" "zs \<notin> set as" by blast
  then have rm: "remove1 zs css = as @ bs" by (simp add: remove1_append)
  from assms(1) have ok: "queue_ok m" and d: "distinct (concat css)" by simp_all
  have "\<forall>ws \<in> set (as @ bs). set ws \<inter> set zs = {}" using d unfolding css(1) by fastforce
  moreover have "distinct (concat (as @ bs))" using d unfolding css(1) by auto
  ultimately have ds: "\<forall>ws \<in> set (as @ bs). set ws \<inter> set zs = {}" "distinct (concat (as @ bs))" by blast+
  from represents_others [OF assms(1,6,5) _ ds(1), of xs'] assms(4) css(1)
  have "\<forall>ws \<in> set (as @ bs). own_chain m' q' xs' (hd ws) ws (last ws)" by auto
  with assms(3) queue_ok_relinked [OF ok assms(6)] ds(2) show ?thesis unfolding rm by simp
qed

text \<open>What is popped goes to a client.\<close>

lemma represents_pop:
  assumes "represents m q (zs @ xs, css)" and "queue_list m' q' xs" and "own_chain m' q' xs (hd zs) zs (last zs)"
    and "header q' = header q" and "relinked (set (header q # zs @ xs)) m m'"
  shows "represents m' q' (xs, zs # css)"
proof -
  from assms(1) have r: "queue_ok m" "distinct (concat css)"
    "\<forall>ws \<in> set css. own_chain m q (zs @ xs) (hd ws) ws (last ws)" by simp_all
  have "relinked (set ([] @ header q # zs @ xs)) m m'" using assms(5) by simp
  from represents_others [OF assms(1) this assms(4), of xs css]
  have "\<forall>ws \<in> set css. own_chain m' q' xs (hd ws) ws (last ws)" by simp
  moreover have "set zs \<inter> set (concat css) = {}" using r(3) by (fastforce simp: own_chain_def)
  moreover have "distinct zs" using assms(3) by (simp add: own_chain_def)
  ultimately show ?thesis using assms(2,3) r(2) queue_ok_relinked [OF r(1) assms(5)] by simp
qed

lemma represents_exec:
  assumes "represents m q st" and "model_exec c st = Some (r, st')"
  shows "\<exists>q' m'. queue_exec c q m = Ok (r, q', m') \<and> represents m' q' st' \<and> (\<forall>p. view p m' = view p m)"
proof -
  obtain xs css where st: "st = (xs, css)" by (cases st)
  note rep = assms(1) [unfolded st]
  then have ok: "heap_ok m" "queue_list m q xs" "queue_ok m" by (simp_all add: queue_ok_def)
  have own: "own_chain m q xs (hd zs) zs (last zs)" if "zs \<in> set css" for zs using rep that by simp
  have front: "\<exists>q' m'. push_front_chain (hd zs) (last zs) q m = Ok (of_nat (length (zs @ xs)), q', m') \<and>
      represents m' q' (zs @ xs, remove1 zs css) \<and> (\<forall>p. view p m' = view p m)" if "zs \<in> set css" for zs
  proof -
    from push_front_chain_Ok [OF ok(1,2) own [OF that]] obtain q' m' where
      p: "push_front_chain (hd zs) (last zs) q m = Ok (of_nat (length (zs @ xs)), q', m')" "queue_list m' q' (zs @ xs)"
        "header q' = header q" "relinked (set (zs @ header q # xs)) m m'" by blast
    from represents_push [OF rep that p(2) refl p(3,4)] p(1) relinked_view [OF p(4)] show ?thesis by blast
  qed
  have rear: "\<exists>q' m'. push_back_chain (hd zs) (last zs) q m = Ok (of_nat (length (xs @ zs)), q', m') \<and>
      represents m' q' (xs @ zs, remove1 zs css) \<and> (\<forall>p. view p m' = view p m)" if "zs \<in> set css" for zs
  proof -
    from push_back_chain_Ok [OF ok(1,2) own [OF that]] obtain q' m' where
      p: "push_back_chain (hd zs) (last zs) q m = Ok (of_nat (length (xs @ zs)), q', m')" "queue_list m' q' (xs @ zs)"
        "header q' = header q" "relinked (set (zs @ header q # xs)) m m'" by blast
    have "set (xs @ zs) = set (zs @ xs)" by auto
    from represents_push [OF rep that p(2) this p(3,4)] p(1) relinked_view [OF p(4)] show ?thesis by blast
  qed
  show ?thesis
  proof (cases c)
    case (Push_front p)
    with front [of "[p]"] assms(2) show ?thesis
      by (auto simp: st push_front_chain_self simp del: represents.simps split: if_splits)
  next
    case (Push_back p)
    with rear [of "[p]"] assms(2) show ?thesis
      by (auto simp: st push_back_chain_self simp del: represents.simps split: if_splits)
  next
    case (Push_front_chain f l)
    with assms(2) obtain zs where "find (\<lambda>zs. hd zs = f \<and> last zs = l) css = Some zs"
      by (auto simp: st split: option.splits)
    with front [of zs] Push_front_chain assms(2) show ?thesis
      by (auto simp: st find_Some_iff simp del: represents.simps)
  next
    case (Push_back_chain f l)
    with assms(2) obtain zs where "find (\<lambda>zs. hd zs = f \<and> last zs = l) css = Some zs"
      by (auto simp: st split: option.splits)
    with rear [of zs] Push_back_chain assms(2) show ?thesis
      by (auto simp: st find_Some_iff simp del: represents.simps)
  next
    case Pop_front
    show ?thesis
    proof (cases xs)
      case Nil
      with Pop_front assms(2) rep pop_front_Nil [of m q] ok(2) show ?thesis
        by (auto simp: st simp del: represents.simps)
    next
      case (Cons x ys)
      from pop_front_Cons [OF ok(2) [unfolded Cons]] obtain q' m' where
        p: "pop_front q m = Ok (x, q', m')" "queue_list m' q' ys" "header q' = header q"
          "relinked (set (header q # ys)) m m'" by blast
      have ring: "ring (cells m) (header q) (x # ys)" using ok(2) Cons by (simp add: queue_list_def)
      then have x: "x \<notin> set (header q # ys)" by (auto simp: ring_def)
      then have "cells m' x = cells m x" using p(4) unfolding relinked_def by blast
      then have "cells m' x \<noteq> None" using ring_live [OF ring, of x] by simp
      with x p(3) have "own_chain m' q' ys (hd [x]) [x] (last [x])" using own_chain_single by simp
      from represents_pop [of m q "[x]" ys css, OF _ p(2) this p(3)] rep relinked_mono [OF p(4)]
      have "represents m' q' (ys, [[x]] @ css)" by (auto simp: Cons simp del: represents.simps)
      with p(1) Pop_front assms(2) relinked_view [OF p(4)] show ?thesis
        by (auto simp: st Cons simp del: represents.simps)
    qed
  next
    case Pop_all
    show ?thesis
    proof (cases "xs = []")
      case True
      with Pop_all assms(2) rep pop_all_Nil [of m q] ok(2) show ?thesis
        by (auto simp: st simp del: represents.simps)
    next
      case False
      from pop_all_Cons [OF ok(2) False] obtain q' m' where
        p: "pop_all q m = Ok (of_nat (length xs), hd xs, last xs, q', m')" "queue_list m' q' []"
          "header q' = header q" "own_chain m' q' [] (hd xs) xs (last xs)" "relinked {header q} m m'" by blast
      from represents_pop [of m q xs "[]" css, OF _ p(2,4,3)] rep relinked_mono [OF p(5)]
      have "represents m' q' ([], xs # css)" by (auto simp del: represents.simps)
      with p(1) Pop_all False assms(2) relinked_view [OF p(5)] show ?thesis
        by (auto simp: st simp del: represents.simps)
    qed
  qed
qed

text \<open>
  C28: the queue implements a list: whatever pushes and pops its clients do, in any order, from any
  queue, an empty one too, as long as they push only buffers and chains of their own, every operation
  returns what it returns on the list (the new number of buffers, the first buffer or the
  null pointer, the whole chain), and after all of them the queue holds the list, the clients own
  the chains they popped, the heap is in order and no content has changed.
\<close>

theorem queue_refines_list:
  assumes "represents m q st" and "model_run cs st = Some (rs, st')"
  shows "\<exists>q' m'. queue_run cs q m = Ok (rs, q', m') \<and> represents m' q' st' \<and> (\<forall>p. view p m' = view p m)"
  using assms
proof (induction cs arbitrary: m q st rs)
  case Nil
  then show ?case by simp
next
  case (Cons c cs)
  from Cons.prems(2) obtain r st1 rs1 where 1: "model_exec c st = Some (r, st1)"
    "model_run cs st1 = Some (rs1, st')" "rs = r # rs1" by (auto split: Option.bind_splits)
  from represents_exec [OF Cons.prems(1) 1(1)] obtain q1 m1 where
    "queue_exec c q m = Ok (r, q1, m1)" "represents m1 q1 st1" "\<forall>p. view p m1 = view p m" by blast
  with Cons.IH [OF this(2) 1(2)] 1(3) show ?case by auto
qed

text \<open>The queue of two is taken whole, filled again in another order, and emptied one by one.\<close>

theorem queue_refines_list_witness:
  "\<exists>q' m'. queue_run [Pop_all, Pop_front, Push_back_chain 4 5, Push_front_chain 2 3,
       Pop_front, Push_back 2, Pop_front, Pop_front, Pop_front, Pop_front, Pop_all, Push_front 3] sample_queue sample =
     Ok ([Whole_chain 2 2 3, First_buffer 0, New_count 2, New_count 4, First_buffer 2, New_count 4,
          First_buffer 3, First_buffer 4, First_buffer 5, First_buffer 2, Whole_chain 0 0 0, New_count 1], q', m') \<and>
     queue_list m' q' [3]"
proof -
  have rep: "represents sample sample_queue ([2, 3], [[4, 5]])"
    using sample_queue_ok sample_queue_list sample_own_chain by simp
  have "model_run [Pop_all, Pop_front, Push_back_chain 4 5, Push_front_chain 2 3,
       Pop_front, Push_back 2, Pop_front, Pop_front, Pop_front, Pop_front, Pop_all, Push_front 3] ([2, 3], [[4, 5]]) =
     Some ([Whole_chain 2 2 3, First_buffer 0, New_count 2, New_count 4, First_buffer 2, New_count 4,
          First_buffer 3, First_buffer 4, First_buffer 5, First_buffer 2, Whole_chain 0 0 0, New_count 1],
       [3], [[2], [5], [4]])" by simp
  from queue_refines_list [OF rep this] show ?thesis by auto
qed

text \<open>
  taking all buffers and returning them to the front, as the sender does when it cannot
  send, restores the queue.
\<close>

theorem queue_return_all:
  assumes "queue_ok m" and "queue_list m q xs" and "xs \<noteq> []"
  shows "\<exists>q1 m1 q2 m2. take_all q m = Ok (xs, q1, m1) \<and> queue_list m1 q1 [] \<and>
           push_front_chain (hd xs) (last xs) q1 m1 = Ok (of_nat (length xs), q2, m2) \<and>
           queue_ok m2 \<and> queue_list m2 q2 xs"
  by (rule queue.return_all [OF assms])

theorem queue_return_all_witness:
  "\<exists>q1 m1 q2 m2. take_all sample_queue sample = Ok ([2, 3], q1, m1) \<and> queue_list m1 q1 [] \<and>
     push_front_chain 2 3 q1 m1 = Ok (2, q2, m2) \<and> queue_list m2 q2 [2, 3]"
  using queue_return_all [OF sample_queue_ok sample_queue_list] by auto

lemma buffers_destroy_Ok:
  assumes "heap_ok m" and "queue_list m q xs"
  shows "\<exists>m'. buffers_destroy q m = Ok m' \<and> heap_ok m' \<and>
           cells m' = (\<lambda>p. if p \<in> set xs then None else cells m p)"
proof -
  from assms(2) have ring: "ring (cells m) (header q) xs" by (simp add: queue_list_def)
  then obtain n where n: "nextof (cells m) (header q) = Some n" "chain (cells m) n xs (header q)"
    and d: "distinct xs" "header q \<notin> set xs"
    by (auto simp: ring_def chain_Cons_nextof simp del: chain.simps(2))
  have "length xs \<le> brk m" using chain_length [OF assms(1) n(2) d(1)] by simp
  from delete_chain_Ok [OF assms(1) n(2) d this] n(1) show ?thesis
    by (simp add: buffers_destroy_def get_nextof)
qed

text \<open>
  a new queue is empty, and destroying a queue deletes exactly the buffers it holds, each
  once; the walk over them ends.
\<close>

theorem buffers_lifecycle:
  assumes "heap_ok m" and "queue_list m q xs"
  shows "(\<exists>q0 m0. new_buffers m = Ok (q0, m0) \<and> heap_ok m0 \<and> queue_list m0 q0 []) \<and>
         (\<exists>m'. buffers_destroy q m = Ok m' \<and> heap_ok m' \<and>
            cells m' = (\<lambda>p. if p \<in> set xs then None else cells m p))"
proof
  let ?h = "brk m"
  let ?b = "\<lparr>buf_data = 0, buf_length = 0, buf_prev = ?h, buf_next = ?h\<rparr>"
  let ?m = "m\<lparr>cells := (cells m)(?h \<mapsto> ?b), brk := brk m + 1\<rparr>"
  note ok = heap_okD [OF assms(1)]
  have "new_buffers m = Ok (\<lparr>header = ?h, count = 0, q_locked = False\<rparr>, ?m)"
    by (simp add: new_buffers_def set_prev_Some set_next_Some Let_def)
  moreover have "addr_ok ?m" using ok(1) unfolding addr_ok_def by (auto simp: less_Suc_eq)
  then have "heap_ok ?m"
    using ok(2,3) unfolding heap_ok_def data_ok_def owner_ok_def by simp
  moreover have "queue_list ?m \<lparr>header = ?h, count = 0, q_locked = False\<rparr> []"
    by (simp add: queue_list_def ring_def prevof_def)
  ultimately show "\<exists>q0 m0. new_buffers m = Ok (q0, m0) \<and> heap_ok m0 \<and> queue_list m0 q0 []" by blast
qed (rule buffers_destroy_Ok [OF assms])

theorem buffers_lifecycle_witness:
  "(\<exists>q0 m0. new_buffers sample = Ok (q0, m0) \<and> heap_ok m0 \<and> queue_list m0 q0 []) \<and>
   (\<exists>m'. buffers_destroy sample_queue sample = Ok m' \<and> heap_ok m' \<and>
      cells m' = (\<lambda>p. if p \<in> set [2, 3] then None else cells sample p))"
  by (rule buffers_lifecycle [OF sample_heap_ok sample_queue_list])

end
