(* ===== verification/Buffers_Timed.thy ===== *)
theory Buffers_Timed
  imports Buffers
begin

text \<open>
  The waiting operations of \<open>net::buffers\<close> (net/buffers.cpp): \<open>pop_front(timeout)\<close> and
  \<open>pop(first, last, timeout)\<close>. A wait on the condition variable releases the mutex: the answer
  that wakes it (\<open>Wake ops\<close>) says which operations the other threads completed on the queue
  meanwhile, and they are run before the mutex is taken again. A wake-up that finds the queue
  empty, spurious or robbed, waits again until the same absolute time.
\<close>

section \<open>The absolute time of a timeout\<close>

text \<open>\<open>struct timeval\<close> and \<open>struct timespec\<close>: seconds with microseconds, or with nanoseconds.\<close>

type_synonym timeval = "int \<times> int"
type_synonym timespec = "int \<times> int"

definition sys_gettimeofday :: "machine \<Rightarrow> (timeval \<times> machine) res" where
  "sys_gettimeofday m =
     andThen (syscall (Host C_gettimeofday) m) (\<lambda>(r, m).
       case r of
         Ret t \<Rightarrow> Ok ((t div 1000000, t mod 1000000), m)
       | _ \<Rightarrow> Ok ((0, 0), m))"

text \<open>
  \<open>timeout\<close> is an \<open>unsigned\<close>: its quotient, its remainder and the product are computed in 32
  bits, then converted to \<open>long\<close>.
\<close>

definition deadline :: "timeval \<Rightarrow> 32 word \<Rightarrow> timespec" where
  "deadline now timeout =
     (let tv_sec = fst now + uint (timeout div 1000);
          tv_nsec = snd now * 1000 + uint ((timeout mod 1000) * 1000000)
      in if 1000000000 \<le> tv_nsec then (tv_sec + 1, tv_nsec - 1000000000) else (tv_sec, tv_nsec))"

lemma timeout_product:
  "uint ((t mod 1000) * 1000000 :: 32 word) = (uint t mod 1000) * 1000000"
proof -
  have "uint t mod 1000 * 1000000 < 2 ^ 32" using pos_mod_bound [of 1000 "uint t"] by simp
  moreover have "0 \<le> uint t mod 1000 * 1000000" by simp
  ultimately show ?thesis by (simp add: uint_word_ariths uint_mod mod_pos_pos_trivial)
qed

text \<open>
  C30: the absolute time is the current time plus the timeout, exactly, and its nanoseconds are
  in range (below \<open>10 ^ 9\<close>), so that the wait is never refused as invalid; the 32-bit product
  does not overflow.
\<close>

theorem deadline_correct:
  assumes "0 \<le> usec" and "usec < 1000000"
  shows "let (s, n) = deadline (sec, usec) timeout
         in 0 \<le> n \<and> n < 1000000000 \<and>
            s * 1000000000 + n = sec * 1000000000 + usec * 1000 + uint timeout * 1000000"
proof -
  obtain d r where dr: "uint timeout div 1000 = d" "uint timeout mod 1000 = r" by simp
  have split: "uint timeout = 1000 * d + r" unfolding dr [symmetric] by simp
  have r: "0 \<le> r" "r < 1000" unfolding dr(2) [symmetric] by simp_all
  have ns: "uint ((timeout mod 1000) * 1000000) = r * 1000000" and s: "uint (timeout div 1000) = d"
    by (simp_all add: timeout_product dr uint_div)
  show ?thesis
    using assms r unfolding deadline_def fst_conv snd_conv ns s split Let_def
    by (auto simp: algebra_simps)
qed

theorem deadline_witness:
  "let (s, n) = deadline (7, 900000) 2250
   in 0 \<le> n \<and> n < 1000000000 \<and> s * 1000000000 + n = 7 * 1000000000 + 900000 * 1000 + 2250 * 1000000"
  using deadline_correct [of 900000 7 2250] by simp

section \<open>Waiting\<close>

fun run_queue_op :: "queue_op \<Rightarrow> buffers \<Rightarrow> machine \<Rightarrow> (buffers \<times> machine) res" where
  "run_queue_op (Push_front p) q m = andThen (push_front p q m) (\<lambda>(n, q, m). Ok (q, m))"
| "run_queue_op (Push_back p) q m = andThen (push_back p q m) (\<lambda>(n, q, m). Ok (q, m))"
| "run_queue_op (Push_front_chain f l) q m =
     andThen (push_front_chain f l q m) (\<lambda>(n, q, m). Ok (q, m))"
| "run_queue_op (Push_back_chain f l) q m =
     andThen (push_back_chain f l q m) (\<lambda>(n, q, m). Ok (q, m))"
| "run_queue_op Pop_front q m = andThen (pop_front q m) (\<lambda>(p, q, m). Ok (q, m))"
| "run_queue_op Pop_all q m = andThen (pop_all q m) (\<lambda>(n, f, l, q, m). Ok (q, m))"

fun run_queue_ops :: "queue_op list \<Rightarrow> buffers \<Rightarrow> machine \<Rightarrow> (buffers \<times> machine) res" where
  "run_queue_ops [] q m = Ok (q, m)"
| "run_queue_ops (x # xs) q m =
     andThen (run_queue_op x q m) (\<lambda>(q, m). run_queue_ops xs q m)"

text \<open>\<open>pthread_cond_timedwait\<close>: true for a wake-up, false for a timeout or an error.\<close>

fun woken :: "reply \<Rightarrow> bool" where
  "woken (Wake ops) = True"
| "woken _ = False"

fun ops_of :: "reply \<Rightarrow> queue_op list" where
  "ops_of (Wake ops) = ops"
| "ops_of (TimedOut ops) = ops"
| "ops_of _ = []"

definition cond_timedwait ::
    "timespec \<Rightarrow> buffers \<Rightarrow> machine \<Rightarrow> (bool \<times> buffers \<times> machine) res" where
  "cond_timedwait ts q m =
     andThen (mutex_unlock (q_locked q)) (\<lambda>l. let q = q\<lparr>q_locked := l\<rparr> in
     andThen (syscall (Host (C_cond_timedwait (fst ts) (snd ts))) m) (\<lambda>(r, m).
     andThen (run_queue_ops (ops_of r) q m) (\<lambda>(q, m).
     andThen (mutex_lock (q_locked q)) (\<lambda>l.
       Ok (woken r, q\<lparr>q_locked := l\<rparr>, m)))))"

lemma link_replies:
  "set_next p x m = Ok m' \<Longrightarrow> replies m' = replies m"
  "set_prev p x m = Ok m' \<Longrightarrow> replies m' = replies m"
  by (auto simp: set_next_def set_prev_def modify_Ok_iff)

lemma link_trace:
  "set_next p x m = Ok m' \<Longrightarrow> trace m' = trace m"
  "set_prev p x m = Ok m' \<Longrightarrow> trace m' = trace m"
  by (auto simp: set_next_def set_prev_def modify_Ok_iff)

lemma unlink_trace:
  "unlink_first p q m = Ok (q', m') \<Longrightarrow> trace m' = trace m"
  "unlink_all q m = Ok (n, f, l, q', m') \<Longrightarrow> trace m' = trace m"
  by (auto simp: unlink_first_def unlink_all_def andThen_Ok_iff dest!: link_trace)

lemma pop_trace:
  "pop_front q m = Ok (p, q', m') \<Longrightarrow> trace m' = trace m"
  "pop_all q m = Ok (n, f, l, q', m') \<Longrightarrow> trace m' = trace m"
  by (auto simp: pop_front_def pop_all_def andThen_Ok_iff Let_def split: if_splits dest!: unlink_trace)

lemma run_queue_op_replies: "run_queue_op x q m = Ok (q', m') \<Longrightarrow> replies m' = replies m"
  by (cases x)
     (auto simp: push_front_chain_self push_back_chain_self push_front_chain_def
        push_back_chain_def pop_front_def pop_all_def unlink_first_def unlink_all_def
        cond_signal_def andThen_Ok_iff Let_def split: if_splits dest!: link_replies)

lemma run_queue_ops_replies: "run_queue_ops xs q m = Ok (q', m') \<Longrightarrow> replies m' = replies m"
proof (induction xs arbitrary: q m)
  case (Cons x xs)
  then show ?case by (auto simp: andThen_Ok_iff dest: run_queue_op_replies)
qed simp

lemma cond_timedwait_shorter:
  "cond_timedwait ts q m = Ok (w, q', m') \<Longrightarrow> length (replies m') < length (replies m)"
  by (cases "replies m")
     (auto simp: cond_timedwait_def andThen_Ok_iff Let_def split: reply.splits
        dest!: run_queue_ops_replies)

text \<open>The loop of \<open>pop_front(timeout)\<close>, entered and left as the code does.\<close>

function pop_front_wait :: "timespec \<Rightarrow> buffers \<Rightarrow> machine \<Rightarrow> (ptr \<times> buffers \<times> machine) res" where
  "pop_front_wait ts q m =
     andThen (cond_timedwait ts q m) (\<lambda>(w, q, m).
       if w then
         andThen (get_next (header q) m) (\<lambda>buf.
           if buf \<noteq> header q then
             andThen (unlink_first buf q m) (\<lambda>(q, m).
             andThen (mutex_unlock (q_locked q)) (\<lambda>l. Ok (buf, q\<lparr>q_locked := l\<rparr>, m)))
           else pop_front_wait ts q m)
       else
         andThen (mutex_unlock (q_locked q)) (\<lambda>l. Ok (nullptr, q\<lparr>q_locked := l\<rparr>, m)))"
  by pat_completeness auto
termination
  by (relation "measure (\<lambda>(ts, q, m). length (replies m))") (auto dest: cond_timedwait_shorter)

definition pop_front_timed :: "32 word \<Rightarrow> buffers \<Rightarrow> machine \<Rightarrow> (ptr \<times> buffers \<times> machine) res" where
  "pop_front_timed timeout q m =
     andThen (mutex_lock (q_locked q)) (\<lambda>l. let q = q\<lparr>q_locked := l\<rparr> in
     andThen (get_next (header q) m) (\<lambda>buf.
       if buf \<noteq> header q then
         andThen (unlink_first buf q m) (\<lambda>(q, m).
         andThen (mutex_unlock (q_locked q)) (\<lambda>l. Ok (buf, q\<lparr>q_locked := l\<rparr>, m)))
       else
         andThen (sys_gettimeofday m) (\<lambda>(now, m). pop_front_wait (deadline now timeout) q m)))"

text \<open>The loop of \<open>pop(first, last, timeout)\<close>.\<close>

function pop_all_wait ::
    "timespec \<Rightarrow> buffers \<Rightarrow> machine \<Rightarrow> (size_t \<times> ptr \<times> ptr \<times> buffers \<times> machine) res" where
  "pop_all_wait ts q m =
     andThen (cond_timedwait ts q m) (\<lambda>(w, q, m).
       if w then
         andThen (get_next (header q) m) (\<lambda>n.
           if n \<noteq> header q then
             andThen (unlink_all q m) (\<lambda>(c, first, final, q, m).
             andThen (mutex_unlock (q_locked q)) (\<lambda>l.
               Ok (c, first, final, q\<lparr>q_locked := l\<rparr>, m)))
           else pop_all_wait ts q m)
       else
         andThen (mutex_unlock (q_locked q)) (\<lambda>l.
           Ok (0, nullptr, nullptr, q\<lparr>q_locked := l\<rparr>, m)))"
  by pat_completeness auto
termination
  by (relation "measure (\<lambda>(ts, q, m). length (replies m))") (auto dest: cond_timedwait_shorter)

definition pop_all_timed ::
    "32 word \<Rightarrow> buffers \<Rightarrow> machine \<Rightarrow> (size_t \<times> ptr \<times> ptr \<times> buffers \<times> machine) res" where
  "pop_all_timed timeout q m =
     andThen (mutex_lock (q_locked q)) (\<lambda>l. let q = q\<lparr>q_locked := l\<rparr> in
     andThen (get_next (header q) m) (\<lambda>n.
       if n \<noteq> header q then
         andThen (unlink_all q m) (\<lambda>(c, first, final, q, m).
         andThen (mutex_unlock (q_locked q)) (\<lambda>l.
           Ok (c, first, final, q\<lparr>q_locked := l\<rparr>, m)))
       else
         andThen (sys_gettimeofday m) (\<lambda>(now, m). pop_all_wait (deadline now timeout) q m)))"

declare pop_front_wait.simps [simp del] pop_all_wait.simps [simp del]

section \<open>What a wait does to the list\<close>

text \<open>
  The effect on the list of what the other threads do. They push buffers they own: live, not
  the header and not in the queue. (Chains are only pushed by the thread that waits.)
\<close>

fun op_effect :: "(ptr \<Rightarrow> bool) \<Rightarrow> ptr \<Rightarrow> queue_op \<Rightarrow> ptr list \<Rightarrow> ptr list option" where
  "op_effect live z (Push_front p) xs = (if live p \<and> p \<notin> set (z # xs) then Some (p # xs) else None)"
| "op_effect live z (Push_back p) xs = (if live p \<and> p \<notin> set (z # xs) then Some (xs @ [p]) else None)"
| "op_effect live z Pop_front xs = Some (tl xs)"
| "op_effect live z Pop_all xs = Some []"
| "op_effect live z _ xs = None"

fun ops_effect :: "(ptr \<Rightarrow> bool) \<Rightarrow> ptr \<Rightarrow> queue_op list \<Rightarrow> ptr list \<Rightarrow> ptr list option" where
  "ops_effect live z [] xs = Some xs"
| "ops_effect live z (x # ops) xs = Option.bind (op_effect live z x xs) (ops_effect live z ops)"

text \<open>
  The wait as its contract states it: it ends with the first wake-up that finds the list not
  empty (true), or with a timeout or an error (false), and gives the list at that moment.
\<close>

datatype outcome = Never | Misuse | Ends bool "ptr list"

fun await :: "(ptr \<Rightarrow> bool) \<Rightarrow> ptr \<Rightarrow> reply list \<Rightarrow> outcome" where
  "await live z [] = Never"
| "await live z (r # rs) =
     (case ops_effect live z (ops_of r) [] of
        None \<Rightarrow> Misuse
      | Some xs \<Rightarrow> if woken r \<and> xs = [] then await live z rs else Ends (woken r) xs)"

lemma relinked_live: "relinked A m m' \<Longrightarrow> (cells m' p = None) = (cells m p = None)"
  by (auto simp: relinked_def contentof_def dest!: spec [of _ p])

lemma relinked_trans:
  assumes "relinked A m m'" and "relinked B m' m''" shows "relinked (A \<union> B) m m''"
proof -
  have "m' = m\<lparr>cells := cells m', trace := trace m'\<rparr>"
    and "m'' = m'\<lparr>cells := cells m'', trace := trace m''\<rparr>"
    using assms by (simp_all add: relinked_def)
  then have "m'' = m\<lparr>cells := cells m'', trace := trace m''\<rparr>"
    by (metis machine.surjective machine.update_convs(1) machine.update_convs(9))
  with assms show ?thesis by (simp add: relinked_def)
qed

text \<open>The buffers that others push, and a step that relinks only the buffers of \<open>A\<close>.\<close>

fun pushed :: "queue_op \<Rightarrow> ptr set" where
  "pushed (Push_front p) = {p}"
| "pushed (Push_back p) = {p}"
| "pushed _ = {}"

definition pushed_in :: "reply list \<Rightarrow> ptr set" where
  "pushed_in rs = (\<Union>r \<in> set rs. \<Union>x \<in> set (ops_of r). pushed x)"

definition shuffled :: "ptr set \<Rightarrow> machine \<Rightarrow> machine \<Rightarrow> bool" where
  "shuffled A m m' \<longleftrightarrow>
     (\<forall>p. p \<notin> A \<longrightarrow> cells m' p = cells m p) \<and>
     (\<forall>p. contentof (cells m') p = contentof (cells m) p) \<and>
     blocks m' = blocks m \<and> brk m' = brk m \<and> files m' = files m \<and> tz m' = tz m \<and>
     length (replies m') \<le> length (replies m)"

lemma shuffled_relinked: "relinked A m m' \<Longrightarrow> shuffled A m m'"
  using relinked_fields [of A m m'] by (simp add: shuffled_def relinked_def)

lemma shuffled_trans: "shuffled A a b \<Longrightarrow> shuffled B b c \<Longrightarrow> shuffled (A \<union> B) a c"
  by (simp add: shuffled_def)

lemma shuffled_mono: "shuffled A m m' \<Longrightarrow> A \<subseteq> B \<Longrightarrow> shuffled B m m'"
  by (auto simp: shuffled_def)

lemma op_effect_set: "op_effect live z x xs = Some ys \<Longrightarrow> set ys \<subseteq> set xs \<union> pushed x"
  by (cases x; cases xs) (auto split: if_splits)

lemma pushed_Cons: "pushed_in (r # rs) = (\<Union>x \<in> set (ops_of r). pushed x) \<union> pushed_in rs"
  by (simp add: pushed_in_def)

lemma run_queue_op_Ok:
  assumes "heap_ok m" and "queue_list m q xs"
    and "op_effect (\<lambda>p. cells m p \<noteq> None) (header q) x xs = Some ys"
  shows "\<exists>q' m'. run_queue_op x q m = Ok (q', m') \<and> queue_list m' q' ys \<and>
           header q' = header q \<and> relinked (set (header q # xs) \<union> pushed x) m m'"
proof -
  let ?A = "set (header q # xs) \<union> pushed x"
  have refl: "relinked ?A m m" by (simp add: relinked_def)
  have mono: "relinked ?A m m'" if "relinked B m m'" "B \<subseteq> ?A" for B m'
    using that by (rule relinked_mono)
  show ?thesis
  proof (cases x)
    case (Push_front p)
    with assms(3) have own: "own_chain m q xs p [p] p" and "ys = [p] @ xs"
      by (auto intro!: own_chain_single split: if_splits)
    with push_front_chain_Ok [OF assms(1,2) own] Push_front show ?thesis
      by (auto simp: push_front_chain_self intro!: mono)
  next
    case (Push_back p)
    with assms(3) have own: "own_chain m q xs p [p] p" and "ys = xs @ [p]"
      by (auto intro!: own_chain_single split: if_splits)
    with push_back_chain_Ok [OF assms(1,2) own] Push_back show ?thesis
      by (auto simp: push_back_chain_self intro!: mono)
  next
    case Pop_front
    show ?thesis
    proof (cases xs)
      case Nil
      with Pop_front assms(2,3) refl show ?thesis by (auto simp: pop_front_Nil)
    next
      case (Cons y zs)
      from pop_front_Cons [OF assms(2) [unfolded Cons]] obtain q' m' where
        p: "pop_front q m = Ok (y, q', m')" "queue_list m' q' zs" "header q' = header q"
          "relinked (set (header q # zs)) m m'" by blast
      have "relinked ?A m m'" by (rule mono [OF p(4)]) (auto simp: Cons)
      with p Pop_front Cons assms(3) show ?thesis by auto
    qed
  next
    case Pop_all
    show ?thesis
    proof (cases "xs = []")
      case True
      with Pop_all assms(2,3) refl show ?thesis by (auto simp: pop_all_Nil)
    next
      case False
      from pop_all_Cons [OF assms(2) False] obtain q' m' where
        p: "pop_all q m = Ok (of_nat (length xs), hd xs, last xs, q', m')" "queue_list m' q' []"
          "header q' = header q" "relinked {header q} m m'" by blast
      have "relinked ?A m m'" by (rule mono [OF p(4)]) simp
      with p Pop_all assms(3) show ?thesis by auto
    qed
  qed (use assms(3) in auto)
qed

lemma run_queue_ops_Ok:
  assumes "heap_ok m" and "queue_list m q xs"
    and "ops_effect (\<lambda>p. cells m p \<noteq> None) (header q) ops xs = Some ys"
  shows "\<exists>q' m'. run_queue_ops ops q m = Ok (q', m') \<and> queue_list m' q' ys \<and>
           header q' = header q \<and>
           relinked (set (header q # xs) \<union> (\<Union>x \<in> set ops. pushed x)) m m'"
  using assms
proof (induction ops arbitrary: q m xs)
  case Nil
  then show ?case by (simp add: relinked_def)
next
  case (Cons x ops)
  then obtain zs where z: "op_effect (\<lambda>p. cells m p \<noteq> None) (header q) x xs = Some zs"
    "ops_effect (\<lambda>p. cells m p \<noteq> None) (header q) ops zs = Some ys"
    by (auto simp: bind_eq_Some_conv)
  from run_queue_op_Ok [OF Cons.prems(1,2) z(1)] obtain q1 m1 where
    1: "run_queue_op x q m = Ok (q1, m1)" "queue_list m1 q1 zs" "header q1 = header q"
      "relinked (set (header q # xs) \<union> pushed x) m m1" by blast
  have "heap_ok m1" by (rule relinked_heap_ok [OF 1(4) Cons.prems(1)])
  from Cons.IH [OF this 1(2)] z(2) 1(3) relinked_live [OF 1(4)] obtain q2 m2 where
    "run_queue_ops ops q1 m1 = Ok (q2, m2)" "queue_list m2 q2 ys" "header q2 = header q"
    and rl: "relinked (set (header q1 # zs) \<union> (\<Union>x \<in> set ops. pushed x)) m1 m2" by auto
  moreover have "relinked (set (header q # xs) \<union> (\<Union>x \<in> set (x # ops). pushed x)) m m2"
    by (rule relinked_mono [OF relinked_trans [OF 1(4) rl]]) (use op_effect_set [OF z(1)] 1(3) in auto)
  ultimately show ?case using 1(1) by auto
qed

text \<open>One wait: the mutex is released, the other threads run, the mutex is held again.\<close>

lemma cond_timedwait_Ok:
  assumes "heap_ok m" and "queue_list m q xs" and "replies m = r # rs"
    and "ops_effect (\<lambda>p. cells m p \<noteq> None) (header q) (ops_of r) xs = Some ys"
  shows "\<exists>q' m'. cond_timedwait ts (q\<lparr>q_locked := True\<rparr>) m = Ok (woken r, q'\<lparr>q_locked := True\<rparr>, m') \<and>
           queue_list m' q' ys \<and> header q' = header q \<and> heap_ok m' \<and> replies m' = rs \<and>
           (\<forall>p. (cells m' p = None) = (cells m p = None)) \<and> (\<forall>p. view p m' = view p m) \<and>
           shuffled (set (header q # xs) \<union> (\<Union>x \<in> set (ops_of r). pushed x)) m m'"
proof -
  let ?m = "m\<lparr>replies := rs, errno := errno_after r (errno m),
              trace := trace m @ [(Host (C_cond_timedwait (fst ts) (snd ts)), r)]\<rparr>"
  have ok: "heap_ok ?m" and q: "queue_list ?m q xs" and unl: "q\<lparr>q_locked := False\<rparr> = q"
    using assms(1,2) by (simp_all cong: heap_ok_cong add: queue_list_def)
  from run_queue_ops_Ok [OF ok q, of "ops_of r" ys] assms(4) obtain q' m' where
    run: "run_queue_ops (ops_of r) q ?m = Ok (q', m')" "queue_list m' q' ys"
      "header q' = header q"
      "relinked (set (header q # xs) \<union> (\<Union>x \<in> set (ops_of r). pushed x)) ?m m'" by auto
  have "shuffled {} m ?m" using assms(3) by (simp add: shuffled_def)
  from shuffled_trans [OF this shuffled_relinked [OF run(4)]]
  have "shuffled (set (header q # xs) \<union> (\<Union>x \<in> set (ops_of r). pushed x)) m m'" by simp
  moreover have "cond_timedwait ts (q\<lparr>q_locked := True\<rparr>) m = Ok (woken r, q'\<lparr>q_locked := True\<rparr>, m')"
    using assms(3) run unl by (simp add: cond_timedwait_def queue_list_def)
  moreover have "heap_ok m'" by (rule relinked_heap_ok [OF run(4) ok])
  moreover have "replies m' = rs" using relinked_fields(7) [OF run(4)] by simp
  moreover have "(cells m' p = None) = (cells m p = None)" for p
    using relinked_live [OF run(4)] by simp
  moreover have "view p m' = view p m" for p
    using relinked_view [OF run(4), of p] view_same_mem [of m ?m p] by (simp add: same_mem_def)
  ultimately show ?thesis using run(2,3) by auto
qed

text \<open>A pop under the mutex, as the pop that takes the mutex does it.\<close>

lemma pop_front_held:
  "\<not> q_locked q \<Longrightarrow>
   pop_front q m = andThen (get_next (header q) m) (\<lambda>buf.
     if buf \<noteq> header q then
       andThen (unlink_first buf (q\<lparr>q_locked := True\<rparr>) m) (\<lambda>(q, m).
       andThen (mutex_unlock (q_locked q)) (\<lambda>l. Ok (buf, q\<lparr>q_locked := l\<rparr>, m)))
     else Ok (nullptr, q, m))"
  by (cases "get_next (header q) m") (auto simp: pop_front_def Let_def andThen_assoc split_def)

lemma pop_all_held:
  "\<not> q_locked q \<Longrightarrow>
   pop_all q m = andThen (get_next (header q) m) (\<lambda>n.
     if n \<noteq> header q then
       andThen (unlink_all (q\<lparr>q_locked := True\<rparr>) m) (\<lambda>(c, first, final, q, m).
       andThen (mutex_unlock (q_locked q)) (\<lambda>l. Ok (c, first, final, q\<lparr>q_locked := l\<rparr>, m)))
     else Ok (0, nullptr, nullptr, q, m))"
  by (cases "get_next (header q) m") (auto simp: pop_all_def Let_def)

lemma queue_list_next:
  "queue_list m q xs \<Longrightarrow> get_next (header q) m = Ok (if xs = [] then header q else hd xs)"
  using ring_next [of "cells m" "header q" xs] by (auto simp: queue_list_def get_nextof)

lemma queue_list_hd: "queue_list m q xs \<Longrightarrow> xs \<noteq> [] \<Longrightarrow> hd xs \<noteq> header q"
  by (cases xs) (auto simp: queue_list_def ring_def)

lemma queue_list_unlocked [simp]:
  "queue_list m q xs \<Longrightarrow> q\<lparr>q_locked := False\<rparr> = q" "queue_list m q xs \<Longrightarrow> \<not> q_locked q"
  by (simp_all add: queue_list_def)

lemma pop_front_wait_Ok:
  assumes "heap_ok m" and "queue_list m q []"
  shows "case await (\<lambda>p. cells m p \<noteq> None) (header q) (replies m) of
           Never \<Rightarrow> pop_front_wait ts (q\<lparr>q_locked := True\<rparr>) m = Blocked
         | Misuse \<Rightarrow> True
         | Ends w xs \<Rightarrow> \<exists>q' m'.
             pop_front_wait ts (q\<lparr>q_locked := True\<rparr>) m = Ok (if w then hd xs else 0, q', m') \<and>
             heap_ok m' \<and> queue_list m' q' (if w then tl xs else xs) \<and> (\<forall>p. view p m' = view p m)"
  using assms
proof (induction "replies m" arbitrary: q m)
  case Nil
  from Nil.hyps [symmetric] Nil.prems show ?case
    by (simp add: pop_front_wait.simps [of ts "q\<lparr>q_locked := True\<rparr>"] cond_timedwait_def)
next
  case (Cons r rs)
  note rep = Cons.hyps(2) [symmetric]
  show ?case
  proof (cases "ops_effect (\<lambda>p. cells m p \<noteq> None) (header q) (ops_of r) []")
    case None
    then show ?thesis by (simp add: rep)
  next
    case (Some xs)
    from cond_timedwait_Ok [OF Cons.prems rep Some, of ts] obtain q1 m1 where
      wait: "cond_timedwait ts (q\<lparr>q_locked := True\<rparr>) m = Ok (woken r, q1\<lparr>q_locked := True\<rparr>, m1)"
      and q1: "queue_list m1 q1 xs" "header q1 = header q" "heap_ok m1" "rs = replies m1"
        "\<And>p. (cells m1 p = None) = (cells m p = None)" "\<And>p. view p m1 = view p m" by blast
    note unf = pop_front_wait.simps [of ts "q\<lparr>q_locked := True\<rparr>" m, unfolded wait, simplified]
    consider (again) "woken r" "xs = []" | (popped) "woken r" "xs \<noteq> []" | (timeout) "\<not> woken r"
      by blast
    then show ?thesis
    proof cases
      case again
      with q1 have e: "queue_list m1 q1 []" by simp
      from queue_list_next [OF e] have "pop_front_wait ts (q\<lparr>q_locked := True\<rparr>) m =
          pop_front_wait ts (q1\<lparr>q_locked := True\<rparr>) m1" using again by (simp add: unf)
      moreover have "await (\<lambda>p. cells m p \<noteq> None) (header q) (replies m) =
          await (\<lambda>p. cells m1 p \<noteq> None) (header q1) (replies m1)"
        using again Some q1(2,4,5) by (simp add: rep)
      ultimately show ?thesis using Cons.hyps(1) [OF q1(4,3) e] by (simp only: q1(6))
    next
      case popped
      then obtain y ys where xs: "xs = y # ys" by (cases xs) auto
      from pop_front_Cons [OF q1(1) [unfolded xs]] obtain q2 m2 where
        pop: "pop_front q1 m1 = Ok (y, q2, m2)" and q2: "queue_list m2 q2 ys"
        and rl: "relinked (set (header q1 # ys)) m1 m2" by blast
      have "pop_front_wait ts (q\<lparr>q_locked := True\<rparr>) m = pop_front q1 m1"
        using popped queue_list_next [OF q1(1)] queue_list_hd [OF q1(1)]
        by (simp add: unf pop_front_held [OF queue_list_unlocked(2) [OF q1(1)]])
      with pop q2 popped xs Some relinked_heap_ok [OF rl q1(3)] relinked_view [OF rl] q1(6)
      show ?thesis by (simp add: rep)
    next
      case timeout
      with q1 Some show ?thesis by (simp add: unf rep)
    qed
  qed
qed

lemma pop_all_wait_Ok:
  assumes "heap_ok m" and "queue_list m q []"
  shows "case await (\<lambda>p. cells m p \<noteq> None) (header q) (replies m) of
           Never \<Rightarrow> pop_all_wait ts (q\<lparr>q_locked := True\<rparr>) m = Blocked
         | Misuse \<Rightarrow> True
         | Ends w xs \<Rightarrow> \<exists>n first final q' m'.
             pop_all_wait ts (q\<lparr>q_locked := True\<rparr>) m = Ok (n, first, final, q', m') \<and>
             heap_ok m' \<and> queue_list m' q' (if w then [] else xs) \<and> (\<forall>p. view p m' = view p m) \<and>
             header q' = header q \<and> shuffled (insert (header q) (pushed_in (replies m))) m m' \<and>
             (if w then n = of_nat (length xs) \<and> own_chain m' q' [] first xs final
              else n = 0 \<and> first = 0 \<and> final = 0)"
  using assms
proof (induction "replies m" arbitrary: q m)
  case Nil
  from Nil.hyps [symmetric] Nil.prems show ?case
    by (simp add: pop_all_wait.simps [of ts "q\<lparr>q_locked := True\<rparr>"] cond_timedwait_def)
next
  case (Cons r rs)
  note rep = Cons.hyps(2) [symmetric]
  show ?case
  proof (cases "ops_effect (\<lambda>p. cells m p \<noteq> None) (header q) (ops_of r) []")
    case None
    then show ?thesis by (simp add: rep)
  next
    case (Some xs)
    from cond_timedwait_Ok [OF Cons.prems rep Some, of ts] obtain q1 m1 where
      wait: "cond_timedwait ts (q\<lparr>q_locked := True\<rparr>) m = Ok (woken r, q1\<lparr>q_locked := True\<rparr>, m1)"
      and q1: "queue_list m1 q1 xs" "header q1 = header q" "heap_ok m1" "rs = replies m1"
        "\<And>p. (cells m1 p = None) = (cells m p = None)" "\<And>p. view p m1 = view p m"
        "shuffled (set [header q] \<union> (\<Union>x \<in> set (ops_of r). pushed x)) m m1" by blast
    have sh1: "shuffled (insert (header q) (pushed_in (replies m))) m m1"
      by (rule shuffled_mono [OF q1(7)]) (auto simp: rep pushed_Cons)
    have sh: "shuffled (insert (header q) (pushed_in (replies m))) m m2"
      if "shuffled (insert (header q) (pushed_in rs)) m1 m2" for m2
      by (rule shuffled_mono [OF shuffled_trans [OF sh1 that]]) (auto simp: rep pushed_Cons)
    note unf = pop_all_wait.simps [of ts "q\<lparr>q_locked := True\<rparr>" m, unfolded wait, simplified]
    consider (again) "woken r" "xs = []" | (popped) "woken r" "xs \<noteq> []" | (timeout) "\<not> woken r"
      by blast
    then show ?thesis
    proof cases
      case again
      with q1 have e: "queue_list m1 q1 []" by simp
      from queue_list_next [OF e] have "pop_all_wait ts (q\<lparr>q_locked := True\<rparr>) m =
          pop_all_wait ts (q1\<lparr>q_locked := True\<rparr>) m1" using again by (simp add: unf)
      moreover have "await (\<lambda>p. cells m p \<noteq> None) (header q) (replies m) =
          await (\<lambda>p. cells m1 p \<noteq> None) (header q1) (replies m1)"
        using again Some q1(2,4,5) by (simp add: rep)
      ultimately show ?thesis using Cons.hyps(1) [OF q1(4,3) e] sh
        by (auto simp: q1(2,4,6) split: outcome.splits)
    next
      case popped
      from pop_all_Cons [OF q1(1) popped(2)] obtain q2 m2 where
        pop: "pop_all q1 m1 = Ok (of_nat (length xs), hd xs, last xs, q2, m2)"
        and q2: "queue_list m2 q2 []" "own_chain m2 q2 [] (hd xs) xs (last xs)" "header q2 = header q"
        and rl: "relinked {header q1} m1 m2"
        using q1(2) by auto
      have "shuffled (insert (header q) (pushed_in (replies m))) m m2"
        by (rule sh, rule shuffled_mono [OF shuffled_relinked [OF rl]]) (simp add: q1(2))
      moreover have "pop_all_wait ts (q\<lparr>q_locked := True\<rparr>) m = pop_all q1 m1"
        using popped queue_list_next [OF q1(1)] queue_list_hd [OF q1(1)]
        by (simp add: unf pop_all_held [OF queue_list_unlocked(2) [OF q1(1)]])
      ultimately show ?thesis
        using pop q2 popped Some relinked_heap_ok [OF rl q1(3)] relinked_view [OF rl] q1(6)
        by (simp add: rep)
    next
      case timeout
      with q1 sh1 Some show ?thesis by (simp add: unf rep)
    qed
  qed
qed

section \<open>Properties of the waiting operations\<close>

text \<open>
  \<open>pop_front(timeout)\<close> on a queue that holds buffers is \<open>pop_front\<close>: it returns the first at
  once, without asking for the time and without waiting. \<open>pop(first, last, timeout)\<close>
  likewise is \<open>pop\<close>.
\<close>

theorem timed_pop_immediate:
  assumes "queue_list m q xs" and "xs \<noteq> []"
  shows "pop_front_timed t q m = pop_front q m \<and> pop_all_timed t q m = pop_all q m"
  using queue_list_next [OF assms(1)] queue_list_hd [OF assms] assms
  by (simp add: pop_front_timed_def pop_all_timed_def Let_def queue_list_unlocked(2)
      pop_front_held pop_all_held)

theorem timed_pop_immediate_witness:
  "pop_front_timed 1000 sample_queue sample = pop_front sample_queue sample \<and>
   pop_all_timed 1000 sample_queue sample = pop_all sample_queue sample"
  by (rule timed_pop_immediate [OF sample_queue_list]) simp

text \<open>
  \<open>pop_front(timeout)\<close> on an empty queue. Every wake-up that finds the queue empty, spurious
  or robbed by another consumer, waits again; the first that finds buffers takes the first of
  them; a timeout or an error gives \<open>nullptr\<close> and takes nothing, even when a buffer arrived
  together with the timeout. Whatever the other threads pushed meanwhile stays in the queue
  in order, the mutex is released, and contents are untouched. It never returns only if no
  wake-up finds a buffer and the wait never times out.
\<close>

theorem pop_front_timed_waits:
  assumes "heap_ok m" and "queue_list m q []" and "replies m = now # rs"
  shows "case await (\<lambda>p. cells m p \<noteq> None) (header q) rs of
           Never \<Rightarrow> pop_front_timed t q m = Blocked
         | Misuse \<Rightarrow> True
         | Ends w xs \<Rightarrow> \<exists>q' m'.
             pop_front_timed t q m = Ok (if w then hd xs else 0, q', m') \<and>
             heap_ok m' \<and> queue_list m' q' (if w then tl xs else xs) \<and> (\<forall>p. view p m' = view p m)"
proof -
  let ?m = "m\<lparr>replies := rs, errno := errno_after now (errno m),
              trace := trace m @ [(Host C_gettimeofday, now)]\<rparr>"
  have ok: "heap_ok ?m" and q: "queue_list ?m q []"
    using assms by (simp_all cong: heap_ok_cong add: queue_list_def)
  obtain tv where run: "pop_front_timed t q m = pop_front_wait (deadline tv t) (q\<lparr>q_locked := True\<rparr>) ?m"
    using assms queue_list_next [OF assms(2)]
    by (cases now) (auto simp: pop_front_timed_def sys_gettimeofday_def Let_def queue_list_unlocked(2))
  have v: "view p ?m = view p m" for p by (rule view_same_mem) (simp add: same_mem_def)
  show ?thesis using pop_front_wait_Ok [OF ok q, of "deadline tv t"] unfolding run v by simp
qed

text \<open>
  A queue that is empty, in the heap of the other samples; a robbed wake-up, then one that finds
  two buffers.
\<close>

definition sample_wait :: machine where
  "sample_wait = sample\<lparr>
     cells := (cells sample)(1 \<mapsto> \<lparr>buf_data = 0, buf_length = 0, buf_prev = 1, buf_next = 1\<rparr>),
     replies := [Ret 1500, Wake [Push_back 4, Pop_front], Wake [Push_back 5, Push_front 4],
                 TimedOut []]\<rparr>"

definition sample_empty_queue :: buffers where
  "sample_empty_queue = \<lparr>header = 1, count = 0, q_locked = False\<rparr>"

lemma sample_wait_ok: "heap_ok sample_wait"
proof -
  let ?b = "\<lparr>buf_data = 0, buf_length = 0, buf_prev = 3, buf_next = 2\<rparr>"
  have "cells sample 1 = Some ?b" by (simp add: sample_def)
  from heap_ok_links [OF sample_heap_ok this,
      of "\<lparr>buf_data = 0, buf_length = 0, buf_prev = 1, buf_next = 1\<rparr>"]
  show ?thesis by (subst heap_ok_cong) (auto simp: sample_wait_def)
qed

lemma sample_wait_queue: "queue_list sample_wait sample_empty_queue []"
  by (simp add: queue_list_def ring_def prevof_def sample_wait_def sample_empty_queue_def)

lemma sample_wait_replies:
  "replies sample_wait = Ret 1500 # tl (replies sample_wait)"
  by (simp add: sample_wait_def)

lemma sample_await:
  "await (\<lambda>p. cells sample_wait p \<noteq> None) (header sample_empty_queue) (tl (replies sample_wait)) =
     Ends True [4, 5]"
  by (simp add: sample_wait_def sample_empty_queue_def sample_def)

theorem pop_front_timed_waits_witness:
  "\<exists>q' m'. pop_front_timed 1000 sample_empty_queue sample_wait = Ok (4, q', m') \<and> heap_ok m' \<and>
     queue_list m' q' [5]"
  using pop_front_timed_waits [OF sample_wait_ok sample_wait_queue sample_wait_replies, of 1000]
  unfolding sample_await by auto

lemma pop_all_timed_Ok:
  assumes "heap_ok m" and "queue_list m q []" and "replies m = now # rs"
  shows "case await (\<lambda>p. cells m p \<noteq> None) (header q) rs of
           Never \<Rightarrow> pop_all_timed t q m = Blocked
         | Misuse \<Rightarrow> True
         | Ends w xs \<Rightarrow> \<exists>n first final q' m'.
             pop_all_timed t q m = Ok (n, first, final, q', m') \<and>
             heap_ok m' \<and> queue_list m' q' (if w then [] else xs) \<and> (\<forall>p. view p m' = view p m) \<and>
             header q' = header q \<and> shuffled (insert (header q) (pushed_in rs)) m m' \<and>
             (if w then n = of_nat (length xs) \<and> own_chain m' q' [] first xs final
              else n = 0 \<and> first = 0 \<and> final = 0)"
proof -
  let ?m = "m\<lparr>replies := rs, errno := errno_after now (errno m),
              trace := trace m @ [(Host C_gettimeofday, now)]\<rparr>"
  have ok: "heap_ok ?m" and q: "queue_list ?m q []"
    using assms by (simp_all cong: heap_ok_cong add: queue_list_def)
  obtain tv where run: "pop_all_timed t q m = pop_all_wait (deadline tv t) (q\<lparr>q_locked := True\<rparr>) ?m"
    using assms queue_list_next [OF assms(2)]
    by (cases now) (auto simp: pop_all_timed_def sys_gettimeofday_def Let_def queue_list_unlocked(2))
  have v: "view p ?m = view p m" for p by (rule view_same_mem) (simp add: same_mem_def)
  have sh: "shuffled A m m'" if "shuffled A ?m m'" for A m'
    using that assms(3) by (simp add: shuffled_def)
  show ?thesis using pop_all_wait_Ok [OF ok q, of "deadline tv t"] sh unfolding run v
    by (auto split: outcome.splits)
qed

text \<open>
  C29: \<open>pop(first, last, timeout)\<close> on an empty queue waits in the same way; the first wake-up that
  finds buffers hands out all of them as one chain, with their number, and a timeout or an
  error gives 0 and two null pointers and takes nothing.
\<close>

theorem pop_all_timed_waits:
  assumes "heap_ok m" and "queue_list m q []" and "replies m = now # rs"
  shows "case await (\<lambda>p. cells m p \<noteq> None) (header q) rs of
           Never \<Rightarrow> pop_all_timed t q m = Blocked
         | Misuse \<Rightarrow> True
         | Ends w xs \<Rightarrow> \<exists>n first final q' m'.
             pop_all_timed t q m = Ok (n, first, final, q', m') \<and>
             heap_ok m' \<and> queue_list m' q' (if w then [] else xs) \<and> (\<forall>p. view p m' = view p m) \<and>
             (if w then n = of_nat (length xs) \<and> own_chain m' q' [] first xs final
              else n = 0 \<and> first = 0 \<and> final = 0)"
  using pop_all_timed_Ok [OF assms, of t] by (auto split: outcome.splits)

theorem pop_all_timed_waits_witness:
  "\<exists>first final q' m'. pop_all_timed 1000 sample_empty_queue sample_wait = Ok (2, first, final, q', m') \<and>
     queue_list m' q' [] \<and> own_chain m' q' [] first [4, 5] final"
  using pop_all_timed_waits [OF sample_wait_ok sample_wait_queue sample_wait_replies, of 1000]
  unfolding sample_await by auto

end
