(* ===== verification/Allocator.thy ===== *)
theory Allocator
  imports Chain Interfaces
begin

text \<open>
  \<open>net::buffer::allocator\<close> (net/buffer.h, net/buffer.cpp): a free list of buffers behind a
  mutex, refilled with up to \<open>allocation\<close> fresh buffers when it is empty. The free list is
  abstracted to the list of the addresses it holds, most recently returned first.
\<close>

record allocator =
  alloc_first :: ptr
  alloc_locked :: bool

definition new_allocator :: allocator where
  "new_allocator = \<lparr>alloc_first = nullptr, alloc_locked = False\<rparr>"

definition allocation :: nat where
  "allocation = 10000"

fun allocate_loop :: "nat \<Rightarrow> allocator \<Rightarrow> machine \<Rightarrow> (allocator \<times> machine) res" where
  "allocate_loop 0 a m = Ok (a, m)"
| "allocate_loop (Suc i) a m =
     andThen (new_buffer m) (\<lambda>(buf, m).
       if buf \<noteq> nullptr then
         andThen (set_next buf (alloc_first a) m) (\<lambda>m.
           allocate_loop i (a\<lparr>alloc_first := buf\<rparr>) m)
       else Ok (a, m))"

definition allocate :: "allocator \<Rightarrow> machine \<Rightarrow> (bool \<times> allocator \<times> machine) res" where
  "allocate a m =
     andThen (allocate_loop allocation a m) (\<lambda>(a, m). Ok (alloc_first a \<noteq> nullptr, a, m))"

definition alloc_get :: "allocator \<Rightarrow> machine \<Rightarrow> (ptr \<times> allocator \<times> machine) res" where
  "alloc_get a m =
     andThen (mutex_lock (alloc_locked a)) (\<lambda>l. let a = a\<lparr>alloc_locked := l\<rparr> in
     andThen (if alloc_first a \<noteq> nullptr then Ok (True, a, m) else allocate a m)
       (\<lambda>(some, a, m).
       if some then
         let buf = alloc_first a in
         andThen (get_next (alloc_first a) m) (\<lambda>next. let a = a\<lparr>alloc_first := next\<rparr> in
         andThen (mutex_unlock (alloc_locked a)) (\<lambda>l.
           Ok (buf, a\<lparr>alloc_locked := l\<rparr>, m)))
       else
         andThen (mutex_unlock (alloc_locked a)) (\<lambda>l.
           Ok (nullptr, a\<lparr>alloc_locked := l\<rparr>, m))))"

definition alloc_put :: "ptr \<Rightarrow> allocator \<Rightarrow> machine \<Rightarrow> (allocator \<times> machine) res" where
  "alloc_put buf a m =
     andThen (mutex_lock (alloc_locked a)) (\<lambda>l. let a = a\<lparr>alloc_locked := l\<rparr> in
     andThen (set_next buf (alloc_first a) m) (\<lambda>m. let a = a\<lparr>alloc_first := buf\<rparr> in
     andThen (mutex_unlock (alloc_locked a)) (\<lambda>l.
       Ok (a\<lparr>alloc_locked := l\<rparr>, m))))"

definition alloc_destroy :: "allocator \<Rightarrow> machine \<Rightarrow> machine res" where
  "alloc_destroy a m = delete_chain (brk m) (alloc_first a) nullptr m"

section \<open>The free list\<close>

definition free_list :: "machine \<Rightarrow> allocator \<Rightarrow> ptr list \<Rightarrow> bool" where
  "free_list m a xs \<longleftrightarrow> \<not> alloc_locked a \<and> chain (cells m) (alloc_first a) xs 0"

lemma free_list_distinct:
  assumes "heap_ok m" and "free_list m a xs"
  shows "distinct xs" and "0 \<notin> set xs"
proof -
  show z: "0 \<notin> set xs"
    using chain_addresses [OF assms(1)] assms(2) unfolding free_list_def by fastforce
  show "distinct xs"
    using assms(2) z chain_distinct unfolding free_list_def by blast
qed

text \<open>Returning a buffer puts it in front.\<close>

lemma alloc_put_spec:
  assumes "free_list m a xs" and "cells m p = Some b" and "p \<notin> set xs"
  shows "alloc_put p a m =
           Ok (a\<lparr>alloc_first := p\<rparr>, m\<lparr>cells := (cells m)(p \<mapsto> b\<lparr>buf_next := alloc_first a\<rparr>)\<rparr>)"
    and "free_list (m\<lparr>cells := (cells m)(p \<mapsto> b\<lparr>buf_next := alloc_first a\<rparr>)\<rparr>)
           (a\<lparr>alloc_first := p\<rparr>) (p # xs)"
  using assms by (simp_all add: alloc_put_def free_list_def set_next_Some Let_def)

text \<open>With buffers in stock, the first one is handed out and memory is untouched.\<close>

lemma alloc_get_stock:
  assumes "heap_ok m" and "free_list m a (x # xs)"
  shows "\<exists>b. cells m x = Some b \<and> alloc_get a m = Ok (x, a\<lparr>alloc_first := buf_next b\<rparr>, m) \<and>
           free_list m (a\<lparr>alloc_first := buf_next b\<rparr>) xs"
proof -
  have "x \<noteq> 0" using free_list_distinct(2) [OF assms] by auto
  with assms(2) show ?thesis
    by (auto simp: alloc_get_def free_list_def get_next_Some Let_def split: option.splits)
qed

text \<open>
  Refilling: the loop pushes fresh zeroed buffers in front of the list until it has made
  \<open>n\<close> of them or an allocation fails.
\<close>

definition refilled :: "machine \<Rightarrow> ptr list \<Rightarrow> machine \<Rightarrow> bool" where
  "refilled m ys m' \<longleftrightarrow>
     set ys = {brk m..<brk m'} \<and> length ys = brk m' - brk m \<and> brk m \<le> brk m' \<and>
     blocks m' = blocks m \<and> (\<forall>p. p < brk m \<longrightarrow> cells m' p = cells m p) \<and> heap_ok m'"

lemma refilled_refl: "heap_ok m \<Longrightarrow> refilled m [] m"
  by (simp add: refilled_def)

lemma wp_new_buffer:
  assumes "heap_ok m"
  shows "wp (new_buffer m) (\<lambda>(p, m'). heap_ok m' \<and> blocks m' = blocks m \<and>
           (if p = 0 then cells m' = cells m \<and> brk m' = brk m
            else p = brk m \<and> brk m' = Suc (brk m) \<and> cells m (brk m) = None \<and>
                 cells m' = (cells m)(p \<mapsto>
                   \<lparr>buf_data = 0, buf_length = 0, buf_prev = 0, buf_next = 0\<rparr>)))"
proof (rule wpI)
  show "new_buffer m \<noteq> Fault"
    by (auto simp: new_buffer_def andThen_Fault_iff split: if_splits)
next
  fix x assume run: "new_buffer m = Ok x"
  obtain p m' where x: "x = (p, m')" by (cases x)
  from new_buffer_Ok [OF run [unfolded x]] heap_ok_new_buffer [OF assms run [unfolded x]]
    addr_ok_fresh(1) [OF heap_okD(1) [OF assms]] addr_ok_brk [OF heap_okD(1) [OF assms]]
  show "case x of (p, m') \<Rightarrow> heap_ok m' \<and> blocks m' = blocks m \<and>
           (if p = 0 then cells m' = cells m \<and> brk m' = brk m
            else p = brk m \<and> brk m' = Suc (brk m) \<and> cells m (brk m) = None \<and>
                 cells m' = (cells m)(p \<mapsto>
                   \<lparr>buf_data = 0, buf_length = 0, buf_prev = 0, buf_next = 0\<rparr>))"
    unfolding x by auto
qed

lemma wp_allocate_loop:
  assumes "heap_ok m" and "chain (cells m) (alloc_first a) xs 0"
  shows "wp (allocate_loop n a m) (\<lambda>(a', m'). \<exists>ys. refilled m ys m' \<and> length ys \<le> n \<and>
           alloc_locked a' = alloc_locked a \<and> chain (cells m') (alloc_first a') (ys @ xs) 0)"
  using assms
proof (induction n arbitrary: a m xs)
  case 0
  then show ?case using refilled_refl by (auto intro!: exI [of _ "[]"])
next
  case (Suc n)
  let ?post = "\<lambda>(a', m'). \<exists>ys. refilled m ys m' \<and> length ys \<le> Suc n \<and>
           alloc_locked a' = alloc_locked a \<and> chain (cells m') (alloc_first a') (ys @ xs) 0"
  show ?case
  proof (cases "new_buffer m")
    case (Ok x)
    then obtain p m1 where new: "new_buffer m = Ok (p, m1)" by (cases x) auto
    note m1 = wp_Ok [OF wp_new_buffer [OF Suc.prems(1)] new, simplified]
    show ?thesis
    proof (cases "p = 0")
      case True
      with m1 Suc.prems(2) have "refilled m [] m1 \<and> chain (cells m1) (alloc_first a) ([] @ xs) 0"
        by (simp add: refilled_def)
      with True show ?thesis by (auto simp: new)
    next
      case False
      let ?b = "\<lparr>buf_data = 0, buf_length = 0, buf_prev = 0, buf_next = alloc_first a\<rparr>"
      let ?m2 = "m1\<lparr>cells := (cells m1)(p \<mapsto> ?b)\<rparr>"
      from False m1 have pb: "p = brk m" and b1: "brk m1 = Suc (brk m)" and bl: "blocks m1 = blocks m"
        and c2: "cells ?m2 = (cells m)(p \<mapsto> ?b)"
        and old: "\<And>q. q < brk m \<Longrightarrow> cells m1 q = cells m q" by auto
      from False m1 have set: "set_next p (alloc_first a) m1 = Ok ?m2"
        by (simp add: set_next_Some)
      have ok2: "heap_ok ?m2" using heap_ok_set_next [OF _ set] m1 by simp
      have "p \<notin> set xs" using chain_addresses [OF Suc.prems] pb by auto
      with Suc.prems(2) have "chain (cells ?m2) (alloc_first (a\<lparr>alloc_first := p\<rparr>)) (p # xs) 0"
        unfolding c2 by simp
      from Suc.IH [OF ok2 this] have "wp (allocate_loop n (a\<lparr>alloc_first := p\<rparr>) ?m2) ?post"
      proof (rule wp_mono, goal_cases)
        case (1 y)
        then obtain a' m' ys where y: "y = (a', m')" and ys: "refilled ?m2 ys m'" "length ys \<le> n"
          "alloc_locked a' = alloc_locked a" "chain (cells m') (alloc_first a') (ys @ p # xs) 0"
          by auto
        have "refilled m (ys @ [p]) m'"
          using ys(1) old b1 pb bl unfolding refilled_def by (auto simp: less_Suc_eq)
        with y ys show ?case by (auto intro!: exI [of _ "ys @ [p]"])
      qed
      with False show ?thesis by (simp add: new set)
    qed
  qed (simp_all add: new_buffer_def andThen_Fault_iff syscall_def split: list.splits if_splits)
qed

text \<open>
  With nothing in stock, \<open>get\<close> refills the list first: it hands out the newest of the fresh
  buffers, or \<open>nullptr\<close> when not even one could be allocated.
\<close>

lemma wp_alloc_get_empty:
  assumes "heap_ok m" and "free_list m a []"
  shows "wp (alloc_get a m) (\<lambda>(p, a', m'). \<exists>ys. refilled m ys m' \<and> length ys \<le> allocation \<and>
           (case ys of [] \<Rightarrow> p = 0 | y # _ \<Rightarrow> p = y) \<and> free_list m' a' (tl ys))"
proof -
  let ?a = "a\<lparr>alloc_locked := True\<rparr>"
  let ?Q = "\<lambda>(p, a', m'). \<exists>ys. refilled m ys m' \<and> length ys \<le> allocation \<and>
           (case ys of [] \<Rightarrow> p = 0 | y # _ \<Rightarrow> p = y) \<and> free_list m' a' (tl ys)"
  from assms(2) have a: "alloc_first a = 0" "alloc_locked a = False" by (simp_all add: free_list_def)
  then have "chain (cells m) (alloc_first ?a) [] 0" by simp
  note loop = wp_allocate_loop [OF assms(1) this, of allocation]
  show ?thesis
  proof (cases "allocate_loop allocation ?a m")
    case (Ok x)
    then obtain a1 m1 where run: "allocate_loop allocation ?a m = Ok (a1, m1)" by (cases x) auto
    from wp_Ok [OF loop run] obtain ys where ys: "refilled m ys m1" "length ys \<le> allocation"
      "alloc_locked a1 = True" "chain (cells m1) (alloc_first a1) ys 0" by auto
    have "0 < brk m" by (rule addr_ok_brk [OF heap_okD(1) [OF assms(1)]])
    with ys(1) have "0 \<notin> set ys" by (auto simp: refilled_def)
    with a run ys show ?thesis
      by (cases ys)
         (auto simp: alloc_get_def allocate_def get_next_Some free_list_def Let_def
           split: option.splits intro!: exI [of _ ys])
  qed (use a loop in \<open>simp_all add: alloc_get_def allocate_def Let_def\<close>)
qed

lemma new_buffer_frame: "new_buffer m = Ok (p, m') \<Longrightarrow> files m' = files m \<and> host_only m m'"
  by (cases "replies m") (auto simp: new_buffer_def host_only_def split: if_splits)

lemma allocate_loop_frame:
  "allocate_loop n a m = Ok (a', m') \<Longrightarrow> files m' = files m \<and> host_only m m'"
proof (induction n arbitrary: a m)
  case (Suc n)
  from Suc.prems obtain p m1 where new: "new_buffer m = Ok (p, m1)" by (auto simp: andThen_Ok_iff)
  note f = new_buffer_frame [OF new]
  show ?case
  proof (cases "p = 0")
    case True
    with Suc.prems new f show ?thesis by simp
  next
    case False
    with Suc.prems new obtain m2 where m2: "set_next p (alloc_first a) m1 = Ok m2"
      "allocate_loop n (a\<lparr>alloc_first := p\<rparr>) m2 = Ok (a', m')" by (auto simp: andThen_Ok_iff)
    then have "files m2 = files m1" "host_only m1 m2"
      by (auto simp: set_next_def modify_Ok_iff host_only_def)
    with f Suc.IH [OF m2(2)] show ?thesis by (auto intro: host_only_trans)
  qed
qed simp

lemma alloc_get_frame: "alloc_get a m = Ok (p, a', m') \<Longrightarrow> files m' = files m \<and> host_only m m'"
  by (auto simp: alloc_get_def allocate_def andThen_Ok_iff Let_def split: if_splits
      dest!: allocate_loop_frame)

text \<open>The allocator provides the pool the sender returns its buffers to.\<close>

interpretation pool: buffer_pool heap_ok free_list "\<lambda>m p. cells m p \<noteq> None" alloc_put alloc_get
proof unfold_locales
  fix m a xs p
  assume ok: "heap_ok m" and fl: "free_list m a xs" and p: "cells m p \<noteq> None" "p \<notin> set xs"
  then obtain b where b: "cells m p = Some b" by auto
  from alloc_put_spec [OF fl b p(2)] heap_ok_links [OF ok b] b
  show "\<exists>a' m'. alloc_put p a m = Ok (a', m') \<and> heap_ok m' \<and> free_list m' a' (p # xs) \<and>
          (\<forall>r. (cells m' r \<noteq> None) = (cells m r \<noteq> None))" by auto
next
  fix m a x xs
  assume "heap_ok m" and "free_list m a (x # xs)"
  with alloc_get_stock show "\<exists>a' m'. alloc_get a m = Ok (x, a', m') \<and> heap_ok m' \<and>
      free_list m' a' xs \<and> (\<forall>r. (cells m' r \<noteq> None) = (cells m r \<noteq> None))" by blast
qed

definition sample_pool :: allocator where
  "sample_pool = \<lparr>alloc_first = 4, alloc_locked = False\<rparr>"

lemma sample_free_list: "free_list (sample\<lparr>replies := rs\<rparr>) sample_pool [4, 5]"
  by (simp add: free_list_def sample_def sample_pool_def)

lemma sample_no_free_list: "free_list (sample\<lparr>replies := rs\<rparr>) new_allocator []"
  by (simp add: free_list_def new_allocator_def)

text \<open>
  C33: the allocator implements a stack of free buffers. \<open>get\<close> on a non-empty list returns its
  first buffer and leaves the rest; on an empty one it returns a fresh buffer and keeps at most
  9,999 more, or returns \<open>nullptr\<close> exactly when no buffer could be allocated. In every case the
  mutex is released, no live buffer changes, and no pointer is followed that is not live.
\<close>

theorem alloc_get_correct:
  assumes "heap_ok m" and "free_list m a xs"
  shows "alloc_get a m \<noteq> Fault \<and>
         (\<forall>p a' m'. alloc_get a m = Ok (p, a', m') \<longrightarrow>
            heap_ok m' \<and> (\<forall>q < brk m. cells m' q = cells m q) \<and> blocks m' = blocks m \<and>
            (case xs of
               x # rest \<Rightarrow> p = x \<and> m' = m \<and> free_list m' a' rest
             | [] \<Rightarrow> (p = 0 \<longleftrightarrow> brk m' = brk m) \<and> brk m' - brk m \<le> 10000 \<and>
                     (\<exists>rest. free_list m' a' rest \<and>
                        set rest = {brk m..<brk m'} - {p} \<and> (p \<noteq> 0 \<longrightarrow> p \<in> {brk m..<brk m'}))))"
proof (cases xs)
  case Nil
  have wp: "wp (alloc_get a m) (\<lambda>(p, a', m'). heap_ok m' \<and> (\<forall>q < brk m. cells m' q = cells m q) \<and>
      blocks m' = blocks m \<and> (p = 0 \<longleftrightarrow> brk m' = brk m) \<and> brk m' - brk m \<le> 10000 \<and>
      (\<exists>rest. free_list m' a' rest \<and>
        set rest = {brk m..<brk m'} - {p} \<and> (p \<noteq> 0 \<longrightarrow> p \<in> {brk m..<brk m'})))"
  proof (rule wp_mono [OF wp_alloc_get_empty [OF assms(1) assms(2) [unfolded Nil]]], goal_cases)
    case (1 y)
    then obtain p a' m' ys where y: "y = (p, a', m')" and ys: "refilled m ys m'"
      "length ys \<le> allocation" "case ys of [] \<Rightarrow> p = 0 | y # _ \<Rightarrow> p = y" "free_list m' a' (tl ys)"
      by auto
    then have r: "set ys = {brk m..<brk m'}" "length ys = brk m' - brk m" "brk m \<le> brk m'"
      "blocks m' = blocks m" "\<forall>q < brk m. cells m' q = cells m q" "heap_ok m'"
      by (simp_all add: refilled_def)
    have pos: "0 < brk m" by (rule addr_ok_brk [OF heap_okD(1) [OF assms(1)]])
    have dist: "distinct ys" using r by (intro card_distinct) simp
    have "(p \<noteq> 0 \<longrightarrow> p \<in> {brk m..<brk m'}) \<and> (p = 0 \<longleftrightarrow> brk m' = brk m) \<and>
      set (tl ys) = {brk m..<brk m'} - {p}"
    proof (cases ys)
      case Nil
      with ys(3) r(2,3) pos show ?thesis by simp
    next
      case (Cons z zs)
      with r(1) have "z \<in> {brk m..<brk m'}" by (metis list.set_intros(1))
      moreover have "set (tl ys) = set ys - {z}" using dist Cons by auto
      ultimately show ?thesis using ys(3) pos Cons unfolding r(1) by simp
    qed
    moreover have "brk m' - brk m \<le> 10000" using r(2) ys(2) by (simp add: allocation_def)
    ultimately show ?case using r(4-6) ys(4) unfolding y by blast
  qed
  then show ?thesis unfolding Nil by (auto dest: wp_Ok wp_not_Fault)
next
  case (Cons x rest)
  with alloc_get_stock [OF assms(1) assms(2) [unfolded Cons]] assms(1) show ?thesis by auto
qed

text \<open>From the stock, and from an empty list with no memory left after two buffers.\<close>

theorem alloc_get_witness:
  "(\<exists>a'. alloc_get sample_pool sample = Ok (4, a', sample) \<and> free_list sample a' [5]) \<and>
   (\<exists>a' m'. alloc_get new_allocator (sample\<lparr>replies := [Ret 0, Ret 0, Err ENOSPC]\<rparr>) = Ok (13, a', m') \<and>
      heap_ok m' \<and> (\<exists>rest. free_list m' a' rest \<and> set rest = {12..<14} - {13}))"
proof
  have "\<exists>a'. alloc_get sample_pool sample = Ok (4, a', sample)"
    by (simp add: alloc_get_def sample_pool_def sample_def get_next_Some)
  with alloc_get_correct [OF sample_heap_ok, of sample_pool "[4, 5]"] sample_free_list [of "[]"]
  show "\<exists>a'. alloc_get sample_pool sample = Ok (4, a', sample) \<and> free_list sample a' [5]"
    by (auto simp: sample_def)
next
  let ?m = "sample\<lparr>replies := [Ret 0, Ret 0, Err ENOSPC]\<rparr>"
  have "\<exists>a' m'. allocate_loop (Suc (Suc (Suc k))) (new_allocator\<lparr>alloc_locked := True\<rparr>) ?m =
      Ok (a', m') \<and> alloc_first a' = 13 \<and> alloc_locked a' \<and> brk m' = 14 \<and> get_next 13 m' = Ok 12" for k
    by (simp add: new_buffer_def set_next_Some get_next_Some new_allocator_def sample_def)
  from this [of 9997] obtain a1 m1 where
    "allocate_loop allocation (new_allocator\<lparr>alloc_locked := True\<rparr>) ?m = Ok (a1, m1)"
    "alloc_first a1 = 13" "alloc_locked a1" "brk m1 = 14" "get_next 13 m1 = Ok 12"
    by (auto simp: allocation_def)
  then obtain a' m' where "alloc_get new_allocator ?m = Ok (13, a', m')" "brk m' = 14"
    by (simp add: alloc_get_def allocate_def new_allocator_def Let_def)
  with alloc_get_correct [OF sample_env_heap_ok sample_no_free_list] 
  show "\<exists>a' m'. alloc_get new_allocator ?m = Ok (13, a', m') \<and>
      heap_ok m' \<and> (\<exists>rest. free_list m' a' rest \<and> set rest = {12..<14} - {13})"
    by (fastforce simp: sample_def)
qed

text \<open>
  a buffer that is put back is the next one handed out, and the pool is then what it was.
\<close>

theorem alloc_put_get:
  assumes "heap_ok m" and "free_list m a xs" and "cells m p \<noteq> None" and "p \<notin> set xs"
  shows "\<exists>a1 m1 a2 m2. alloc_put p a m = Ok (a1, m1) \<and> alloc_get a1 m1 = Ok (p, a2, m2) \<and>
           heap_ok m2 \<and> free_list m2 a2 xs"
  by (rule pool.put_then_get [OF assms])

theorem alloc_put_get_witness:
  "\<exists>a1 m1 a2 m2. alloc_put 2 sample_pool sample = Ok (a1, m1) \<and>
     alloc_get a1 m1 = Ok (2, a2, m2) \<and> heap_ok m2 \<and> free_list m2 a2 [4, 5]"
  by (rule alloc_put_get [OF sample_heap_ok])
     (simp_all add: free_list_def sample_def sample_pool_def)

section \<open>Destruction\<close>

text \<open>
  destroying an allocator deletes every buffer of its free list, each once, and no other
  buffer; the walk ends.
\<close>

theorem alloc_destroy_frees:
  assumes "heap_ok m" and "free_list m a xs"
  shows "\<exists>m'. alloc_destroy a m = Ok m' \<and> heap_ok m' \<and>
           cells m' = (\<lambda>x. if x \<in> set xs then None else cells m x)"
proof -
  note fl = free_list_distinct [OF assms]
  from assms(2) have ch: "chain (cells m) (alloc_first a) xs 0" by (simp add: free_list_def)
  have "length xs \<le> brk m" using chain_length [OF assms(1) ch fl(1)] by simp
  from delete_chain_Ok [OF assms(1) ch fl(1,2) this] show ?thesis by (simp add: alloc_destroy_def)
qed

theorem alloc_destroy_witness:
  "\<exists>m'. alloc_destroy sample_pool sample = Ok m' \<and> heap_ok m' \<and>
     cells m' = (\<lambda>x. if x \<in> set [4, 5] then None else cells sample x)"
  by (rule alloc_destroy_frees [OF sample_heap_ok])
     (simp add: free_list_def sample_def sample_pool_def)

end
