(* ===== verification/Sender.thy ===== *)
theory Sender
  imports Ssl_Socket Buffers_Timed Allocator
begin

text \<open>
  \<open>net::sender\<close> (net/sender.h, net/sender.cpp): the object that takes buffers from producers,
  sends them from a thread of its own, and keeps them in files of a directory while they cannot
  be sent. The member-function pointers \<open>start\<close> sets are the record \<open>vtable\<close>; it has two
  values, \<open>insecure\<close> and \<open>secure ctx\<close>. The operations of the class are here; what they achieve is
  in the theories \<open>Spool\<close> (files) and \<open>Sending\<close> (the thread).
\<close>

section \<open>The object\<close>

datatype encryption = Enc_yes | Enc_no

datatype state = Sending_files | Sending_queued_buffers

record sender =
  s_alloc :: allocator
  s_addr :: address
  s_sock :: sock
  s_ssl :: ssl_sock
  s_enc :: encryption
  s_dir :: string
  s_queue :: buffers
  s_state :: state
  s_now :: int
  s_last :: int
  s_running :: bool

definition idle_timeout :: int where "idle_timeout = 60"
definition reconnection_time :: int where "reconnection_time = 30"
definition max_queued_buffers :: size_t where "max_queued_buffers = 10000"
definition socket_timeout :: int where "socket_timeout = 30 * 1000"
definition sleep_interval :: nat where "sleep_interval = 250000"
definition PATH_MAX :: nat where "PATH_MAX = 4096"

section \<open>The function pointers\<close>

record vtable =
  v_connect :: "sender \<Rightarrow> machine \<Rightarrow> (bool \<times> sender \<times> machine) res"
  v_disconnect :: "sender \<Rightarrow> machine \<Rightarrow> sender \<times> machine"
  v_send :: "byte list \<Rightarrow> sender \<Rightarrow> machine \<Rightarrow> (bool \<times> machine) res"
  v_connected :: "sender \<Rightarrow> bool"
  v_closed :: "sender \<Rightarrow> machine \<Rightarrow> (bool \<times> machine) res"

definition connect_insecure :: "sender \<Rightarrow> machine \<Rightarrow> (bool \<times> sender \<times> machine) res" where
  "connect_insecure s m =
     andThen (connect_address_timed (s_addr s) socket_timeout (s_sock s) m) (\<lambda>(ok, sock, m).
       Ok (ok, s\<lparr>s_sock := sock\<rparr>, m))"

definition disconnect_insecure :: "sender \<Rightarrow> machine \<Rightarrow> sender \<times> machine" where
  "disconnect_insecure s m = (let (sock, m) = sock_close (s_sock s) m in (s\<lparr>s_sock := sock\<rparr>, m))"

definition send_insecure :: "byte list \<Rightarrow> sender \<Rightarrow> machine \<Rightarrow> (bool \<times> machine) res" where
  "send_insecure b s m = send_timed b socket_timeout (s_sock s) m"

definition connected_insecure :: "sender \<Rightarrow> bool" where
  "connected_insecure s \<longleftrightarrow> sock_fd (s_sock s) \<noteq> -1"

definition closed_insecure :: "sender \<Rightarrow> machine \<Rightarrow> (bool \<times> machine) res" where
  "closed_insecure s m =
     andThen (sock_recv 1024 (s_sock s) m) (\<lambda>(r, m). Ok (r = Some [], m))"

definition connect_secure :: "ptr \<Rightarrow> sender \<Rightarrow> machine \<Rightarrow> (bool \<times> sender \<times> machine) res" where
  "connect_secure ctx s m =
     andThen (ssl_connect_address ctx (s_addr s) socket_timeout (s_ssl s) m) (\<lambda>(ok, ssl, m).
       Ok (ok, s\<lparr>s_ssl := ssl\<rparr>, m))"

definition disconnect_secure :: "sender \<Rightarrow> machine \<Rightarrow> sender \<times> machine" where
  "disconnect_secure s m = (let (ssl, m) = ssl_close (s_ssl s) m in (s\<lparr>s_ssl := ssl\<rparr>, m))"

definition send_secure :: "byte list \<Rightarrow> sender \<Rightarrow> machine \<Rightarrow> (bool \<times> machine) res" where
  "send_secure b s m = ssl_send_timed b socket_timeout (s_ssl s) m"

definition connected_secure :: "sender \<Rightarrow> bool" where
  "connected_secure s \<longleftrightarrow> ssl_fd (s_ssl s) \<noteq> -1"

definition closed_secure :: "sender \<Rightarrow> machine \<Rightarrow> (bool \<times> machine) res" where
  "closed_secure s m =
     andThen (ssl_recv 1024 (s_ssl s) m) (\<lambda>(r, m). Ok (r = Some [], m))"

definition insecure :: vtable where
  "insecure = \<lparr>v_connect = connect_insecure, v_disconnect = disconnect_insecure,
     v_send = send_insecure, v_connected = connected_insecure, v_closed = closed_insecure\<rparr>"

definition secure :: "ptr \<Rightarrow> vtable" where
  "secure ctx = \<lparr>v_connect = connect_secure ctx, v_disconnect = disconnect_secure,
     v_send = send_secure, v_connected = connected_secure, v_closed = closed_secure\<rparr>"

text \<open>The pointers \<open>start\<close> stores, and the static context of the TLS sockets.\<close>

fun vtable_of :: "ptr \<Rightarrow> encryption \<Rightarrow> vtable" where
  "vtable_of ctx Enc_no = insecure"
| "vtable_of ctx Enc_yes = secure ctx"

section \<open>Connecting and sending\<close>

definition sender_connect :: "vtable \<Rightarrow> sender \<Rightarrow> machine \<Rightarrow> (bool \<times> sender \<times> machine) res" where
  "sender_connect v s m =
     (if v_connected v s then Ok (True, s, m)
      else v_connect v (s\<lparr>s_last := s_now s\<rparr>) m)"

definition sender_send :: "vtable \<Rightarrow> byte list \<Rightarrow> sender \<Rightarrow> machine \<Rightarrow> (bool \<times> sender \<times> machine) res" where
  "sender_send v b s m =
     (let s = s\<lparr>s_last := s_now s\<rparr> in
      andThen (v_closed v s m) (\<lambda>(closed, m).
      andThen (if \<not> closed then v_send v b s m else Ok (False, m)) (\<lambda>(ok, m).
        if ok then Ok (True, s, m)
        else let (s, m) = v_disconnect v s m in Ok (False, s, m))))"

section \<open>Files\<close>

text \<open>
  \<open>stat\<close>: what the name denotes. It also fails for a name that denotes something, when the
  answer is an error of another kind.
\<close>

definition sys_stat :: "string \<Rightarrow> machine \<Rightarrow> (fnode option \<times> machine) res" where
  "sys_stat name m =
     andThen (syscall (File (C_stat name)) m) (\<lambda>(r, m).
       Ok (if status_of r = 0 then files m name else None, m))"

definition sys_open_read :: "string \<Rightarrow> machine \<Rightarrow> (int \<times> machine) res" where
  "sys_open_read name m =
     andThen (syscall (File (C_open_read name)) m) (\<lambda>(r, m).
       if fd_of r = -1 \<or> files m name = None then Ok (-1, m)
       else Ok (fd_of r, m\<lparr>ofiles := (ofiles m)(fd_of r \<mapsto> name)\<rparr>))"

text \<open>
  \<open>mmap\<close> of the whole file: its bytes, or nothing. A mapping of length 0 is refused; the pages
  of a mapping longer than its file cannot be read.
\<close>

definition sys_mmap :: "int \<Rightarrow> nat \<Rightarrow> machine \<Rightarrow> (byte list option \<times> machine) res" where
  "sys_mmap fd len m =
     andThen (syscall (File (C_mmap fd len)) m) (\<lambda>(r, m).
       if status_of r = 0 \<and> 0 < len then
         (case Option.bind (ofiles m fd) (files m) of
            Some (Reg bs) \<Rightarrow> if len \<le> length bs then Ok (Some (take len bs), m) else Fault
          | _ \<Rightarrow> Ok (None, m))
       else Ok (None, m))"

definition sys_munmap :: "nat \<Rightarrow> machine \<Rightarrow> machine" where
  "sys_munmap len m = note_call (File (C_munmap len)) m"

definition sys_opendir :: "string \<Rightarrow> machine \<Rightarrow> (bool \<times> machine) res" where
  "sys_opendir name m =
     andThen (syscall (File (C_opendir name)) m) (\<lambda>(r, m). Ok (status_of r = 0, m))"

fun entry_of :: "reply \<Rightarrow> string option" where
  "entry_of (Entry name) = Some name"
| "entry_of _ = None"

definition sys_readdir :: "machine \<Rightarrow> (string option \<times> machine) res" where
  "sys_readdir m = andThen (syscall (File C_readdir) m) (\<lambda>(r, m). Ok (entry_of r, m))"

definition sys_closedir :: "machine \<Rightarrow> machine" where
  "sys_closedir m = note_call (File C_closedir) m"

text \<open>What \<open>snprintf\<close> leaves of a text in an array of \<open>n\<close> characters.\<close>

definition formatted :: "nat \<Rightarrow> string \<Rightarrow> string" where
  "formatted n t = take (n - 1) t"

section \<open>Sending the files of the directory\<close>

definition send_file ::
    "vtable \<Rightarrow> string \<Rightarrow> nat \<Rightarrow> sender \<Rightarrow> machine \<Rightarrow> (bool \<times> sender \<times> machine) res" where
  "send_file v filename filesize s m =
     andThen (sys_open_read filename m) (\<lambda>(fd, m).
       if fd \<noteq> -1 then
         andThen (sys_mmap fd filesize m) (\<lambda>(base, m).
           case base of
             Some bs \<Rightarrow>
               andThen (sender_send v bs s m) (\<lambda>(ret, s, m).
                 Ok (ret, s, sys_close_file fd (sys_munmap filesize m)))
           | None \<Rightarrow> Ok (True, s, sys_close_file fd m))
       else Ok (True, s, m))"

text \<open>One entry of the directory: false when its file could not be sent.\<close>

definition send_entry ::
    "vtable \<Rightarrow> string \<Rightarrow> sender \<Rightarrow> machine \<Rightarrow> (bool \<times> sender \<times> machine) res" where
  "send_entry v d_name s m =
     (if d_name \<noteq> ''.'' \<and> d_name \<noteq> ''..'' then
        (let filename = formatted (PATH_MAX + 256) (s_dir s @ ''/'' @ d_name) in
         andThen (sys_stat filename m) (\<lambda>(node, m).
           case node of
             Some (Reg bs) \<Rightarrow>
               andThen (send_file v filename (length bs) s m) (\<lambda>(ok, s, m).
                 if ok then andThen (sys_unlink filename m) (\<lambda>m. Ok (True, s, m))
                 else Ok (False, s, m))
           | _ \<Rightarrow> Ok (True, s, m)))
      else Ok (True, s, m))"

text \<open>
  The loop over the entries. Every round takes an answer of the machine, so as many rounds as
  it has answers left, and one more, are enough.
\<close>

fun send_files_loop ::
    "nat \<Rightarrow> vtable \<Rightarrow> sender \<Rightarrow> machine \<Rightarrow> (bool \<times> sender \<times> machine) res" where
  "send_files_loop 0 v s m = Blocked"
| "send_files_loop (Suc fuel) v s m =
     andThen (sys_readdir m) (\<lambda>(entry, m).
       case entry of
         None \<Rightarrow> Ok (True, s\<lparr>s_state := Sending_queued_buffers\<rparr>, sys_closedir m)
       | Some d_name \<Rightarrow>
           andThen (send_entry v d_name s m) (\<lambda>(ok, s, m).
             if ok then send_files_loop fuel v s m else Ok (False, s, sys_closedir m)))"

definition send_files :: "vtable \<Rightarrow> sender \<Rightarrow> machine \<Rightarrow> (bool \<times> sender \<times> machine) res" where
  "send_files v s m =
     andThen (sender_connect v s m) (\<lambda>(ok, s, m).
       if ok then
         andThen (sys_opendir (s_dir s) m) (\<lambda>(dir, m).
           if dir then send_files_loop (length (replies m) + 1) v s m else Ok (False, s, m))
       else Ok (False, s, m))"

section \<open>Saving buffers to the directory\<close>

text \<open>The conversion \<open>%0<w>u\<close> of an \<open>int\<close> or an \<open>unsigned\<close>.\<close>

definition padded :: "nat \<Rightarrow> 32 word \<Rightarrow> string" where
  "padded w n = (let t = utoa (unat n) in replicate (w - length t) (CHR ''0'') @ t)"

definition spool_name :: "string \<Rightarrow> tm \<Rightarrow> 32 word \<Rightarrow> string" where
  "spool_name dir t cnt =
     formatted (PATH_MAX + 23)
       (dir @ ''/'' @ padded 4 (word_of_int (1900 + tm_year t)) @ padded 2 (word_of_int (1 + tm_mon t)) @
        padded 2 (word_of_int (tm_mday t)) @ ''-'' @ padded 2 (word_of_int (tm_hour t)) @
        padded 2 (word_of_int (tm_min t)) @ padded 2 (word_of_int (tm_sec t)) @ ''_'' @ padded 6 cnt)"

lemma sys_stat_shorter:
  "sys_stat name m = Ok (n, m') \<Longrightarrow> length (replies m') < length (replies m)"
  by (auto simp: sys_stat_def andThen_Ok_iff syscall_Ok_iff)

text \<open>The search for a name that is not in use: the name and the next count.\<close>

function find_name :: "string \<Rightarrow> tm \<Rightarrow> 32 word \<Rightarrow> machine \<Rightarrow> (string \<times> 32 word \<times> machine) res" where
  "find_name dir t cnt m =
     (let filename = spool_name dir t cnt; cnt = cnt + 1 in
      andThen (sys_stat filename m) (\<lambda>(node, m).
        if node \<noteq> None then find_name dir t cnt m else Ok (filename, cnt, m)))"
  by pat_completeness auto
termination
  by (relation "measure (\<lambda>(d, t, c, m). length (replies m))") (auto dest: sys_stat_shorter)

declare find_name.simps [simp del]

definition save_buffer :: "ptr \<Rightarrow> 32 word \<Rightarrow> sender \<Rightarrow> machine \<Rightarrow> (bool \<times> 32 word \<times> machine) res" where
  "save_buffer buf cnt s m =
     andThen (find_name (s_dir s) (tz m (s_now s)) cnt m) (\<lambda>(filename, cnt, m).
     andThen (save buf filename m) (\<lambda>(ok, m). Ok (ok, cnt, m)))"

definition sender_put :: "ptr \<Rightarrow> sender \<Rightarrow> machine \<Rightarrow> (sender \<times> machine) res" where
  "sender_put buf s m =
     andThen (alloc_put buf (s_alloc s) m) (\<lambda>(a, m). Ok (s\<lparr>s_alloc := a\<rparr>, m))"

lemma find_name_shorter:
  "find_name d t c m = Ok (f, c', m') \<Longrightarrow> length (replies m') < length (replies m)"
proof (induction d t c m rule: find_name.induct)
  case (1 d t c m)
  from 1(2) obtain n m1 where st: "sys_stat (spool_name d t c) m = Ok (n, m1)"
    and "(if n \<noteq> None then find_name d t (c + 1) m1 else Ok (spool_name d t c, c + 1, m1)) = Ok (f, c', m')"
    by (auto simp: find_name.simps [of d t c m] andThen_Ok_iff Let_def)
  with sys_stat_shorter [OF st] 1(1) [OF refl refl st refl] show ?case by (cases n) auto
qed

lemma file_shorter:
  "sys_unlink f m = Ok m' \<Longrightarrow> length (replies m') < length (replies m)"
  "sys_open_write f m = Ok (fd, m') \<Longrightarrow> length (replies m') < length (replies m)"
  by (auto simp: sys_unlink_def sys_open_write_def andThen_Ok_iff split: if_splits dest!: syscall_shorter)

lemma sys_close_file_replies [simp]: "replies (sys_close_file fd m) = replies m"
  by (simp add: sys_close_file_def)

lemma save_loop_le:
  "save_loop fd f data w m = Ok (ok, m') \<Longrightarrow> length (replies m') \<le> length (replies m)"
proof (induction fd f data w m rule: save_loop.induct)
  case (1 fd f data w m)
  show ?case
  proof (cases "w < length data")
    case False
    with 1(4) show ?thesis by (auto simp: save_loop.simps [of fd f data w m])
  next
    case True
    with 1(4) obtain k m1 where wr: "sys_write fd (drop w data) m = Ok (k, m1)"
      by (auto simp: save_loop.simps [of fd f data w m] andThen_Ok_iff)
    note lt = sys_write_shorter [OF wr]
    have that: "length (replies m2) \<le> length (replies m1)" if "sys_unlink f (sys_close_file fd m1) = Ok m2" for m2
      using file_shorter(1) [OF that] by simp
    have run: "(if 0 < k then save_loop fd f data (w + nat k) m1
          else if k < 0 then
            (if errno m1 \<noteq> EINTR then
               andThen (sys_unlink f (sys_close_file fd m1)) (\<lambda>m. Ok (False, m))
             else save_loop fd f data w m1)
          else save_loop fd f data w m1) = Ok (ok, m')"
      using 1(4) True wr by (simp add: save_loop.simps [of fd f data w m])
    consider "0 < k" | "k < 0" "errno m1 \<noteq> EINTR" | "k < 0" "\<not> errno m1 \<noteq> EINTR" | "k = 0" by linarith
    then show ?thesis
    proof cases
      case 2
      with run that show ?thesis using lt by (auto simp: andThen_Ok_iff)
    qed (use 1(1-3) [OF True wr refl] run lt in auto)
  qed
qed

lemma save_le:
  assumes "save p f m = Ok (ok, m')" shows "length (replies m') \<le> length (replies m)"
proof -
  from assms obtain fd m1 where op: "sys_open_write f m = Ok (fd, m1)"
    and r: "(if fd \<noteq> -1 then andThen (view p m1) (\<lambda>data. save_loop fd f data 0 m1) else Ok (False, m1)) =
      Ok (ok, m')" by (auto simp: save_def andThen_Ok_iff)
  from file_shorter(2) [OF op] have "length (replies m1) \<le> length (replies m)" by simp
  moreover have "length (replies m') \<le> length (replies m1)"
    using r by (cases "fd = -1") (auto simp: andThen_Ok_iff dest: save_loop_le)
  ultimately show ?thesis by simp
qed

lemma save_buffer_shorter:
  "save_buffer p c s m = Ok (ok, c', m') \<Longrightarrow> length (replies m') < length (replies m)"
  by (auto simp: save_buffer_def andThen_Ok_iff dest!: find_name_shorter save_le)

lemma sender_put_replies: "sender_put p s m = Ok (s', m') \<Longrightarrow> replies m' = replies m"
  by (auto simp: sender_put_def alloc_put_def andThen_Ok_iff Let_def dest!: link_replies)

text \<open>
  The loop of \<open>save_buffers\<close>: \<open>ret\<close> is the result so far. A buffer that could not be saved is
  returned to the allocator, and the loop goes on with the same buffer.
\<close>

function save_buffers_loop ::
    "bool \<Rightarrow> 32 word \<Rightarrow> ptr \<Rightarrow> ptr \<Rightarrow> sender \<Rightarrow> machine \<Rightarrow> (bool \<times> sender \<times> machine) res" where
  "save_buffers_loop ret cnt first final s m =
     andThen (save_buffer first cnt s m) (\<lambda>(ok, cnt, m).
       if ok then
         (if first \<noteq> final then
            andThen (get_next first m) (\<lambda>next.
            andThen (sender_put first s m) (\<lambda>(s, m). save_buffers_loop ret cnt next final s m))
          else
            andThen (sender_put first s m) (\<lambda>(s, m). Ok (ret, s, m)))
       else
         andThen (sender_put first s m) (\<lambda>(s, m). save_buffers_loop False cnt first final s m))"
  by pat_completeness auto
termination
  by (relation "measure (\<lambda>(r, c, f, l, s, m). length (replies m))")
     (auto dest!: save_buffer_shorter sender_put_replies)

declare save_buffers_loop.simps [simp del]

definition save_buffers :: "sender \<Rightarrow> machine \<Rightarrow> (bool \<times> sender \<times> machine) res" where
  "save_buffers s m =
     andThen (pop_all (s_queue s) m) (\<lambda>(n, first, final, q, m). let s = s\<lparr>s_queue := q\<rparr> in
       if 0 < n then save_buffers_loop True 0 first final s m else Ok (True, s, m))"

section \<open>The thread\<close>

text \<open>
  The loop that sends the buffers taken from the queue: the new value of \<open>error_sending\<close> is
  true when a send fails, and the rest of the buffers is back in the queue. As with the other
  walks over a chain, \<open>brk m\<close> rounds are enough for every chain that ends.
\<close>

fun send_queue_loop ::
    "nat \<Rightarrow> vtable \<Rightarrow> ptr \<Rightarrow> ptr \<Rightarrow> sender \<Rightarrow> machine \<Rightarrow> (bool \<times> sender \<times> machine) res" where
  "send_queue_loop 0 v first final s m = Blocked"
| "send_queue_loop (Suc fuel) v first final s m =
     andThen (view first m) (\<lambda>data.
     andThen (sender_send v data s m) (\<lambda>(ok, s, m).
       if ok then
         (if first \<noteq> final then
            andThen (get_next first m) (\<lambda>next.
            andThen (sender_put first s m) (\<lambda>(s, m). send_queue_loop fuel v next final s m))
          else
            andThen (sender_put first s m) (\<lambda>(s, m). Ok (False, s, m)))
       else
         andThen (push_front_chain first final (s_queue s) m) (\<lambda>(n, q, m).
           Ok (True, s\<lparr>s_queue := q\<rparr>, m))))"

definition send_queued :: "vtable \<Rightarrow> sender \<Rightarrow> machine \<Rightarrow> (bool \<times> sender \<times> machine) res" where
  "send_queued v s m =
     andThen (pop_all_timed (of_nat (sleep_interval div 1000)) (s_queue s) m)
       (\<lambda>(n, first, final, q, m). let s = s\<lparr>s_queue := q\<rparr> in
       if 0 < n then
         andThen (sender_connect v s m) (\<lambda>(ok, s, m).
           if ok then send_queue_loop (brk m) v first final s m
           else
             andThen (push_front_chain first final (s_queue s) m) (\<lambda>(n, q, m).
               Ok (True, s\<lparr>s_queue := q\<rparr>, m)))
       else if v_connected v s \<and> idle_timeout \<le> s_now s - s_last s then
         (let (s, m) = v_disconnect v s m in Ok (False, s, m))
       else Ok (False, s, m))"

definition sys_time :: "machine \<Rightarrow> (int \<times> machine) res" where
  "sys_time m =
     andThen (syscall (Host C_time) m) (\<lambda>(r, m).
       Ok (case r of Ret t \<Rightarrow> t | _ \<Rightarrow> -1, m))"

definition usleep :: "nat \<Rightarrow> machine \<Rightarrow> machine" where
  "usleep n m = note_call (Host (C_usleep n)) m"

text \<open>
  The head of a round of \<open>run\<close>: the time, and after an error a new connection, tried at most
  every \<open>reconnection_time\<close> seconds. True: the round ends here.
\<close>

definition reconnect :: "vtable \<Rightarrow> bool \<Rightarrow> sender \<Rightarrow> machine \<Rightarrow> (bool \<times> sender \<times> machine) res" where
  "reconnect v error_sending s m =
     andThen (sys_time m) (\<lambda>(t, m). let s = s\<lparr>s_now := t\<rparr> in
     if error_sending then
       (if reconnection_time \<le> s_now s - s_last s then
          andThen (sender_connect v s m) (\<lambda>(ok, s, m).
            if ok then Ok (False, s, m) else Ok (True, s, usleep sleep_interval m))
        else Ok (True, s, usleep sleep_interval m))
     else Ok (False, s, m))"

text \<open>One round of the loop of \<open>run\<close>: the old and the new \<open>error_sending\<close>.\<close>

definition run_round :: "vtable \<Rightarrow> bool \<Rightarrow> sender \<Rightarrow> machine \<Rightarrow> (bool \<times> sender \<times> machine) res" where
  "run_round v error_sending s m =
     andThen (reconnect v error_sending s m) (\<lambda>(error_sending, s, m).
       if error_sending then Ok (True, s, m)
       else if s_state s = Sending_queued_buffers then send_queued v s m
       else andThen (send_files v s m) (\<lambda>(ok, s, m). Ok (\<not> ok, s, m)))"

text \<open>
  The thread. \<open>running\<close> lists what it reads of \<open>_M_running\<close> after each round, which \<open>stop\<close>
  clears from another thread.
\<close>

fun run_loop :: "bool list \<Rightarrow> vtable \<Rightarrow> bool \<Rightarrow> sender \<Rightarrow> machine \<Rightarrow> (sender \<times> machine) res" where
  "run_loop [] v e s m = Blocked"
| "run_loop (r # running) v e s m =
     andThen (run_round v e s m) (\<lambda>(e, s, m).
       if r then run_loop running v e s m else Ok (s, m))"

definition sender_run :: "bool list \<Rightarrow> vtable \<Rightarrow> sender \<Rightarrow> machine \<Rightarrow> (sender \<times> machine) res" where
  "sender_run running v s m =
     andThen (run_loop running v False s m) (\<lambda>(s, m).
     andThen (save_buffers s m) (\<lambda>(ret, s, m). Ok (s, m)))"

section \<open>The operations of the producers\<close>

text \<open>
  The constructor leaves some members as the memory is: the bytes of the address (\<open>mem\<close>), the function
  pointers (\<open>enc\<close>), the directory (\<open>dir\<close>) and the current time (\<open>t\<close>). \<open>start\<close> sets the first three,
  the first round the last one.
\<close>

definition new_sender :: "allocator \<Rightarrow> buffers \<Rightarrow> sockaddr \<Rightarrow> encryption \<Rightarrow> string \<Rightarrow> int \<Rightarrow> sender" where
  "new_sender a q mem enc dir t =
     \<lparr>s_alloc = a, s_addr = new_address mem, s_sock = new_socket, s_ssl = new_ssl_socket,
      s_enc = enc, s_dir = dir, s_queue = q, s_state = Sending_files, s_now = t, s_last = 0,
      s_running = False\<rparr>"

definition sender_start ::
    "encryption \<Rightarrow> string \<Rightarrow> sender \<Rightarrow> machine \<Rightarrow> (bool \<times> sender \<times> machine) res" where
  "sender_start enc directory s m =
     (if length directory < PATH_MAX then
        andThen (sys_stat directory m) (\<lambda>(node, m).
          if node = Some Dir then
            (let s = s\<lparr>s_dir := directory, s_enc := enc, s_running := True\<rparr> in
             andThen (syscall (Host C_pthread_create) m) (\<lambda>(r, m).
               if status_of r = 0 then Ok (True, s, m)
               else Ok (False, s\<lparr>s_running := False\<rparr>, m)))
          else Ok (False, s, m))
      else Ok (False, s, m))"

definition sender_start_address ::
    "pton \<Rightarrow> string \<Rightarrow> encryption \<Rightarrow> string \<Rightarrow> sender \<Rightarrow> machine \<Rightarrow> (bool \<times> sender \<times> machine) res" where
  "sender_start_address pton address enc directory s m =
     (let (ok, a) = address_build_text pton address (s_addr s); s = s\<lparr>s_addr := a\<rparr> in
      if ok then sender_start enc directory s m else Ok (False, s, m))"

definition sender_start_host ::
    "pton \<Rightarrow> string \<Rightarrow> in_port_t \<Rightarrow> encryption \<Rightarrow> string \<Rightarrow> sender \<Rightarrow> machine \<Rightarrow>
     (bool \<times> sender \<times> machine) res" where
  "sender_start_host pton host port enc directory s m =
     (let (ok, a) = address_build pton host port (s_addr s); s = s\<lparr>s_addr := a\<rparr> in
      if ok then sender_start enc directory s m else Ok (False, s, m))"

definition sender_stop :: "sender \<Rightarrow> machine \<Rightarrow> (sender \<times> machine) res" where
  "sender_stop s m =
     (if s_running s then
        andThen (syscall (Host C_pthread_join) m) (\<lambda>(r, m). Ok (s\<lparr>s_running := False\<rparr>, m))
      else Ok (s, m))"

text \<open>The destructor stops the thread; then the members are destroyed, the last declared first.\<close>

definition sender_destroy :: "sender \<Rightarrow> machine \<Rightarrow> machine res" where
  "sender_destroy s m =
     andThen (sender_stop s m) (\<lambda>(s, m).
     andThen (buffers_destroy (s_queue s) m) (\<lambda>m.
       Ok (socket_destroy (s_sock s) (ssl_destroy (s_ssl s) m))))"

definition send_buffer :: "ptr \<Rightarrow> sender \<Rightarrow> machine \<Rightarrow> (sender \<times> machine) res" where
  "send_buffer buf s m =
     andThen (push_back buf (s_queue s) m) (\<lambda>(n, q, m). let s = s\<lparr>s_queue := q\<rparr> in
       if max_queued_buffers < n then
         andThen (save_buffers s m) (\<lambda>(ret, s, m). Ok (s\<lparr>s_state := Sending_files\<rparr>, m))
       else Ok (s, m))"

definition send_buffers :: "ptr \<Rightarrow> ptr \<Rightarrow> sender \<Rightarrow> machine \<Rightarrow> (sender \<times> machine) res" where
  "send_buffers first final s m =
     andThen (push_back_chain first final (s_queue s) m) (\<lambda>(n, q, m). let s = s\<lparr>s_queue := q\<rparr> in
       if max_queued_buffers < n then
         andThen (save_buffers s m) (\<lambda>(ret, s, m). Ok (s\<lparr>s_state := Sending_files\<rparr>, m))
       else Ok (s, m))"

end
