(* ===== verification/Transport.thy ===== *)
theory Transport
  imports Sender
begin

text \<open>
  The interface between the sender and its connection: the contract of the function pointers,
  as the locale \<open>transport\<close>, what \<open>connect\<close> and \<open>send\<close> of the sender achieve over any transport
  that keeps it, and the two transports of the code, plain and TLS, as its instances.
\<close>

section \<open>Steps that reach only the host, or only files\<close>

text \<open>They open and close no connection and send nothing.\<close>

lemma host_event_deltas:
  "host_event e \<Longrightarrow> fd_delta f e = 0 \<and> ssl_delta p e = 0 \<and> sent_by f e = [] \<and> ssl_sent_by p e = []"
  by (cases e rule: host_event.cases) auto

lemma host_events_deltas:
  "list_all host_event es \<Longrightarrow>
     (\<Sum>e\<leftarrow>es. fd_delta f e) = 0 \<and> (\<Sum>e\<leftarrow>es. ssl_delta p e) = 0 \<and>
     concat (map (sent_by f) es) = [] \<and> concat (map (ssl_sent_by p) es) = []"
  by (induction es) (auto simp: host_event_deltas)

lemma host_only_deltas:
  assumes "host_only m m'"
  shows "fd_balance f m' = fd_balance f m" "ssl_balance p m' = ssl_balance p m"
    "sent f m' = sent f m" "ssl_sent p m' = ssl_sent p m"
proof -
  from assms obtain es where es: "trace m' = trace m @ es" "list_all host_event es"
    by (auto simp: host_only_def)
  with host_events_deltas [OF es(2), of f p]
  show "fd_balance f m' = fd_balance f m" "ssl_balance p m' = ssl_balance p m"
    "sent f m' = sent f m" "ssl_sent p m' = ssl_sent p m"
    by (simp_all add: fd_balance_def ssl_balance_def sent_def ssl_sent_def)
qed

lemma file_events_deltas:
  "list_all file_event es \<Longrightarrow>
     (\<Sum>e\<leftarrow>es. fd_delta f e) = 0 \<and> (\<Sum>e\<leftarrow>es. ssl_delta p e) = 0 \<and>
     concat (map (sent_by f) es) = [] \<and> concat (map (ssl_sent_by p) es) = []"
proof (induction es)
  case (Cons e es)
  then show ?case by (cases e rule: file_event.cases) auto
qed simp

lemma file_only_deltas:
  assumes "file_only m m'"
  shows "fd_balance f m' = fd_balance f m" "ssl_balance p m' = ssl_balance p m"
    "sent f m' = sent f m" "ssl_sent p m' = ssl_sent p m"
proof -
  from assms obtain es where es: "trace m' = trace m @ es" "list_all file_event es"
    by (auto simp: file_only_def)
  with file_events_deltas [OF es(2), of f p]
  show "fd_balance f m' = fd_balance f m" "ssl_balance p m' = ssl_balance p m"
    "sent f m' = sent f m" "ssl_sent p m' = ssl_sent p m"
    by (simp_all add: fd_balance_def ssl_balance_def sent_def ssl_sent_def)
qed

lemma cond_signal_host: "host_only m (cond_signal m)"
  by (rule host_only_one [of _ _ "C_cond_signal" "Ret 0"]) (simp add: cond_signal_def)

lemma push_front_chain_host: "push_front_chain f l q m = Ok (n, q', m') \<Longrightarrow> host_only m m'"
  by (auto simp: push_front_chain_def cond_signal_def andThen_Ok_iff Let_def host_only_def split: if_splits
      dest!: link_trace)

lemma push_back_chain_host: "push_back_chain f l q m = Ok (n, q', m') \<Longrightarrow> host_only m m'"
  by (auto simp: push_back_chain_def cond_signal_def andThen_Ok_iff Let_def host_only_def split: if_splits
      dest!: link_trace)

lemma run_queue_op_host: "run_queue_op x q m = Ok (q', m') \<Longrightarrow> host_only m m'"
  by (cases x)
     (auto simp: push_front_chain_self push_back_chain_self andThen_Ok_iff
       dest: push_front_chain_host push_back_chain_host pop_trace host_only_same)

lemma run_queue_ops_host: "run_queue_ops xs q m = Ok (q', m') \<Longrightarrow> host_only m m'"
proof (induction xs arbitrary: q m)
  case (Cons x xs)
  then show ?case by (auto simp: andThen_Ok_iff dest!: run_queue_op_host intro: host_only_trans)
qed simp

lemma cond_timedwait_host:
  assumes "cond_timedwait ts q m = Ok (w, q', m')" shows "host_only m m'"
proof -
  from assms obtain r m1 q1 q2 where "syscall (Host (C_cond_timedwait (fst ts) (snd ts))) m = Ok (r, m1)"
    and "run_queue_ops (ops_of r) q1 m1 = Ok (q2, m')"
    by (auto simp: cond_timedwait_def andThen_Ok_iff Let_def)
  moreover from this(1) have "host_only m m1" by (auto simp: syscall_Ok_iff host_only_def)
  ultimately show ?thesis by (blast intro: host_only_trans run_queue_ops_host)
qed

lemma pop_all_wait_host:
  "pop_all_wait ts q m = Ok (n, f, l, q', m') \<Longrightarrow> host_only m m'"
proof (induction ts q m rule: pop_all_wait.induct)
  case (1 ts q m)
  from 1(2) obtain w q1 m1 where wait: "cond_timedwait ts q m = Ok (w, q1, m1)"
    by (auto simp: pop_all_wait.simps [of ts q m] andThen_Ok_iff)
  note host = cond_timedwait_host [OF wait]
  show ?case
  proof (cases w)
    case False
    with 1(2) wait host show ?thesis by (auto simp: pop_all_wait.simps [of ts q m] andThen_Ok_iff)
  next
    case True
    with 1(2) wait obtain n1 where nx: "get_next (header q1) m1 = Ok n1"
      by (auto simp: pop_all_wait.simps [of ts q m] andThen_Ok_iff)
    show ?thesis
    proof (cases "n1 = header q1")
      case False
      with 1(2) wait True nx host show ?thesis
        by (auto simp: pop_all_wait.simps [of ts q m] andThen_Ok_iff
            dest!: unlink_trace(2) intro: host_only_trans host_only_same)
    next
      case again: True
      have "host_only m1 m'"
        by (rule 1(1) [OF wait refl refl True nx])
           (use again 1(2) wait True nx in \<open>auto simp: pop_all_wait.simps [of ts q m]\<close>)
      with host show ?thesis by (rule host_only_trans)
    qed
  qed
qed

lemma pop_all_timed_host:
  assumes "pop_all_timed t q m = Ok (n, f, l, q', m')" shows "host_only m m'"
proof -
  have g: "host_only m m1" if "sys_gettimeofday m = Ok (tv, m1)" for tv m1
  proof (cases "replies m")
    case (Cons r rs)
    with that show ?thesis by (cases r) (auto simp: sys_gettimeofday_def host_only_def)
  qed (use that in \<open>simp add: sys_gettimeofday_def\<close>)
  from assms show ?thesis
    by (auto simp: pop_all_timed_def andThen_Ok_iff Let_def split: if_splits
        dest!: unlink_trace(2) g pop_all_wait_host intro: host_only_same host_only_trans)
qed

section \<open>The contract of a transport\<close>

text \<open>A step that leaves memory and files alone and makes up no answers.\<close>

definition undisturbed :: "machine \<Rightarrow> machine \<Rightarrow> bool" where
  "undisturbed m m' \<longleftrightarrow>
     same_mem m m' \<and> later m m' \<and> files m' = files m \<and> length (replies m') \<le> length (replies m)"

lemma undisturbed_refl [simp]: "undisturbed m m"
  by (simp add: undisturbed_def)

lemma undisturbed_trans: "undisturbed a b \<Longrightarrow> undisturbed b c \<Longrightarrow> undisturbed a c"
  by (auto simp: undisturbed_def intro: same_mem_trans later_trans)

lemma undisturbed_quiet: "quiet m m' \<Longrightarrow> undisturbed m m'"
  by (simp add: undisturbed_def quiet_def)

text \<open>The senders that differ in nothing but their connection and the time it was last used.\<close>

definition conn_only :: "sender \<Rightarrow> sender \<Rightarrow> bool" where
  "conn_only s s' \<longleftrightarrow> s' = s\<lparr>s_sock := s_sock s', s_ssl := s_ssl s', s_last := s_last s'\<rparr>"

lemma conn_only_refl [simp]: "conn_only s s" "conn_only s (s\<lparr>s_last := t\<rparr>)"
  by (simp_all add: conn_only_def)

lemma conn_only_fields:
  assumes "conn_only s s'"
  shows "s_alloc s' = s_alloc s" "s_queue s' = s_queue s" "s_dir s' = s_dir s" "s_state s' = s_state s"
    "s_now s' = s_now s" "s_running s' = s_running s" "s_enc s' = s_enc s" "s_addr s' = s_addr s"
proof -
  from assms have eq: "s' = s\<lparr>s_sock := s_sock s', s_ssl := s_ssl s', s_last := s_last s'\<rparr>"
    by (simp add: conn_only_def)
  show "s_alloc s' = s_alloc s" "s_queue s' = s_queue s" "s_dir s' = s_dir s" "s_state s' = s_state s"
    "s_now s' = s_now s" "s_running s' = s_running s" "s_enc s' = s_enc s" "s_addr s' = s_addr s"
    by (subst eq, simp)+
qed

lemma conn_only_trans: "conn_only a b \<Longrightarrow> conn_only b c \<Longrightarrow> conn_only a c"
  by (cases a; cases b; cases c) (simp add: conn_only_def)

text \<open>
  \<open>inv s\<close>: the connection of \<open>s\<close> is in order. \<open>out s m\<close>: the bytes the connection of \<open>s\<close> has taken
  so far. \<open>res s m\<close>: what is open beyond the connection of \<open>s\<close>; a transport leaks nothing if
  it never changes.
\<close>

locale transport =
  fixes v :: vtable
    and inv :: "sender \<Rightarrow> bool"
    and out :: "sender \<Rightarrow> machine \<Rightarrow> byte list"
    and res :: "sender \<Rightarrow> machine \<Rightarrow> 'r"
  assumes frame_law:
      "s_sock s' = s_sock s \<Longrightarrow> s_ssl s' = s_ssl s \<Longrightarrow> host_only m m' \<Longrightarrow>
         inv s' = inv s \<and> v_connected v s' = v_connected v s \<and> out s' m' = out s m \<and> res s' m' = res s m"
    and file_law: "file_only m m' \<Longrightarrow> out s m' = out s m \<and> res s m' = res s m"
    and connect_law:
      "inv s \<Longrightarrow> \<not> v_connected v s \<Longrightarrow>
         wp (v_connect v s m) (\<lambda>(ok, s', m'). inv s' \<and> v_connected v s' = ok \<and> conn_only s s' \<and>
           s_last s' = s_last s \<and> undisturbed m m' \<and> res s' m' = res s m)"
    and disconnect_law:
      "inv s \<Longrightarrow> v_disconnect v s m = (s', m') \<Longrightarrow>
         inv s' \<and> \<not> v_connected v s' \<and> conn_only s s' \<and> s_last s' = s_last s \<and> undisturbed m m' \<and>
         res s' m' = res s m \<and> out s m' = out s m"
    and send_law:
      "inv s \<Longrightarrow> v_connected v s \<Longrightarrow> length b < 2 ^ 31 \<Longrightarrow>
         wp (v_send v b s m) (\<lambda>(ok, m'). undisturbed m m' \<and> res s m' = res s m \<and>
           (\<exists>k \<le> length b. out s m' = out s m @ take k b \<and> (ok \<longrightarrow> k = length b)))"
    and closed_law:
      "inv s \<Longrightarrow> v_connected v s \<Longrightarrow>
         wp (v_closed v s m) (\<lambda>(c, m'). undisturbed m m' \<and> res s m' = res s m \<and> out s m' = out s m)"
begin

lemma frame_sender:
  assumes "s_sock s' = s_sock s" and "s_ssl s' = s_ssl s"
  shows "inv s' = inv s" "v_connected v s' = v_connected v s" "out s' m = out s m" "res s' m = res s m"
  using frame_law [OF assms host_only_refl] by simp_all

lemma frame_upd [simp]:
  "inv (s\<lparr>s_last := t\<rparr>) = inv s" "v_connected v (s\<lparr>s_last := t\<rparr>) = v_connected v s"
  "out (s\<lparr>s_last := t\<rparr>) m = out s m" "res (s\<lparr>s_last := t\<rparr>) m = res s m"
  "inv (s\<lparr>s_now := t\<rparr>) = inv s" "v_connected v (s\<lparr>s_now := t\<rparr>) = v_connected v s"
  "out (s\<lparr>s_now := t\<rparr>) m = out s m" "res (s\<lparr>s_now := t\<rparr>) m = res s m"
  "inv (s\<lparr>s_queue := q\<rparr>) = inv s" "v_connected v (s\<lparr>s_queue := q\<rparr>) = v_connected v s"
  "out (s\<lparr>s_queue := q\<rparr>) m = out s m" "res (s\<lparr>s_queue := q\<rparr>) m = res s m"
  "inv (s\<lparr>s_alloc := a\<rparr>) = inv s" "v_connected v (s\<lparr>s_alloc := a\<rparr>) = v_connected v s"
  "out (s\<lparr>s_alloc := a\<rparr>) m = out s m" "res (s\<lparr>s_alloc := a\<rparr>) m = res s m"
  "inv (s\<lparr>s_state := st\<rparr>) = inv s" "v_connected v (s\<lparr>s_state := st\<rparr>) = v_connected v s"
  "out (s\<lparr>s_state := st\<rparr>) m = out s m" "res (s\<lparr>s_state := st\<rparr>) m = res s m"
  by (rule frame_sender; simp)+

lemma frame_host: "host_only m m' \<Longrightarrow> out s m' = out s m" "host_only m m' \<Longrightarrow> res s m' = res s m"
  using frame_law [OF refl refl] by blast+

text \<open>\<open>connect\<close> of the sender: it returns true exactly when there is a connection then.\<close>

lemma connect_spec:
  assumes "inv s"
  shows "wp (sender_connect v s m) (\<lambda>(ok, s', m'). inv s' \<and> v_connected v s' = ok \<and> conn_only s s' \<and>
           s_last s' = (if v_connected v s then s_last s else s_now s) \<and> undisturbed m m' \<and> res s' m' = res s m \<and>
           (v_connected v s \<longrightarrow> ok \<and> s' = s \<and> m' = m))"
proof (cases "v_connected v s")
  case True
  with assms show ?thesis by (simp add: sender_connect_def)
next
  case False
  let ?s = "s\<lparr>s_last := s_now s\<rparr>"
  have "inv ?s" "\<not> v_connected v ?s" using False assms by simp_all
  from connect_law [OF this, of m] False show ?thesis
    by (auto simp: sender_connect_def elim!: wp_mono intro: conn_only_trans [of _ ?s])
qed

text \<open>\<open>send\<close> of the sender: all of the block or, after closing the connection, a part of it.\<close>

lemma send_spec:
  assumes "inv s" and "v_connected v s" and "length b < 2 ^ 31"
  shows "wp (sender_send v b s m) (\<lambda>(ok, s', m'). inv s' \<and> v_connected v s' = ok \<and> conn_only s s' \<and>
           s_last s' = s_now s \<and> undisturbed m m' \<and> res s' m' = res s m \<and>
           (\<exists>k \<le> length b. out s m' = out s m @ take k b \<and> (ok \<longrightarrow> k = length b)) \<and>
           (ok \<longrightarrow> s' = s\<lparr>s_last := s_now s\<rparr>))"
proof -
  let ?s = "s\<lparr>s_last := s_now s\<rparr>"
  have inv: "inv ?s" and con: "v_connected v ?s" using assms by simp_all
  let ?part = "\<lambda>m (ok, m'). undisturbed m m' \<and> res ?s m' = res ?s m \<and>
           (\<exists>k \<le> length b. out ?s m' = out ?s m @ take k b \<and> (ok \<longrightarrow> k = length b))"
  have part: "wp (if \<not> closed then v_send v b ?s m1 else Ok (False, m1)) (?part m1)" for closed m1
    using send_law [OF inv con assms(3), of m1] by (cases closed) (auto intro: exI [of _ 0])
  show ?thesis
    unfolding sender_send_def Let_def
  proof (rule wp_step [OF closed_law [OF inv con]], clarify, rule wp_step [OF part], clarify)
    fix closed m1 ok m2 k
    assume 1: "undisturbed m m1" "res ?s m1 = res ?s m" "out ?s m1 = out ?s m"
      "undisturbed m1 m2" "res ?s m2 = res ?s m1" "k \<le> length b"
      "out ?s m2 = out ?s m1 @ take k b" "ok \<longrightarrow> k = length b"
    obtain s3 m3 where d: "v_disconnect v ?s m2 = (s3, m3)" by (cases "v_disconnect v ?s m2")
    from disconnect_law [OF inv d] 1 inv con d
    show "wp (if ok then Ok (True, ?s, m2)
            else case v_disconnect v ?s m2 of (s, m) \<Rightarrow> Ok (False, s, m))
       (\<lambda>(ok, s', m'). inv s' \<and> v_connected v s' = ok \<and> conn_only s s' \<and>
           s_last s' = s_now s \<and> undisturbed m m' \<and> res s' m' = res s m \<and>
           (\<exists>k \<le> length b. out s m' = out s m @ take k b \<and> (ok \<longrightarrow> k = length b)) \<and>
           (ok \<longrightarrow> s' = s\<lparr>s_last := s_now s\<rparr>))"
      by (auto intro: undisturbed_trans conn_only_trans [of _ ?s])
  qed
qed

end

section \<open>The plain transport\<close>

lemma wp_sock_recv: "wp (sock_recv len s m) (\<lambda>(r, m'). quiet m m' \<and> sent f m' = sent f m)"
proof (induction len s m rule: sock_recv.induct)
  case (1 len s m)
  show ?case
  proof (cases "sys_recv (sock_fd s) len m")
    case (Ok x)
    then obtain r m1 where run: "sys_recv (sock_fd s) len m = Ok (r, m1)" by (cases x) auto
    have q: "quiet m m1 \<and> sent f m1 = sent f m"
      using run by (auto simp: sys_defs andThen_Ok_iff syscall_Ok_iff quiet_def)
    show ?thesis
    proof (cases "r \<noteq> None \<or> errno m1 \<noteq> EINTR")
      case True
      with run q show ?thesis by (auto simp: sock_recv.simps [of len s m] split: option.splits)
    next
      case False
      with run have "sock_recv len s m = sock_recv len s m1" by (simp add: sock_recv.simps [of len s m])
      with 1 [OF run refl] False q show ?thesis by (auto elim!: wp_mono intro: quiet_trans)
    qed
  qed (simp_all add: sock_recv.simps [of len s m] sys_defs andThen_Fault_iff)
qed

definition plain_out :: "sender \<Rightarrow> machine \<Rightarrow> byte list" where
  "plain_out s m = sent (sock_fd (s_sock s)) m"

text \<open>The descriptors and connection objects that are open beyond those of the sender's sockets.\<close>

definition open_beyond :: "sender \<Rightarrow> machine \<Rightarrow> (int \<Rightarrow> int) \<times> (ptr \<Rightarrow> int)" where
  "open_beyond s m =
     (\<lambda>f. fd_balance f m - of_bool (f = sock_fd (s_sock s) \<and> f \<noteq> -1)
            - of_bool (f = ssl_fd (s_ssl s) \<and> f \<noteq> -1),
      \<lambda>p. ssl_balance p m - of_bool (p = ssl_ssl (s_ssl s) \<and> p \<noteq> 0))"

text \<open>Every descriptor, or none, is in order.\<close>

definition plain_inv :: "sender \<Rightarrow> bool" where
  "plain_inv s \<longleftrightarrow> True"

interpretation plain: transport insecure plain_inv plain_out open_beyond
proof unfold_locales
  fix s s' :: sender and m m' :: machine
  assume e: "s_sock s' = s_sock s" "s_ssl s' = s_ssl s" and h: "host_only m m'"
  show "plain_inv s' = plain_inv s \<and> v_connected insecure s' = v_connected insecure s \<and>
      plain_out s' m' = plain_out s m \<and> open_beyond s' m' = open_beyond s m"
    by (simp add: insecure_def connected_insecure_def plain_out_def open_beyond_def plain_inv_def e host_only_deltas [OF h])
next
  fix s :: sender and m m' :: machine
  assume "file_only m m'"
  from file_only_deltas [OF this] show "plain_out s m' = plain_out s m \<and> open_beyond s m' = open_beyond s m"
    by (simp add: plain_out_def open_beyond_def)
next
  fix s :: sender and m :: machine
  assume nc: "\<not> v_connected insecure s"
  then have fd: "sock_fd (s_sock s) = -1" by (simp add: insecure_def connected_insecure_def)
  show "wp (v_connect insecure s m) (\<lambda>(ok, s', m'). plain_inv s' \<and> v_connected insecure s' = ok \<and>
      conn_only s s' \<and> s_last s' = s_last s \<and> undisturbed m m' \<and> open_beyond s' m' = open_beyond s m)"
    by (auto simp: insecure_def connect_insecure_def connect_address_timed_def connected_insecure_def
        conn_only_def owns_def undisturbed_def open_beyond_def plain_inv_def fd intro!: wp_mono [OF wp_connect_timed])
next
  fix s s' :: sender and m m' :: machine
  assume "v_disconnect insecure s m = (s', m')"
  then show "plain_inv s' \<and> \<not> v_connected insecure s' \<and> conn_only s s' \<and> s_last s' = s_last s \<and>
      undisturbed m m' \<and> open_beyond s' m' = open_beyond s m \<and> plain_out s m' = plain_out s m"
    by (auto simp: insecure_def disconnect_insecure_def sock_close_def connected_insecure_def
        conn_only_def undisturbed_def open_beyond_def plain_inv_def plain_out_def sent_def sys_close_def
        later_def fd_balance_def ssl_balance_def same_mem_def split: if_splits)
next
  fix s :: sender and m :: machine and b :: "byte list"
  show "wp (v_send insecure b s m) (\<lambda>(ok, m'). undisturbed m m' \<and> open_beyond s m' = open_beyond s m \<and>
      (\<exists>k \<le> length b. plain_out s m' = plain_out s m @ take k b \<and> (ok \<longrightarrow> k = length b)))"
    by (auto simp: insecure_def send_insecure_def open_beyond_def plain_out_def quiet_def undisturbed_def
        intro!: wp_mono [OF wp_send_timed])
next
  fix s :: sender and m :: machine
  show "wp (v_closed insecure s m) (\<lambda>(c, m'). undisturbed m m' \<and> open_beyond s m' = open_beyond s m \<and>
      plain_out s m' = plain_out s m)"
    by (auto simp: insecure_def closed_insecure_def open_beyond_def plain_out_def quiet_def undisturbed_def
        intro!: wp_mono [OF wp_sock_recv])
qed

section \<open>The TLS transport\<close>

lemma wp_ssl_recv:
  "ssl_ssl s \<noteq> 0 \<Longrightarrow> wp (ssl_recv len s m) (\<lambda>(r, m'). quiet m m' \<and> ssl_sent q m' = ssl_sent q m)"
proof (induction len s m rule: ssl_recv.induct)
  case (1 len s m)
  let ?op = "ssl_op (ssl_ssl s) (C_SSL_read (ssl_ssl s) (int_of_len len)) (clear_errors m)"
  show ?case
  proof (cases ?op)
    case (Ok x)
    then obtain r m1 where run: "?op = Ok (r, m1)" by (cases x) auto
    from wp_Ok [OF wp_ssl_op [OF 1(2), where q = q] run] have q1: "quiet m m1" "ssl_sent q m1 = ssl_sent q m"
      by auto
    have e: "quiet m (m1\<lparr>errno := EAGAIN\<rparr>)" "ssl_sent q (m1\<lparr>errno := EAGAIN\<rparr>) = ssl_sent q m"
      using q1 by (simp_all add: quiet_def)
    show ?thesis
    proof (cases "ssl_data len r")
      case None
      show ?thesis
      proof (cases "ssl_err r = SSL_ERROR_SYSCALL \<and> errno m1 = EINTR")
        case True
        then have "wp (ssl_recv len s m1) (\<lambda>(r, m'). quiet m1 m' \<and> ssl_sent q m' = ssl_sent q m1)"
          by (intro 1(1) [OF run refl None]) (use 1(2) in simp_all)
        with True None q1 run show ?thesis
          by (auto simp: ssl_recv.simps [of len s m] elim!: wp_mono intro: quiet_trans)
      next
        case False
        with None q1 e run show ?thesis
          by (cases "ssl_err r") (auto simp: ssl_recv.simps [of len s m])
      qed
    qed (use q1 run in \<open>simp add: ssl_recv.simps [of len s m]\<close>)
  next
    case Fault
    with wp_ssl_op [OF 1(2), of "C_SSL_read (ssl_ssl s) (int_of_len len)" m q] show ?thesis by simp
  qed (simp add: ssl_recv.simps [of len s m])
qed

definition tls_inv :: "sender \<Rightarrow> bool" where
  "tls_inv s \<longleftrightarrow> (ssl_fd (s_ssl s) \<noteq> -1 \<longleftrightarrow> ssl_ssl (s_ssl s) \<noteq> 0)"

definition tls_out :: "sender \<Rightarrow> machine \<Rightarrow> byte list" where
  "tls_out s m = ssl_sent (ssl_ssl (s_ssl s)) m"

interpretation tls: transport "secure ctx" tls_inv tls_out open_beyond for ctx
proof unfold_locales
  fix s s' :: sender and m m' :: machine
  assume e: "s_sock s' = s_sock s" "s_ssl s' = s_ssl s" and h: "host_only m m'"
  show "tls_inv s' = tls_inv s \<and> v_connected (secure ctx) s' = v_connected (secure ctx) s \<and>
      tls_out s' m' = tls_out s m \<and> open_beyond s' m' = open_beyond s m"
    by (simp add: secure_def connected_secure_def tls_inv_def tls_out_def open_beyond_def e host_only_deltas [OF h])
next
  fix s :: sender and m m' :: machine
  assume "file_only m m'"
  from file_only_deltas [OF this] show "tls_out s m' = tls_out s m \<and> open_beyond s m' = open_beyond s m"
    by (simp add: tls_out_def open_beyond_def)
next
  fix s :: sender and m :: machine
  assume "tls_inv s" and "\<not> v_connected (secure ctx) s"
  then have s: "ssl_fd (s_ssl s) = -1" "ssl_ssl (s_ssl s) = 0"
    by (simp_all add: secure_def connected_secure_def tls_inv_def)
  have z: "of_bool (p = 0 \<and> 0 < p) = (0 :: int)" for p :: ptr by (cases p) simp_all
  show "wp (v_connect (secure ctx) s m) (\<lambda>(ok, s', m'). tls_inv s' \<and> v_connected (secure ctx) s' = ok \<and>
      conn_only s s' \<and> s_last s' = s_last s \<and> undisturbed m m' \<and> open_beyond s' m' = open_beyond s m)"
    by (auto simp: secure_def connect_secure_def connected_secure_def conn_only_def ssl_owns_def
        undisturbed_def open_beyond_def tls_inv_def s z intro!: wp_mono [OF wp_ssl_connect_address])
next
  fix s s' :: sender and m m' :: machine
  assume "tls_inv s" and "v_disconnect (secure ctx) s m = (s', m')"
  then show "tls_inv s' \<and> \<not> v_connected (secure ctx) s' \<and> conn_only s s' \<and> s_last s' = s_last s \<and>
      undisturbed m m' \<and> open_beyond s' m' = open_beyond s m \<and> tls_out s m' = tls_out s m"
    by (auto simp: secure_def disconnect_secure_def ssl_close_def sock_close_def connected_secure_def
        conn_only_def undisturbed_def open_beyond_def tls_out_def tls_inv_def ssl_sent_def sys_close_def
        ssl_free_def fd_balance_def ssl_balance_def ssl_fd_def same_mem_def later_def Let_def split: if_splits)
next
  fix s :: sender and m :: machine and b :: "byte list"
  assume "tls_inv s" and "v_connected (secure ctx) s" and len: "length b < 2 ^ 31"
  then have "ssl_ssl (s_ssl s) \<noteq> 0" by (simp add: secure_def connected_secure_def tls_inv_def)
  from wp_ssl_send_timed [OF this, of b socket_timeout m] int_of_len_small [OF len]
  show "wp (v_send (secure ctx) b s m) (\<lambda>(ok, m'). undisturbed m m' \<and> open_beyond s m' = open_beyond s m \<and>
      (\<exists>k \<le> length b. tls_out s m' = tls_out s m @ take k b \<and> (ok \<longrightarrow> k = length b)))"
    by (auto simp: secure_def send_secure_def open_beyond_def tls_out_def quiet_def undisturbed_def
        elim!: wp_mono intro: exI [of _ 0])
next
  fix s :: sender and m :: machine
  assume "tls_inv s" and "v_connected (secure ctx) s"
  then have "ssl_ssl (s_ssl s) \<noteq> 0" by (simp add: secure_def connected_secure_def tls_inv_def)
  from wp_ssl_recv [OF this, of 1024 m "ssl_ssl (s_ssl s)"]
  show "wp (v_closed (secure ctx) s m) (\<lambda>(c, m'). undisturbed m m' \<and> open_beyond s m' = open_beyond s m \<and>
      tls_out s m' = tls_out s m)"
    by (auto simp: secure_def closed_secure_def open_beyond_def tls_out_def quiet_def undisturbed_def
        elim!: wp_mono)
qed

section \<open>The transport of the sender\<close>

fun conn_inv :: "encryption \<Rightarrow> sender \<Rightarrow> bool" where
  "conn_inv Enc_no s = plain_inv s"
| "conn_inv Enc_yes s = tls_inv s"

fun conn_out :: "encryption \<Rightarrow> sender \<Rightarrow> machine \<Rightarrow> byte list" where
  "conn_out Enc_no s m = plain_out s m"
| "conn_out Enc_yes s m = tls_out s m"

interpretation conn: transport "vtable_of ctx enc" "conn_inv enc" "conn_out enc" open_beyond for ctx enc
proof (cases enc)
  case Enc_yes
  have "conn_inv Enc_yes = tls_inv" "conn_out Enc_yes = tls_out" by (simp_all add: fun_eq_iff)
  with Enc_yes tls.transport_axioms [of ctx]
  show "transport (vtable_of ctx enc) (conn_inv enc) (conn_out enc) open_beyond" by simp
next
  case Enc_no
  have "conn_inv Enc_no = plain_inv" "conn_out Enc_no = plain_out" by (simp_all add: fun_eq_iff)
  with Enc_no plain.transport_axioms
  show "transport (vtable_of ctx enc) (conn_inv enc) (conn_out enc) open_beyond" by simp
qed

end
