(* ===== verification/Spool.thy ===== *)
theory Spool
  imports Sender
begin

text \<open>
  The files of the sender: how \<open>save_buffer\<close> chooses a name, what \<open>save_buffers\<close> leaves in the
  directory and in the allocator, and what sending a file that cannot be read does to it.
\<close>

section \<open>Names\<close>

text \<open>
  Whether every \<open>stat\<close> so far was answered from the file system (\<open>Ret\<close>), so that it failed only
  for a missing file. When \<open>stat\<close> fails for another reason (\<open>Err\<close>: the directory cannot be
  searched, an I/O error, no memory), the code takes the name to be free.
\<close>

definition stat_call :: "call \<times> reply \<Rightarrow> bool" where
  "stat_call e \<longleftrightarrow> (case fst e of File (C_stat f) \<Rightarrow> True | _ \<Rightarrow> False)"

definition honest :: "machine \<Rightarrow> bool" where
  "honest m \<longleftrightarrow> (\<forall>e. e \<in> set (trace m) \<and> stat_call e \<longrightarrow> status_of (snd e) = 0)"

lemma honest_before: "honest m' \<Longrightarrow> file_only m m' \<Longrightarrow> honest m"
  using file_only_later unfolding honest_def later_def by blast

lemma wp_sys_stat:
  "wp (sys_stat f m) (\<lambda>(node, m'). same_mem m m' \<and> files m' = files m \<and> ofiles m' = ofiles m \<and>
     file_only m m' \<and> (\<exists>r. (File (C_stat f), r) \<in> set (trace m') \<and> (status_of r = 0 \<longrightarrow> node = files m f)))"
  by (auto simp: sys_stat_def same_mem_def file_only_def)

text \<open>The name found is one the pattern gives; if \<open>stat\<close> was honest, no file has it.\<close>

definition found :: "string \<Rightarrow> tm \<Rightarrow> machine \<Rightarrow> string \<Rightarrow> machine \<Rightarrow> bool" where
  "found d t m f m' \<longleftrightarrow> same_mem m m' \<and> files m' = files m \<and> ofiles m' = ofiles m \<and> file_only m m' \<and>
     f \<in> range (spool_name d t) \<and>
     (\<exists>r. (File (C_stat f), r) \<in> set (trace m') \<and> (status_of r = 0 \<longrightarrow> files m f = None))"

lemma found_step:
  assumes "same_mem m m1" "files m1 = files m" "ofiles m1 = ofiles m" "file_only m m1" "found d t m1 f m'"
  shows "found d t m f m'"
  using assms by (auto simp: found_def intro: same_mem_trans file_only_trans)

lemma wp_find_name: "wp (find_name d t c m) (\<lambda>(f, c', m'). found d t m f m')"
proof (induction d t c m rule: find_name.induct)
  case (1 d t c m)
  let ?f = "spool_name d t c"
  show ?case
  proof (cases "sys_stat ?f m")
    case (Ok x)
    then obtain node m1 where st: "sys_stat ?f m = Ok (node, m1)" by (cases x) auto
    from wp_Ok [OF wp_sys_stat st] have m1: "same_mem m m1" "files m1 = files m" "ofiles m1 = ofiles m"
      "file_only m m1" "\<exists>r. (File (C_stat ?f), r) \<in> set (trace m1) \<and> (status_of r = 0 \<longrightarrow> node = files m ?f)"
      by auto
    show ?thesis
    proof (cases "node = None")
      case True
      with m1 st show ?thesis by (auto simp: find_name.simps [of d t c m] found_def)
    next
      case False
      then have "wp (find_name d t (c + 1) m1) (\<lambda>(f, c', m'). found d t m1 f m')"
        by (intro 1 [OF refl refl st refl])
      with False st show ?thesis
        by (auto simp: find_name.simps [of d t c m] elim!: wp_mono intro: found_step [OF m1(1-4)])
    qed
  qed (simp_all add: find_name.simps [of d t c m] sys_stat_def andThen_Fault_iff)
qed

section \<open>Saving one buffer\<close>

lemma wp_file_only:
  "wp (sys_write fd bs m) (\<lambda>(k, m'). file_only m m')"
  "wp (sys_unlink f m) (file_only m)"
  "wp (sys_open_write f m) (\<lambda>(fd, m'). file_only m m')"
  by (auto simp: sys_write_def sys_unlink_def sys_open_write_def file_only_def Let_def)

lemma close_file_only [simp]: "file_only m (sys_close_file fd m)"
  by (auto simp: file_only_def sys_close_file_def)

lemma save_loop_files: "save_loop fd f data w m = Ok (ok, m') \<Longrightarrow> file_only m m'"
proof (induction fd f data w m rule: save_loop.induct)
  case (1 fd f data w m)
  show ?case
  proof (cases "w < length data")
    case False
    with 1(4) show ?thesis by (auto simp: save_loop.simps [of fd f data w m])
  next
    case True
    with 1(4) obtain k m1 where wr: "sys_write fd (drop w data) m = Ok (k, m1)"
      by (auto simp: save_loop.simps [of fd f data w m] andThen_Ok_iff)
    have l1: "file_only m m1" using wp_Ok [OF wp_file_only(1) wr] by simp
    have un: "file_only m1 m2" if "sys_unlink f (sys_close_file fd m1) = Ok m2" for m2
      using wp_Ok [OF wp_file_only(2) that] close_file_only file_only_trans by blast
    have run: "(if 0 < k then save_loop fd f data (w + nat k) m1
          else if k < 0 then
            (if errno m1 \<noteq> EINTR then
               andThen (sys_unlink f (sys_close_file fd m1)) (\<lambda>m. Ok (False, m))
             else save_loop fd f data w m1)
          else save_loop fd f data w m1) = Ok (ok, m')"
      using 1(4) True wr by (simp add: save_loop.simps [of fd f data w m])
    have "file_only m1 m'"
    proof -
      consider "0 < k" | "k < 0" "errno m1 \<noteq> EINTR" | "k < 0" "\<not> errno m1 \<noteq> EINTR" | "k = 0" by linarith
      then show ?thesis
      proof cases
        case 2
        with run un show ?thesis by (auto simp: andThen_Ok_iff)
      qed (use 1(1-3) [OF True wr refl] run in auto)
    qed
    with l1 show ?thesis by (rule file_only_trans)
  qed
qed

lemma save_files:
  assumes "save p f m = Ok (ok, m')" shows "file_only m m'"
proof -
  from assms obtain fd m1 where op: "sys_open_write f m = Ok (fd, m1)"
    and r: "(if fd \<noteq> -1 then andThen (view p m1) (\<lambda>data. save_loop fd f data 0 m1) else Ok (False, m1)) =
      Ok (ok, m')" by (auto simp: save_def andThen_Ok_iff)
  have "file_only m m1" using wp_Ok [OF wp_file_only(3) op] by simp
  moreover have "file_only m1 m'"
    using r by (cases "fd = -1") (auto simp: andThen_Ok_iff dest: save_loop_files)
  ultimately show ?thesis by (rule file_only_trans)
qed

lemma save_True_view: "save p f m = Ok (True, m') \<Longrightarrow> \<exists>data. view p m = Ok data"
  by (auto simp: save_def sys_open_write_def andThen_Ok_iff syscall_Ok_iff split: if_splits)

text \<open>
  A saved buffer, whatever the result: the name it took, which \<open>stat\<close> reported free, and what
  \<open>save\<close> then did.
\<close>

lemma save_buffer_spec:
  assumes "save_buffer p c s m = Ok (ok, c', m')" and "honest m'" and v: "view p m = Ok data"
  shows "\<exists>f \<in> range (spool_name (s_dir s) (tz m (s_now s))). files m f = None \<and> file_only m m' \<and>
           save_post f data m ok m'"
proof -
  from assms(1) obtain f m1 where fn: "find_name (s_dir s) (tz m (s_now s)) c m = Ok (f, c', m1)"
    and sv: "save p f m1 = Ok (ok, m')" by (auto simp: save_buffer_def andThen_Ok_iff)
  have fd: "found (s_dir s) (tz m (s_now s)) m f m1" using wp_Ok [OF wp_find_name fn] by simp
  note l = save_files [OF sv]
  have "honest m1" by (rule honest_before [OF assms(2) l])
  with fd have "files m f = None" by (fastforce simp: found_def honest_def stat_call_def)
  moreover have "view p m1 = Ok data" using fd v view_same_mem by (auto simp: found_def)
  from wp_Ok [OF wp_save [OF this] sv] have "save_post f data m1 ok m'" by simp
  with fd have "save_post f data m ok m'" by (auto simp: save_post_def found_def intro: same_mem_trans)
  ultimately show ?thesis using fd l by (auto simp: found_def intro: file_only_trans)
qed

text \<open>
  saving a buffer never overwrites: unless \<open>stat\<close> failed for another reason than a missing
  file, the name written to had no file, and every other file is what it was. The name is one
  of the pattern for the current time; when it returns true the new file holds exactly the
  bytes of the buffer, and memory is untouched in any case.
\<close>

theorem save_buffer_fresh:
  assumes "save_buffer p c s m = Ok (ok, c', m')" and "honest m'" and "view p m = Ok data"
  shows "\<exists>f \<in> range (spool_name (s_dir s) (tz m (s_now s))).
           files m f = None \<and> (\<forall>g. g \<noteq> f \<longrightarrow> files m' g = files m g) \<and> same_mem m m' \<and>
           (if ok then files m' f = Some (Reg data)
            else files m' f = None \<or> aborted_file f data m')"
proof -
  from save_buffer_spec [OF assms] obtain f where f: "f \<in> range (spool_name (s_dir s) (tz m (s_now s)))"
    "files m f = None" and p: "save_post f data m ok m'" by blast
  show ?thesis
  proof (rule bexI [OF _ f(1)])
    show "files m f = None \<and> (\<forall>g. g \<noteq> f \<longrightarrow> files m' g = files m g) \<and> same_mem m m' \<and>
      (if ok then files m' f = Some (Reg data) else files m' f = None \<or> aborted_file f data m')"
      using p f(2) by (auto simp: save_post_def)
  qed
qed

definition sample_sender :: sender where
  "sample_sender = new_sender sample_pool sample_queue [] Enc_no [] 0"

definition sample_disk :: "reply list \<Rightarrow> machine" where
  "sample_disk rs = sample\<lparr>files := [''/20000101-000000_000000'' \<mapsto> Reg [9]], replies := rs\<rparr>"

lemma replicate_eq: "replicate 5 x = [x, x, x, x, x]" "replicate (Suc 0) x = [x]"
  by (simp_all add: numeral_eq_Suc)

abbreviation (input) sample_tm :: tm where
  "sample_tm \<equiv> \<lparr>tm_year = 100, tm_mon = 0, tm_mday = 1, tm_hour = 0, tm_min = 0, tm_sec = 0\<rparr>"

lemma sample_names:
  "spool_name [] sample_tm 0 = ''/20000101-000000_000000''"
  "spool_name [] sample_tm 1 = ''/20000101-000000_000001''"
  "spool_name [] sample_tm 2 = ''/20000101-000000_000002''"
  by (simp_all add: spool_name_def padded_def formatted_def sample_def PATH_MAX_def
      utoa.simps char_of_def replicate_eq bit_0)

text \<open>The first name is taken, so the second one is used; the write comes in two parts.\<close>

theorem save_buffer_fresh_witness:
  "(\<exists>c' m'. save_buffer 2 0 sample_sender (sample_disk [Ret 0, Ret 0, Ret 5, Ret 1, Ret 1]) = Ok (True, c', m') \<and>
     (\<exists>f. f \<noteq> ''/20000101-000000_000000'' \<and> files m' f = Some (Reg [1, 2])) \<and>
     files m' ''/20000101-000000_000000'' = Some (Reg [9]))"
proof -
  let ?m = "sample_disk [Ret 0, Ret 0, Ret 5, Ret 1, Ret 1]"
  have v: "view 2 ?m = Ok [1, 2]" by (simp add: sample_disk_def sample_def view_def load_def read_block_def)
  obtain c' m' where run: "save_buffer 2 0 sample_sender ?m = Ok (True, c', m')"
    and t: "trace m' = [(File (C_stat ''/20000101-000000_000000''), Ret 0),
      (File (C_stat ''/20000101-000000_000001''), Ret 0),
      (File (C_open ''/20000101-000000_000001''), Ret 5), (File (C_write 5 [1, 2]), Ret 1),
      (File (C_write 5 [2]), Ret 1), (File (C_close 5), Ret 0)]"
    by (simp add: save_buffer_def find_name.simps sys_stat_def sample_disk_def sample_sender_def new_sender_def
     sample_names save_def sys_open_write_def view_Some read_block_def save_loop.simps sys_write_def
     Let_def sample_def sys_close_file_def)
  have h: "honest m'" unfolding honest_def t by (auto simp: stat_call_def)
  let ?g = "''/20000101-000000_000000''"
  from save_buffer_fresh [OF run h v] obtain f where f: "files ?m f = None"
    "\<forall>g. g \<noteq> f \<longrightarrow> files m' g = files ?m g" "files m' f = Some (Reg [1, 2])" by auto
  have g: "files ?m ?g = Some (Reg [9])" by (simp add: sample_disk_def)
  have ne: "f \<noteq> ?g" using f(1) g by (metis option.distinct(1))
  have "files m' ?g = Some (Reg [9])" unfolding f(2) [rule_format, OF ne [symmetric]] by (rule g)
  with run f(3) ne show ?thesis by blast
qed

section \<open>Saving the queue\<close>

lemma save_buffer_files: "save_buffer p c s m = Ok (ok, c', m') \<Longrightarrow> file_only m m'"
  using wp_find_name [of "s_dir s" "tz m (s_now s)" c m]
  by (auto simp: save_buffer_def andThen_Ok_iff found_def dest!: save_files intro: file_only_trans)

lemma save_buffer_True_view:
  assumes "save_buffer p c s m = Ok (True, c', m')" shows "\<exists>data. view p m = Ok data"
proof -
  from assms obtain f m1 where fn: "find_name (s_dir s) (tz m (s_now s)) c m = Ok (f, c', m1)"
    and sv: "save p f m1 = Ok (True, m')" by (auto simp: save_buffer_def andThen_Ok_iff)
  have "same_mem m m1" using wp_Ok [OF wp_find_name fn] by (simp add: found_def)
  with save_True_view [OF sv] view_same_mem show ?thesis by metis
qed

text \<open>Returning a buffer to the allocator relinks it and touches nothing else.\<close>

lemma sender_put_ok:
  assumes "free_list m (s_alloc s) ys" and "cells m p \<noteq> None" and "p \<notin> set ys"
  shows "\<exists>a m'. sender_put p s m = Ok (s\<lparr>s_alloc := a\<rparr>, m') \<and> free_list m' a (p # ys) \<and>
           relinked {p} m m' \<and> trace m' = trace m"
proof -
  from assms(2) obtain b where b: "cells m p = Some b" by auto
  from alloc_put_spec [OF assms(1) b assms(3)] b show ?thesis
    by (auto simp: sender_put_def relinked_def contentof_def)
qed

lemma sender_put_files: "sender_put p s m = Ok (s', m') \<Longrightarrow> file_only m m'"
  by (auto simp: sender_put_def alloc_put_def andThen_Ok_iff set_next_def modify_Ok_iff file_only_def
      mutex_lock_def mutex_unlock_def Let_def split: if_splits)

lemma save_buffers_loop_cases:
  assumes "save_buffers_loop ret c first final s m = Ok (r, s', m')"
  obtains (more) c1 m1 nx s2 m2 where "save_buffer first c s m = Ok (True, c1, m1)" "first \<noteq> final"
      "get_next first m1 = Ok nx" "sender_put first s m1 = Ok (s2, m2)"
      "save_buffers_loop ret c1 nx final s2 m2 = Ok (r, s', m')"
    | (last) c1 m1 where "save_buffer first c s m = Ok (True, c1, m1)" "first = final"
      "sender_put first s m1 = Ok (s', m')" "r = ret"
    | (again) c1 m1 s2 m2 where "save_buffer first c s m = Ok (False, c1, m1)"
      "sender_put first s m1 = Ok (s2, m2)"
      "save_buffers_loop False c1 first final s2 m2 = Ok (r, s', m')"
  using assms by (auto simp: save_buffers_loop.simps [of ret c first final s m] andThen_Ok_iff split: if_splits)

lemma save_buffers_loop_props:
  "save_buffers_loop ret c first final s m = Ok (r, s', m') \<Longrightarrow> file_only m m' \<and> (r \<longrightarrow> ret)"
proof (induction ret c first final s m rule: save_buffers_loop.induct)
  case (1 ret c first final s m)
  note l = save_buffer_files sender_put_files file_only_trans
  from 1(3) show ?case
  proof (cases rule: save_buffers_loop_cases)
    case (more c1 m1 nx s2 m2)
    with 1(1) [OF more(1) refl refl _ more(2,3,4) refl more(5)] show ?thesis by (blast intro: l)
  next
    case (last c1 m1)
    then show ?thesis by (blast intro: l)
  next
    case (again c1 m1 s2 m2)
    with 1(2) [OF again(1) refl refl _ again(2) refl again(3)] show ?thesis by (blast intro: l)
  qed
qed

text \<open>
  \<open>stored d t xs m m'\<close>: the buffers \<open>xs\<close> are in files of their own that did not exist in \<open>m\<close>,
  one each, and all other files are what they were.
\<close>

definition stored :: "string \<Rightarrow> tm \<Rightarrow> ptr list \<Rightarrow> machine \<Rightarrow> machine \<Rightarrow> bool" where
  "stored d t xs m m' \<longleftrightarrow>
     (\<exists>fs. distinct fs \<and> set fs \<subseteq> range (spool_name d t) \<and>
        list_all2 (\<lambda>p f. files m f = None \<and>
          (\<exists>data. view p m = Ok data \<and> files m' f = Some (Reg data))) xs fs \<and>
        (\<forall>g. g \<notin> set fs \<longrightarrow> files m' g = files m g))"

lemma stored_Nil [simp]: "stored d t [] m m' \<longleftrightarrow> files m' = files m"
  by (auto simp: stored_def)

lemma stored_Cons:
  assumes f: "f \<in> range (spool_name d t)" "files m f = None" "view p m = Ok data"
    "files m1 = (files m)(f \<mapsto> Reg data)"
    and rest: "stored d t xs m1 m'" and v: "\<forall>p. view p m1 = view p m"
  shows "stored d t (p # xs) m m'"
proof -
  from rest obtain fs where fs: "distinct fs" "set fs \<subseteq> range (spool_name d t)"
    "list_all2 (\<lambda>p f. files m1 f = None \<and>
       (\<exists>data. view p m1 = Ok data \<and> files m' f = Some (Reg data))) xs fs"
    "\<forall>g. g \<notin> set fs \<longrightarrow> files m' g = files m1 g" by (auto simp: stored_def)
  have nf: "f \<notin> set fs"
  proof
    assume "f \<in> set fs"
    with fs(3) have "files m1 f = None" by (auto simp: list_all2_conv_all_nth in_set_conv_nth)
    with f(4) show False by simp
  qed
  have "list_all2 (\<lambda>p f. files m f = None \<and>
       (\<exists>data. view p m = Ok data \<and> files m' f = Some (Reg data))) xs fs"
    using fs(3) by (rule list_all2_mono) (use f(4) v in \<open>auto split: if_splits\<close>)
  with nf fs f show ?thesis unfolding stored_def by (intro exI [of _ "f # fs"]) auto
qed

lemma stored_env: "files m1 = files m \<Longrightarrow> \<forall>p. view p m1 = view p m \<Longrightarrow> stored d t xs m1 m' = stored d t xs m m'"
  by (simp add: stored_def)

lemma save_buffers_loop_True:
  assumes "save_buffers_loop True c first final s m = Ok (True, s', m')" and "honest m'"
    and "heap_ok m" and "free_list m (s_alloc s) ys"
    and "chain (cells m) first (zs @ [final]) r" and "distinct (zs @ [final])"
    and "set (zs @ [final]) \<inter> set ys = {}"
  shows "\<exists>a. s' = s\<lparr>s_alloc := a\<rparr> \<and> free_list m' a (final # rev zs @ ys) \<and> heap_ok m' \<and>
           stored (s_dir s) (tz m (s_now s)) (zs @ [final]) m m' \<and>
           (\<forall>p. p \<notin> set (zs @ [final]) \<longrightarrow> cells m' p = cells m p) \<and>
           (\<forall>p. view p m' = view p m) \<and> brk m' = brk m"
  using assms
proof (induction zs arbitrary: c first s m ys)
  case Nil
  then have first: "first = final" and live: "cells m final \<noteq> None" by (auto split: option.splits)
  from Nil.prems(1) show ?case
  proof (cases rule: save_buffers_loop_cases)
    case (last c1 m1)
    from save_buffer_True_view [OF last(1)] obtain data where v: "view first m = Ok data" by blast
    have h1: "honest m1" by (rule honest_before [OF Nil.prems(2) sender_put_files [OF last(3)]])
    from save_buffer_spec [OF last(1) h1 v] obtain f where
      f: "f \<in> range (spool_name (s_dir s) (tz m (s_now s)))" "files m f = None" and
      sv: "save_post f data m True m1" by blast
    from sv have mem: "same_mem m m1" and fl: "files m1 = (files m)(f \<mapsto> Reg data)"
      by (auto simp: save_post_def)
    have "free_list m1 (s_alloc s) ys" "cells m1 first \<noteq> None" "heap_ok m1"
      using mem Nil.prems(3,4) live first by (auto simp: same_mem_def free_list_def cong: heap_ok_cong)
    with sender_put_ok [of m1 s ys first] Nil.prems(7) first obtain a where
      a: "s' = s\<lparr>s_alloc := a\<rparr>" "free_list m' a (first # ys)" "relinked {first} m1 m'"
      using last(3) by auto
    note rl = relinked_fields [OF a(3)] relinked_heap_ok [OF a(3) \<open>heap_ok m1\<close>] relinked_view [OF a(3)]
    have "stored (s_dir s) (tz m (s_now s)) [first] m m'"
      using stored_Cons [OF f v fl] rl(3) view_same_mem [OF mem] by simp
    moreover have "cells m' p = cells m p" if "p \<noteq> first" for p
      using a(3) mem that by (simp add: relinked_def same_mem_def)
    ultimately show ?thesis using a(1,2) rl first mem view_same_mem [OF mem]
      by (auto simp: same_mem_def)
  next
    case (again c1 m1 s2 m2)
    with save_buffers_loop_props show ?thesis by blast
  qed (use first in simp)
next
  case (Cons z zs)
  then obtain b where first: "first = z" and b: "cells m z = Some b" and ne: "z \<noteq> final"
    and ch: "chain (cells m) (buf_next b) (zs @ [final]) r" by (auto split: option.splits)
  from Cons.prems(1) show ?case
  proof (cases rule: save_buffers_loop_cases)
    case (more c1 m1 nx s2 m2)
    from save_buffers_loop_props [OF more(5)] have l2: "file_only m2 m'" by simp
    have h1: "honest m1"
      by (rule honest_before [OF Cons.prems(2) file_only_trans [OF sender_put_files [OF more(4)] l2]])
    from save_buffer_True_view [OF more(1)] obtain data where v: "view first m = Ok data" by blast
    from save_buffer_spec [OF more(1) h1 v] obtain f where
      f: "f \<in> range (spool_name (s_dir s) (tz m (s_now s)))" "files m f = None" and
      sv: "save_post f data m True m1" by blast
    from sv have mem: "same_mem m m1" and fl: "files m1 = (files m)(f \<mapsto> Reg data)"
      by (auto simp: save_post_def)
    have "free_list m1 (s_alloc s) ys" "cells m1 first \<noteq> None" "heap_ok m1" "nx = buf_next b"
      using mem Cons.prems(3,4) b first more(3)
      by (auto simp: same_mem_def free_list_def get_next_Some cong: heap_ok_cong)
    with sender_put_ok [of m1 s ys first] Cons.prems(7) first obtain a where
      a: "s2 = s\<lparr>s_alloc := a\<rparr>" "free_list m2 a (first # ys)" "relinked {first} m1 m2"
      using more(4) by auto
    note rl = relinked_fields [OF a(3)] relinked_heap_ok [OF a(3) \<open>heap_ok m1\<close>] relinked_view [OF a(3)]
    have cells: "cells m2 p = cells m p" if "p \<noteq> first" for p
      using a(3) mem that by (simp add: relinked_def same_mem_def)
    then have ch2: "chain (cells m2) nx (zs @ [final]) r"
      using ch \<open>nx = buf_next b\<close> Cons.prems(6) first
      by (subst chain_cong [of _ "cells m2" "cells m"]) (auto, metis)
    have tz: "tz m2 = tz m" using rl mem by (simp add: same_mem_def)
    have vw: "\<forall>p. view p m2 = view p m" using rl view_same_mem [OF mem] by simp
    from Cons.IH [OF more(5) Cons.prems(2) rl(8) _ ch2, of "first # ys"] a(1,2) Cons.prems(6,7) first
    obtain a' where IH: "s' = s2\<lparr>s_alloc := a'\<rparr>" "free_list m' a' (final # rev zs @ first # ys)"
      "heap_ok m'" "stored (s_dir s) (tz m (s_now s)) (zs @ [final]) m2 m'"
      "\<forall>p. p \<notin> set (zs @ [final]) \<longrightarrow> cells m' p = cells m2 p" "\<forall>p. view p m' = view p m2"
      "brk m' = brk m2" by (auto simp: tz)
    have "stored (s_dir s) (tz m (s_now s)) (first # zs @ [final]) m m'"
      using stored_Cons [OF f v _ IH(4) vw] fl rl(3) by simp
    with IH a(1) vw cells rl(2) mem first show ?thesis by (auto simp: same_mem_def)
  next
    case (again c1 m1 s2 m2)
    with save_buffers_loop_props show ?thesis by blast
  qed (use first ne in simp)
qed

lemma queue_list_header: "cells m' (header q) = cells m (header q) \<Longrightarrow> queue_list m q [] \<Longrightarrow> queue_list m' q []"
  unfolding queue_list_def ring_def prevof_def by (auto split: option.splits)

lemma free_list_relinked:
  assumes "free_list m a ys" and "relinked A m m'" and "A \<inter> set ys = {}"
  shows "free_list m' a ys"
proof -
  have "chain (cells m') (alloc_first a) ys 0 = chain (cells m) (alloc_first a) ys 0"
    by (rule chain_cong) (use assms(2,3) in \<open>auto simp: relinked_def\<close>)
  with assms(1) show ?thesis by (simp add: free_list_def)
qed

lemma save_buffers_True:
  assumes "queue_ok m" and "queue_list m (s_queue s) xs" and "free_list m (s_alloc s) ys"
    and "set (header (s_queue s) # xs) \<inter> set ys = {}"
    and "save_buffers s m = Ok (True, s', m')" and "honest m'"
  shows "\<exists>q a. s' = s\<lparr>s_queue := q, s_alloc := a\<rparr> \<and> header q = header (s_queue s) \<and>
           stored (s_dir s) (tz m (s_now s)) xs m m' \<and> queue_list m' q [] \<and>
           free_list m' a (rev xs @ ys) \<and> heap_ok m' \<and> brk m' = brk m \<and>
           (\<forall>p. view p m' = view p m) \<and> file_only m m' \<and>
           (\<forall>p. p \<notin> set (header (s_queue s) # xs) \<longrightarrow> cells m' p = cells m p)"
proof (cases "xs = []")
  case True
  with assms(5) pop_all_Nil [of m "s_queue s"] assms(2) have "s' = s \<and> m' = m"
    by (simp add: save_buffers_def)
  with True assms(1-3) show ?thesis
    by (intro exI [of _ "s_queue s"] exI [of _ "s_alloc s"]) (simp add: queue_ok_def)
next
  case False
  have ok: "heap_ok m" "brk m < 2 ^ 64" using assms(1) by (simp_all add: queue_ok_def)
  from pop_all_Cons [OF assms(2) False] obtain q1 m1 where
    pop: "pop_all (s_queue s) m = Ok (of_nat (length xs), hd xs, last xs, q1, m1)" and
    q1: "queue_list m1 q1 []" "header q1 = header (s_queue s)" and
    own: "own_chain m1 q1 [] (hd xs) xs (last xs)" and rl: "relinked {header (s_queue s)} m m1"
    and tr: "trace m1 = trace m" by (metis pop_trace(2))
  have "length xs < 2 ^ 64" using queue_list_length(1) [OF ok(1) assms(2)] ok(2) by simp
  then have "(0 :: size_t) < of_nat (length xs)"
    using False by (simp add: word_less_nat_alt unat_of_nat)
  with assms(5) pop have run: "save_buffers_loop True 0 (hd xs) (last xs) (s\<lparr>s_queue := q1\<rparr>) m1 =
      Ok (True, s', m')" by (simp add: save_buffers_def Let_def)
  have fl: "free_list m1 (s_alloc (s\<lparr>s_queue := q1\<rparr>)) ys"
    using free_list_relinked [OF assms(3) rl] assms(4) by simp
  obtain zs r where xs: "xs = zs @ [last xs]" "chain (cells m1) (hd xs) (zs @ [last xs]) r"
    "distinct (zs @ [last xs])" using own_chain_split [OF own] by metis
  have "set (zs @ [last xs]) \<inter> set ys = {}" using assms(4) xs(1) by auto
  from save_buffers_loop_True [OF run assms(6) relinked_heap_ok [OF rl ok(1)] fl xs(2,3) this]
  obtain a where a: "s' = s\<lparr>s_queue := q1, s_alloc := a\<rparr>"
    "free_list m' a (last xs # rev zs @ ys)" "heap_ok m'"
    "stored (s_dir s) (tz m1 (s_now s)) (zs @ [last xs]) m1 m'"
    "\<forall>p. p \<notin> set (zs @ [last xs]) \<longrightarrow> cells m' p = cells m1 p"
    "\<forall>p. view p m' = view p m1" "brk m' = brk m1" by auto
  have "distinct (header q1 # xs)" using assms(2) unfolding queue_list_def ring_def q1(2) by blast
  then have "header q1 \<notin> set xs" by simp
  with a(5) xs(1) have "cells m' (header q1) = cells m1 (header q1)" by metis
  then have "queue_list m' q1 []" by (rule queue_list_header [OF _ q1(1)])
  moreover have "last xs # rev zs = rev xs" by (subst xs(1), simp)
  then have "free_list m' a (rev xs @ ys)" using a(2) by (metis append_Cons)
  moreover have "stored (s_dir s) (tz m (s_now s)) xs m m'"
    using a(4) xs(1) stored_env [of m1 m] relinked_fields(3,5) [OF rl] relinked_view [OF rl] by metis
  moreover have "cells m' p = cells m p" if "p \<notin> set (header (s_queue s) # xs)" for p
    using a(5) xs(1) rl that by (metis list.set_intros relinked_def singletonD)
  moreover have "file_only m m'"
    using save_buffers_loop_props [OF run] file_only_trans [OF file_only_same [OF tr]] by blast
  ultimately show ?thesis
    using a(1,3,6,7) q1(2) relinked_fields [OF rl] relinked_view [OF rl]
    by (intro exI [of _ q1] exI [of _ a]) simp
qed

text \<open>
  C13: when \<open>save_buffers\<close> returns true, and \<open>stat\<close> has failed only for missing files
  (\<open>honest\<close>), nothing is lost: every buffer that was queued has its bytes in a new file of its own
  in the directory, no file that existed before has changed, the queue is empty, and all its
  buffers are back in the free list, each once. After any other failure of \<open>stat\<close> the file
  that is opened may be one that existed.
\<close>

theorem save_buffers_correct:
  assumes "queue_ok m" and "queue_list m (s_queue s) xs" and "free_list m (s_alloc s) ys"
    and "set (header (s_queue s) # xs) \<inter> set ys = {}"
    and "save_buffers s m = Ok (True, s', m')" and "honest m'"
  shows "stored (s_dir s) (tz m (s_now s)) xs m m' \<and> queue_list m' (s_queue s') [] \<and>
         free_list m' (s_alloc s') (rev xs @ ys) \<and> heap_ok m'"
  using save_buffers_True [OF assms] by auto

text \<open>Two buffers, and a file with the first name.\<close>

lemma sample_disk_ok:
  "queue_ok (sample_disk rs)" "queue_list (sample_disk rs) sample_queue [2, 3]"
  "free_list (sample_disk rs) sample_pool [4, 5]"
  using sample_queue_ok sample_queue_list sample_free_list [of "[]"]
  by (simp_all add: sample_disk_def queue_ok_def queue_list_def free_list_def cong: heap_ok_cong)

lemmas save_run_simps = save_buffers_def save_buffers_loop.simps sender_put_def alloc_put_def
  pop_all_def unlink_all_def save_buffer_def find_name.simps sys_stat_def save_def
  sys_open_write_def save_loop.simps sys_write_def sys_close_file_def sys_unlink_def
  heap_simps view_Some read_block_def Let_def

lemmas sample_sender_defs = sample_disk_def sample_sender_def new_sender_def sample_queue_def
  sample_pool_def sample_def

theorem save_buffers_witness:
  "\<exists>s' m'. save_buffers sample_sender (sample_disk [Ret 0, Ret 0, Ret 5, Ret 2, Ret 0, Ret 6, Ret 1]) =
       Ok (True, s', m') \<and> queue_list m' (s_queue s') [] \<and> free_list m' (s_alloc s') [3, 2, 4, 5] \<and>
     stored [] sample_tm [2, 3] (sample_disk [Ret 0, Ret 0, Ret 5, Ret 2, Ret 0, Ret 6, Ret 1]) m'"
proof -
  let ?m = "sample_disk [Ret 0, Ret 0, Ret 5, Ret 2, Ret 0, Ret 6, Ret 1]"
  obtain s' m' where run: "save_buffers sample_sender ?m = Ok (True, s', m')"
    and t: "trace m' = [(File (C_stat ''/20000101-000000_000000''), Ret 0),
      (File (C_stat ''/20000101-000000_000001''), Ret 0),
      (File (C_open ''/20000101-000000_000001''), Ret 5), (File (C_write 5 [1, 2]), Ret 2),
      (File (C_close 5), Ret 0), (File (C_stat ''/20000101-000000_000002''), Ret 0),
      (File (C_open ''/20000101-000000_000002''), Ret 6), (File (C_write 6 [3]), Ret 1),
      (File (C_close 6), Ret 0)]"
    by (simp add: save_run_simps sample_sender_defs sample_names append_file_def)
  have "honest m'" unfolding honest_def t by (auto simp: stat_call_def)
  moreover have "queue_list ?m (s_queue sample_sender) [2, 3]" "free_list ?m (s_alloc sample_sender) [4, 5]"
    using sample_disk_ok by (simp_all add: sample_sender_def new_sender_def)
  ultimately have "stored (s_dir sample_sender) (tz ?m (s_now sample_sender)) [2, 3] ?m m' \<and>
    queue_list m' (s_queue s') [] \<and> free_list m' (s_alloc s') (rev [2, 3] @ [4, 5]) \<and> heap_ok m'"
    by (intro save_buffers_correct [OF sample_disk_ok(1) _ _ _ run])
       (simp_all add: sample_sender_def new_sender_def sample_queue_def)
  then show ?thesis using run by (simp add: sample_sender_defs)
qed

section \<open>A failed save\<close>

text \<open>Returning a buffer that is already the first of the free list makes it its own successor.\<close>

lemma sender_put_again:
  assumes "sender_put p s m = Ok (s', m')" and "alloc_first (s_alloc s) = p"
  shows "alloc_first (s_alloc s') = p \<and> \<not> alloc_locked (s_alloc s') \<and> get_next p m' = Ok p"
  using assms by (auto simp: sender_put_def alloc_put_def andThen_Ok_iff set_next_def modify_Ok_iff
      mutex_lock_def mutex_unlock_def get_next_def load_def Let_def split: if_splits)

lemma sender_put_first:
  "sender_put p s m = Ok (s', m') \<Longrightarrow> alloc_first (s_alloc s') = p"
  by (auto simp: sender_put_def alloc_put_def andThen_Ok_iff Let_def split: if_splits)

lemma save_buffers_loop_again:
  "save_buffers_loop ret c p final s m = Ok (r, s', m') \<Longrightarrow> p = final \<Longrightarrow> alloc_first (s_alloc s) = p \<Longrightarrow>
     alloc_first (s_alloc s') = p \<and> \<not> alloc_locked (s_alloc s') \<and> get_next p m' = Ok p"
proof (induction ret c p final s m rule: save_buffers_loop.induct)
  case (1 ret c p final s m)
  from 1(3) show ?case
  proof (cases rule: save_buffers_loop_cases)
    case (last c1 m1)
    show ?thesis by (rule sender_put_again [OF last(3) 1(5)])
  next
    case (again c1 m1 s2 m2)
    with 1(2) [OF again(1) refl refl _ again(2) refl again(3) 1(4)] sender_put_first [OF again(2)]
    show ?thesis by blast
  qed (use 1(4) in simp)
qed

text \<open>
  C24: when a queued buffer cannot be saved at first, it is returned to the allocator and the loop
  goes on with the same buffer. So whenever \<open>save_buffers\<close> returns false for a queue of one
  buffer, that buffer has been returned twice: it is its own successor in the free list, and
  from then on the allocator hands out this one buffer to every caller.
\<close>

theorem save_buffers_retry:
  assumes "queue_ok m" and "queue_list m (s_queue s) [p]"
    and "save_buffers s m = Ok (False, s', m')"
  shows "get_next p m' = Ok p \<and> alloc_get (s_alloc s') m' = Ok (p, s_alloc s', m')"
proof -
  have ok: "heap_ok m" using assms(1) by (simp add: queue_ok_def)
  have p0: "p \<noteq> 0" using queue_list_length(2) [OF ok assms(2)] by simp
  from pop_all_Cons [OF assms(2)] obtain q1 m1 where
    pop: "pop_all (s_queue s) m = Ok (of_nat (length [p]), p, p, q1, m1)" by fastforce
  with assms(3) have run: "save_buffers_loop True 0 p p (s\<lparr>s_queue := q1\<rparr>) m1 = Ok (False, s', m')"
    by (simp add: save_buffers_def Let_def)
  from run have e: "alloc_first (s_alloc s') = p \<and> \<not> alloc_locked (s_alloc s') \<and> get_next p m' = Ok p"
  proof (cases rule: save_buffers_loop_cases)
    case (again c1 m1 s2 m2)
    then show ?thesis using save_buffers_loop_again [OF _ refl] sender_put_first by blast
  qed simp_all
  then have "s_alloc s'\<lparr>alloc_first := p, alloc_locked := False\<rparr> = s_alloc s'"
    by (cases "s_alloc s'") simp
  with e p0 show ?thesis by (simp add: alloc_get_def Let_def)
qed

text \<open>
  The disk is full for a moment. With one buffer in the queue the free list becomes a cycle;
  with two and an empty free list, the second attempt goes on at the null pointer.
\<close>

definition one_buffer :: buffers where
  "one_buffer = \<lparr>header = 4, count = 1, q_locked = False\<rparr>"

definition full_disk :: machine where
  "full_disk = sample\<lparr>replies := [Ret 0, Err ENOSPC, Ret 0, Ret 5, Ret 1],
     cells := [3 \<mapsto> \<lparr>buf_data = 11, buf_length = 1, buf_prev = 4, buf_next = 4\<rparr>,
               4 \<mapsto> \<lparr>buf_data = 0, buf_length = 0, buf_prev = 3, buf_next = 3\<rparr>]\<rparr>"

lemma full_disk_ok: "queue_ok full_disk" "queue_list full_disk one_buffer [3]"
proof -
  have "addr_ok full_disk" unfolding addr_ok_def full_disk_def sample_def by simp
  moreover have "data_ok full_disk" unfolding data_ok_def full_disk_def sample_def by simp
  moreover have "owner_ok full_disk" unfolding owner_ok_def full_disk_def sample_def by simp
  ultimately show "queue_ok full_disk" by (simp add: queue_ok_def heap_ok_def full_disk_def sample_def)
  show "queue_list full_disk one_buffer [3]"
    by (simp add: queue_list_def ring_def prevof_def full_disk_def one_buffer_def)
qed

theorem save_buffers_retry_witness:
  "\<exists>s' m'. save_buffers (new_sender new_allocator one_buffer [] Enc_no [] 0) full_disk = Ok (False, s', m') \<and>
     alloc_get (s_alloc s') m' = Ok (3, s_alloc s', m')"
proof -
  obtain s' m' where run: "save_buffers (new_sender new_allocator one_buffer [] Enc_no [] 0) full_disk = Ok (False, s', m')"
    by (simp add: save_run_simps full_disk_def one_buffer_def new_sender_def new_allocator_def sample_def sample_names)
  with save_buffers_retry [OF full_disk_ok(1) _ run, of 3] full_disk_ok(2) show ?thesis
    by (simp add: new_sender_def)
qed

theorem save_buffers_null:
  "save_buffers (new_sender new_allocator sample_queue [] Enc_no [] 0)
     (sample\<lparr>replies := [Ret 0, Err ENOSPC, Ret 0, Ret 5, Ret 2, Ret 0, Ret 5]\<rparr>) = Fault"
  by (simp add: save_run_simps view_def load_def sample_queue_def new_sender_def new_allocator_def sample_def
      sample_names append_file_def)

section \<open>A file that cannot be read\<close>

definition spool_path :: "sender \<Rightarrow> string \<Rightarrow> string" where
  "spool_path s name = formatted (PATH_MAX + 256) (s_dir s @ ''/'' @ name)"

text \<open>
  C25: a file that cannot be opened for reading (no descriptor left, no permission) is \<open>ignored\<close>
  by \<open>send_file\<close>, which returns true; \<open>send_files\<close> takes that for sent and removes the file.
  Its content is lost, whatever the transport: nothing has been sent.
\<close>

theorem send_files_ignored_lost:
  assumes "v_connected v s" and "name \<noteq> ''.''" and "name \<noteq> ''..''"
    and "files m (spool_path s name) = Some (Reg bs)"
    and "replies m = [Ret 0, Entry name, Ret 0, Err e, Ret 0, Ret 0] @ rs"
  shows "\<exists>m'. send_files v s m = Ok (True, s\<lparr>s_state := Sending_queued_buffers\<rparr>, m') \<and>
           files m' = (files m)(spool_path s name := None) \<and>
           trace m' = trace m @ [(File (C_opendir (s_dir s)), Ret 0), (File C_readdir, Entry name),
             (File (C_stat (spool_path s name)), Ret 0), (File (C_open_read (spool_path s name)), Err e),
             (File (C_unlink (spool_path s name)), Ret 0), (File C_readdir, Ret 0),
             (File C_closedir, Ret 0)]"
proof -
  let ?f = "spool_path s name"
  let ?m = "m\<lparr>replies := tl (replies m), trace := trace m @ [(File (C_opendir (s_dir s)), Ret 0)]\<rparr>"
  have path: "formatted (PATH_MAX + 256) (s_dir s @ CHR ''/'' # name) = ?f" by (simp add: spool_path_def)
  have "\<exists>m'. send_files_loop (Suc (Suc k)) v s ?m = Ok (True, s\<lparr>s_state := Sending_queued_buffers\<rparr>, m') \<and>
           files m' = (files m)(?f := None) \<and>
           trace m' = trace m @ [(File (C_opendir (s_dir s)), Ret 0), (File C_readdir, Entry name),
             (File (C_stat ?f), Ret 0), (File (C_open_read ?f), Err e),
             (File (C_unlink ?f), Ret 0), (File C_readdir, Ret 0), (File C_closedir, Ret 0)]" for k
    using assms by (simp add: path Let_def send_entry_def sys_readdir_def sys_stat_def send_file_def sys_open_read_def sys_unlink_def sys_closedir_def)
  from this [of "Suc (Suc (Suc (Suc (length rs))))"] assms(1,5) show ?thesis
    by (simp add: send_files_def sender_connect_def sys_opendir_def del: send_files_loop.simps)
qed

theorem send_files_ignored_witness:
  "\<exists>m'. send_files insecure (sample_sender\<lparr>s_sock := \<lparr>sock_fd = 3\<rparr>\<rparr>)
       (sample_disk [Ret 0, Entry ''20000101-000000_000000'', Ret 0, Err EINVAL, Ret 0, Ret 0]) =
     Ok (True, sample_sender\<lparr>s_sock := \<lparr>sock_fd = 3\<rparr>, s_state := Sending_queued_buffers\<rparr>, m') \<and>
     files m' = Map.empty"
proof -
  let ?s = "sample_sender\<lparr>s_sock := \<lparr>sock_fd = 3\<rparr>\<rparr>" and ?n = "''20000101-000000_000000''"
  let ?m = "sample_disk [Ret 0, Entry ?n, Ret 0, Err EINVAL, Ret 0, Ret 0]"
  have p: "spool_path ?s ?n = ''/20000101-000000_000000''"
    by (simp add: spool_path_def sample_sender_def new_sender_def formatted_def PATH_MAX_def)
  have "files ?m = [spool_path ?s ?n \<mapsto> Reg [9]]" "replies ?m = [Ret 0, Entry ?n, Ret 0, Err EINVAL, Ret 0, Ret 0] @ []"
    unfolding p by (simp_all add: sample_disk_def)
  with send_files_ignored_lost [of insecure ?s ?n ?m "[9]" EINVAL "[]"] show ?thesis
    by (auto simp: insecure_def connected_insecure_def)
qed

end
