(* ===== verification/Sending.thy ===== *)
theory Sending
  imports Transport Spool
begin

text \<open>
  What the thread of the sender does with the queued buffers and with the files of its
  directory: nothing is lost or sent twice by a transport that keeps its contract. The lemmas
  are proved once, in the locale \<open>transport\<close>; the properties are their instances for the two
  transports of the code.
\<close>

section \<open>Buffers over steps that do not touch them\<close>

lemma same_mem_views:
  assumes "same_mem m m'"
  shows "queue_list m' q xs = queue_list m q xs" "free_list m' a ys = free_list m a ys"
    "heap_ok m' = heap_ok m" "cells m' = cells m" "view p m' = view p m" "brk m' = brk m"
    "own_chain m' q xs f zs l = own_chain m q xs f zs l"
proof -
  from assms have c: "cells m' = cells m" "blocks m' = blocks m" "brk m' = brk m"
    by (simp_all add: same_mem_def)
  show "queue_list m' q xs = queue_list m q xs" "free_list m' a ys = free_list m a ys"
    "cells m' = cells m" "brk m' = brk m" "own_chain m' q xs f zs l = own_chain m q xs f zs l"
    unfolding queue_list_def free_list_def own_chain_def c by (rule refl)+
  show "heap_ok m' = heap_ok m" by (rule heap_ok_cong [OF c])
  show "view p m' = view p m" by (rule view_same_mem [OF assms])
qed

lemma queue_list_cells:
  assumes "queue_list m q ws" and c: "\<forall>p \<in> set (header q # ws). cells m' p = cells m p"
  shows "queue_list m' q ws"
proof -
  have "chain (cells m') (header q) (header q # ws) (header q) =
      chain (cells m) (header q) (header q # ws) (header q)"
    by (rule chain_cong) (simp only: c)
  moreover have "prevof (cells m') (header q) = prevof (cells m) (header q)"
    using c by (simp add: prevof_def)
  ultimately show ?thesis using assms(1) unfolding queue_list_def ring_def by metis
qed

lemma queue_list_relinked:
  assumes "queue_list m q ws" and "relinked A m m'" and "A \<inter> set (header q # ws) = {}"
  shows "queue_list m' q ws"
  by (rule queue_list_cells [OF assms(1)]) (use assms(2,3) in \<open>auto simp: relinked_def\<close>)

lemma free_list_cells:
  assumes "free_list m a ys" and "\<forall>p \<in> set ys. cells m' p = cells m p"
  shows "free_list m' a ys"
  using assms(1) chain_cong [of ys "cells m'" "cells m"] assms(2) by (simp add: free_list_def)

definition content :: "machine \<Rightarrow> ptr \<Rightarrow> byte list" where
  "content m p = (case view p m of Ok d \<Rightarrow> d | _ \<Rightarrow> [])"

text \<open>Buffers that can be sent: readable, and less than 2 GiB.\<close>

definition sendable :: "machine \<Rightarrow> ptr list \<Rightarrow> bool" where
  "sendable m xs \<longleftrightarrow> (\<forall>p \<in> set xs. view p m = Ok (content m p) \<and> length (content m p) < 2 ^ 31)"

lemma content_cong: "\<forall>p. view p m' = view p m \<Longrightarrow> content m' = content m"
  by (simp add: content_def fun_eq_iff)

lemma sendable_cong: "\<forall>p. view p m' = view p m \<Longrightarrow> sendable m' xs = sendable m xs"
  by (simp add: sendable_def content_def)

text \<open>
  \<open>returned xs ws ys k m s' m'\<close>: of the buffers \<open>xs\<close> the first \<open>k\<close> are in the free list, which was
  \<open>ys\<close>, the others are back in front of the queue, which was \<open>ws\<close>. Contents, files and the set
  of live buffers are what they were.
\<close>

definition returned :: "ptr list \<Rightarrow> ptr list \<Rightarrow> ptr list \<Rightarrow> nat \<Rightarrow> machine \<Rightarrow> sender \<Rightarrow> machine \<Rightarrow> bool" where
  "returned xs ws ys k m s' m' \<longleftrightarrow>
     queue_list m' (s_queue s') (drop k xs @ ws) \<and> free_list m' (s_alloc s') (rev (take k xs) @ ys) \<and>
     heap_ok m' \<and> brk m' = brk m \<and> files m' = files m \<and> (\<forall>p. view p m' = view p m) \<and>
     (\<forall>p. (cells m' p = None) = (cells m p = None)) \<and> length (replies m') \<le> length (replies m)"

text \<open>What the loop may assume of the buffers it is given.\<close>

definition to_send :: "machine \<Rightarrow> sender \<Rightarrow> ptr \<Rightarrow> ptr list \<Rightarrow> ptr \<Rightarrow> ptr list \<Rightarrow> ptr list \<Rightarrow> bool" where
  "to_send m s first xs final ws ys \<longleftrightarrow>
     heap_ok m \<and> queue_list m (s_queue s) ws \<and> free_list m (s_alloc s) ys \<and>
     own_chain m (s_queue s) ws first xs final \<and> set xs \<inter> set ys = {} \<and>
     set (header (s_queue s) # ws) \<inter> set ys = {} \<and> sendable m xs"

lemma to_send_undisturbed:
  assumes "to_send m s first xs final ws ys" and "undisturbed m m'" and "conn_only s s'"
  shows "to_send m' s' first xs final ws ys"
proof -
  have sm: "same_mem m m'" using assms(2) by (simp add: undisturbed_def)
  have "sendable m' xs = sendable m xs" by (rule sendable_cong) (simp add: same_mem_views [OF sm])
  with assms(1) same_mem_views [OF sm] conn_only_fields [OF assms(3)] show ?thesis
    by (simp add: to_send_def)
qed

text \<open>After the first buffer has gone to the allocator, the loop is where it was with the rest.\<close>

lemma to_send_put:
  assumes "to_send m s first (x # xs) final ws ys"
  shows "\<exists>a m'. first = x \<and> sender_put first s m = Ok (s\<lparr>s_alloc := a\<rparr>, m') \<and>
           free_list m' a (x # ys) \<and> relinked {x} m m' \<and> trace m' = trace m \<and>
           (x = final \<longleftrightarrow> xs = []) \<and>
           (xs \<noteq> [] \<longrightarrow> get_next first m = Ok (hd xs) \<and>
              to_send m' (s\<lparr>s_alloc := a\<rparr>) (hd xs) xs final ws (x # ys))"
proof -
  from assms have ok: "heap_ok m" "queue_list m (s_queue s) ws" "free_list m (s_alloc s) ys"
    "own_chain m (s_queue s) ws first (x # xs) final" "set (x # xs) \<inter> set ys = {}"
    "set (header (s_queue s) # ws) \<inter> set ys = {}" "sendable m (x # xs)"
    by (simp_all add: to_send_def)
  from ok(4) obtain r where fin: "final = last (x # xs)" and dist: "distinct (x # xs)"
    and disj: "set (x # xs) \<inter> set (header (s_queue s) # ws) = {}"
    and ch: "chain (cells m) first (x # xs) r" and nf: "nextof (cells m) final = Some r"
    by (auto simp: own_chain_def split: option.splits)
  from ch obtain b where first: "first = x" and b: "cells m x = Some b"
    and rest: "chain (cells m) (buf_next b) xs r" by (auto split: option.splits)
  from sender_put_ok [OF ok(3), of x] b ok(5) obtain a m' where
    put: "sender_put x s m = Ok (s\<lparr>s_alloc := a\<rparr>, m')" "free_list m' a (x # ys)"
      "relinked {x} m m'" "trace m' = trace m" by auto
  have cells: "cells m' p = cells m p" if "p \<noteq> x" for p using put(3) that by (simp add: relinked_def)
  have last: "x = final \<longleftrightarrow> xs = []" using fin dist by auto
  have "get_next first m = Ok (hd xs) \<and> to_send m' (s\<lparr>s_alloc := a\<rparr>) (hd xs) xs final ws (x # ys)"
    if ne: "xs \<noteq> []"
  proof -
    have hd: "buf_next b = hd xs" using chain_start [OF rest] ne by simp
    have "chain (cells m') (hd xs) xs r"
      using rest hd dist cells by (subst chain_cong [of _ "cells m'" "cells m"]) (auto, metis)
    moreover have "nextof (cells m') final = Some r"
      using nf cells [of final] last ne by (auto simp: nextof_def)
    ultimately have "own_chain m' (s_queue s) ws (hd xs) xs final"
      using fin dist disj ne by (simp add: own_chain_def)
    moreover have "queue_list m' (s_queue s) ws"
      by (rule queue_list_relinked [OF ok(2) put(3)]) (use disj in auto)
    moreover have "sendable m' xs"
      using ok(7) sendable_cong [of m' m xs] relinked_view [OF put(3)] by (simp add: sendable_def)
    ultimately show ?thesis
      using ok put dist disj hd b first relinked_heap_ok [OF put(3) ok(1)]
      by (auto simp: to_send_def get_next_Some)
  qed
  with put first last show ?thesis by auto
qed

text \<open>Pushing what is left back to the front.\<close>

lemma requeue:
  assumes "to_send m s first xs final ws ys"
  shows "\<exists>n q m'. push_front_chain first final (s_queue s) m = Ok (n, q, m') \<and>
           returned xs ws ys 0 m (s\<lparr>s_queue := q\<rparr>) m' \<and> header q = header (s_queue s) \<and> host_only m m' \<and>
           relinked (set (xs @ header (s_queue s) # ws)) m m'"
proof -
  from assms have hq: "heap_ok m" "queue_list m (s_queue s) ws" "free_list m (s_alloc s) ys"
    "own_chain m (s_queue s) ws first xs final" by (simp_all add: to_send_def)
  from push_front_chain_Ok [OF hq(1,2,4)] obtain q m' where
    push: "push_front_chain first final (s_queue s) m = Ok (of_nat (length (xs @ ws)), q, m')"
    and q: "queue_list m' q (xs @ ws)" "header q = header (s_queue s)"
    and rl: "relinked (set (xs @ header (s_queue s) # ws)) m m'" by blast
  have "free_list m' (s_alloc s) ys"
    using assms free_list_relinked [OF hq(3) rl] by (auto simp: to_send_def)
  then have "returned xs ws ys 0 m (s\<lparr>s_queue := q\<rparr>) m'"
    using q relinked_fields [OF rl] relinked_heap_ok [OF rl hq(1)] relinked_view [OF rl]
      relinked_live [OF rl] by (simp add: returned_def)
  with push q(2) push_front_chain_host [OF push] rl show ?thesis by blast
qed

lemma returned_undisturbed:
  assumes "returned xs ws ys k m1 s' m'" and "undisturbed m m1"
  shows "returned xs ws ys k m s' m'"
proof -
  have "same_mem m m1" using assms(2) by (simp add: undisturbed_def)
  from same_mem_views [OF this] assms show ?thesis by (simp add: returned_def undisturbed_def)
qed

section \<open>Taking the queue\<close>

text \<open>A sender whose queue holds \<open>xs\<close> and whose allocator holds \<open>ys\<close>, in order.\<close>

definition sender_ok :: "machine \<Rightarrow> sender \<Rightarrow> ptr list \<Rightarrow> ptr list \<Rightarrow> bool" where
  "sender_ok m s xs ys \<longleftrightarrow>
     queue_ok m \<and> queue_list m (s_queue s) xs \<and> free_list m (s_alloc s) ys \<and>
     set (header (s_queue s) # xs) \<inter> set ys = {} \<and> sendable m xs"

lemma shuffled_view:
  assumes "shuffled A m m'" shows "view p m' = view p m"
  using assms by (intro same_contents_view [of UNIV]) (auto simp: same_contents_def shuffled_def)

lemma shuffled_live: "shuffled A m m' \<Longrightarrow> (cells m' p = None) = (cells m p = None)"
  by (auto simp: shuffled_def contentof_def dest!: spec [of _ p])

lemma shuffled_free_list:
  assumes "free_list m a ys" and "shuffled A m m'" and "A \<inter> set ys = {}"
  shows "free_list m' a ys"
  by (rule free_list_cells [OF assms(1)]) (use assms(2,3) in \<open>auto simp: shuffled_def\<close>)

lemma returned_shuffled:
  assumes "returned xs ws ys k m1 s' m'" and "shuffled A m m1"
  shows "returned xs ws ys k m s' m'"
  using assms shuffled_view [OF assms(2)] shuffled_live [OF assms(2)]
  by (auto simp: returned_def shuffled_def)

text \<open>What a pop hands to the loop: a chain the queue and the allocator know nothing of.\<close>

definition taken :: "sender \<Rightarrow> ptr list \<Rightarrow> ptr list \<Rightarrow> machine \<Rightarrow>
    size_t \<times> ptr \<times> ptr \<times> buffers \<times> machine \<Rightarrow> bool" where
  "taken s xs ys m = (\<lambda>(n, first, final, q, m').
     0 < n \<and> to_send m' (s\<lparr>s_queue := q\<rparr>) first xs final [] ys \<and> header q = header (s_queue s) \<and>
     host_only m m' \<and> (\<exists>A. shuffled A m m'))"

lemma count_pos: "xs \<noteq> [] \<Longrightarrow> length xs < 2 ^ 64 \<Longrightarrow> (0 :: size_t) < of_nat (length xs)"
  by (simp add: word_less_nat_alt unat_of_nat)

lemma takenI:
  assumes "heap_ok m'" "queue_list m' q []" "own_chain m' q [] first xs final"
    and "shuffled A m m'" "A \<inter> set ys = {}" "free_list m (s_alloc s) ys" "sendable m xs"
    and "set (header (s_queue s) # xs) \<inter> set ys = {}" "header q = header (s_queue s)" "host_only m m'"
    and "xs \<noteq> []" "length xs < 2 ^ 64"
  shows "taken s xs ys m (of_nat (length xs), first, final, q, m')"
proof -
  have "sendable m' xs" using assms(7) sendable_cong shuffled_view [OF assms(4)] by metis
  with assms shuffled_free_list [OF assms(6,4,5)] count_pos [OF assms(11,12)] show ?thesis
    by (auto simp: taken_def to_send_def)
qed

lemma take_now:
  assumes "sender_ok m s xs ys" and "xs \<noteq> []"
  shows "\<exists>x. pop_all_timed t (s_queue s) m = Ok x \<and> taken s xs ys m x"
proof -
  from assms(1) have ok: "heap_ok m" "brk m < 2 ^ 64" "queue_list m (s_queue s) xs"
    "free_list m (s_alloc s) ys" "set (header (s_queue s) # xs) \<inter> set ys = {}" "sendable m xs"
    by (simp_all add: sender_ok_def queue_ok_def)
  from pop_all_Cons [OF ok(3) assms(2)] obtain q m' where
    p: "pop_all (s_queue s) m = Ok (of_nat (length xs), hd xs, last xs, q, m')" "queue_list m' q []"
      "header q = header (s_queue s)" "own_chain m' q [] (hd xs) xs (last xs)"
      "relinked {header (s_queue s)} m m'" by blast
  have len: "length xs < 2 ^ 64" using queue_list_length(1) [OF ok(1,3)] ok(2) by simp
  have "pop_all_timed t (s_queue s) m = pop_all (s_queue s) m"
    using timed_pop_immediate [OF ok(3) assms(2)] by simp
  moreover have "taken s xs ys m (of_nat (length xs), hd xs, last xs, q, m')"
    by (rule takenI [OF relinked_heap_ok [OF p(5) ok(1)] p(2,4) shuffled_relinked [OF p(5)] _ ok(4,6,5)
          p(3) host_only_same [OF pop_trace(2) [OF p(1)]] assms(2) len]) (use ok(5) in auto)
  ultimately show ?thesis using p(1) by simp
qed

lemma ops_effect_set:
  "ops_effect live z ops xs = Some ys \<Longrightarrow> set ys \<subseteq> set xs \<union> (\<Union>x \<in> set ops. pushed x)"
proof (induction ops arbitrary: xs)
  case (Cons x ops)
  then show ?case using op_effect_set by (fastforce simp: bind_eq_Some_conv)
qed simp

lemma await_set: "await live z rs = Ends w xs \<Longrightarrow> set xs \<subseteq> pushed_in rs"
proof (induction rs)
  case (Cons r rs)
  then show ?case
    using ops_effect_set [of live z "ops_of r" "[]"]
    by (fastforce simp: pushed_Cons split: option.splits if_splits)
qed simp

lemma await_some: "await live z rs = Ends True xs \<Longrightarrow> xs \<noteq> []"
  by (induction rs) (auto split: option.splits if_splits)

lemma take_wait:
  assumes "sender_ok m s [] ys" and "replies m = now # rs"
    and "await (\<lambda>p. cells m p \<noteq> None) (header (s_queue s)) rs = Ends w xs"
    and "pushed_in rs \<inter> set ys = {}" and "sendable m xs"
  shows "\<exists>n first final q m'. pop_all_timed t (s_queue s) m = Ok (n, first, final, q, m') \<and>
           (if w then taken s xs ys m (n, first, final, q, m')
            else n = 0 \<and> sender_ok m' (s\<lparr>s_queue := q\<rparr>) xs ys \<and> host_only m m' \<and>
                 shuffled (insert (header (s_queue s)) (pushed_in rs)) m m')"
proof -
  from assms(1) have ok: "heap_ok m" "brk m < 2 ^ 64" "queue_list m (s_queue s) []"
    "free_list m (s_alloc s) ys" "header (s_queue s) \<notin> set ys" by (simp_all add: sender_ok_def queue_ok_def)
  from pop_all_timed_Ok [OF ok(1,3) assms(2), of t, unfolded assms(3) outcome.case] obtain n first final q m' where
    p: "pop_all_timed t (s_queue s) m = Ok (n, first, final, q, m')" "heap_ok m'"
      "queue_list m' q (if w then [] else xs)" "\<forall>p. view p m' = view p m" "header q = header (s_queue s)"
      and sh: "shuffled (insert (header (s_queue s)) (pushed_in rs)) m m'"
      and w: "if w then n = of_nat (length xs) \<and> own_chain m' q [] first xs final
              else n = 0 \<and> first = 0 \<and> final = 0" by blast
  have disj: "insert (header (s_queue s)) (pushed_in rs) \<inter> set ys = {}"
    "set (header (s_queue s) # xs) \<inter> set ys = {}" using await_set [OF assms(3)] assms(4) ok(5) by auto
  have b: "brk m' = brk m" using sh by (simp add: shuffled_def)
  note host = pop_all_timed_host [OF p(1)]
  show ?thesis
  proof (cases w)
    case True
    with w p(3) have own: "own_chain m' q [] first xs final" and n: "n = of_nat (length xs)"
      and q: "queue_list m' q []" by simp_all
    obtain zs r where "xs = zs @ [final]" "chain (cells m') first (zs @ [final]) r" "distinct (zs @ [final])"
      using own_chain_split [OF own] by metis
    with chain_length [OF p(2)] b ok(2) have len: "length xs < 2 ^ 64" by fastforce
    have "taken s xs ys m (n, first, final, q, m')"
      unfolding n by (rule takenI [OF p(2) q own sh disj(1) ok(4) assms(5) disj(2) p(5) host _ len])
        (use await_some assms(3) True in auto)
    with p(1) True show ?thesis by auto
  next
    case False
    have "sendable m' xs" using assms(5) sendable_cong [OF p(4)] by simp
    then have "sender_ok m' (s\<lparr>s_queue := q\<rparr>) xs ys"
      using False p(2,3,5) b ok(2) disj(2) shuffled_free_list [OF ok(4) sh disj(1)]
      by (simp add: sender_ok_def queue_ok_def)
    with p(1) w host sh False show ?thesis by auto
  qed
qed

lemma returned_ok:
  assumes "to_send m s first xs final [] ys" and "returned xs [] ys k m s' m'"
    and "header (s_queue s') = header (s_queue s)" and "brk m < 2 ^ 64"
  shows "sender_ok m' s' (drop k xs) (rev (take k xs) @ ys)"
proof -
  from assms(1) have d: "distinct xs" "set xs \<inter> set [header (s_queue s)] = {}" "set xs \<inter> set ys = {}"
    "header (s_queue s) \<notin> set ys" "sendable m xs" by (auto simp: to_send_def own_chain_def)
  have "set (take k xs) \<inter> set (drop k xs) = {}"
    using d(1) by (simp add: set_take_disj_set_drop_if_distinct)
  moreover have "sendable m' (drop k xs)"
    using d(5) assms(2) sendable_cong [of m' m "drop k xs"] in_set_dropD [of _ k xs]
    by (auto simp: returned_def sendable_def)
  ultimately show ?thesis
    using assms(2-4) d by (auto simp: sender_ok_def queue_ok_def returned_def dest: in_set_takeD in_set_dropD)
qed

section \<open>Sending the queue\<close>

text \<open>
  The connection's part: the bytes of the first \<open>k\<close> buffers have been taken in order, and
  perhaps a part of the next.
\<close>

definition handed_over :: "machine \<Rightarrow> ptr list \<Rightarrow> nat \<Rightarrow> byte list \<Rightarrow> byte list \<Rightarrow> bool" where
  "handed_over m xs k before after \<longleftrightarrow>
     (\<exists>j. after = before @ concat (map (content m) (take k xs)) @
        (if k < length xs then take j (content m (xs ! k)) else []))"

context transport
begin

lemma send_queue_loop_spec:
  assumes "inv s" and "v_connected v s" and "to_send m s first xs final ws ys"
  shows "wp (send_queue_loop fuel v first final s m) (\<lambda>(err, s', m'). \<exists>k \<le> length xs.
           returned xs ws ys k m s' m' \<and> (err \<longleftrightarrow> k < length xs) \<and>
           v_connected v s' = (\<not> err) \<and> inv s' \<and> res s' m' = res s m \<and> s_state s' = s_state s \<and>
           s_dir s' = s_dir s \<and> header (s_queue s') = header (s_queue s) \<and>
           handed_over m xs k (out s m) (out s m') \<and> (\<not> err \<longrightarrow> out s' m' = out s m'))"
  using assms
proof (induction fuel arbitrary: first s m xs ys)
  case 0
  then show ?case by simp
next
  case (Suc fuel)
  let ?Q = "\<lambda>xs ys s m (err, s', m'). \<exists>k \<le> length xs.
           returned xs ws ys k m s' m' \<and> (err \<longleftrightarrow> k < length xs) \<and>
           v_connected v s' = (\<not> err) \<and> inv s' \<and> res s' m' = res s m \<and> s_state s' = s_state s \<and>
           s_dir s' = s_dir s \<and> header (s_queue s') = header (s_queue s) \<and>
           handed_over m xs k (out s m) (out s m') \<and> (\<not> err \<longrightarrow> out s' m' = out s m')"
  have "xs \<noteq> []" using Suc.prems(3) by (simp add: to_send_def own_chain_def)
  then obtain x xt where xs: "xs = x # xt" by (cases xs) auto
  from to_send_put [OF Suc.prems(3) [unfolded xs]] have first: "first = x" by blast
  have v: "view first m = Ok (content m x)" and len: "length (content m x) < 2 ^ 31"
    using Suc.prems(3) by (auto simp: to_send_def sendable_def xs first)
  let ?rest = "\<lambda>(ok, s1, m1). if ok then
         (if first \<noteq> final then
            andThen (get_next first m1) (\<lambda>next.
            andThen (sender_put first s1 m1) (\<lambda>(s, m). send_queue_loop fuel v next final s m))
          else
            andThen (sender_put first s1 m1) (\<lambda>(s, m). Ok (False, s, m)))
       else
         andThen (push_front_chain first final (s_queue s1) m1) (\<lambda>(n, q, m).
           Ok (True, s1\<lparr>s_queue := q\<rparr>, m))"
  have "wp (andThen (sender_send v (content m x) s m) ?rest) (?Q xs ys s m)"
  proof (rule wp_step [OF send_spec [OF Suc.prems(1,2) len]], goal_cases)
    case (1 z)
    then obtain ok s1 m1 j where z: "z = (ok, s1, m1)" and inv1: "inv s1" and ok: "v_connected v s1 = ok"
      and co: "conn_only s s1" and und: "undisturbed m m1" and res1: "res s1 m1 = res s m"
      and out1: "out s m1 = out s m @ take j (content m x)" "ok \<longrightarrow> j = length (content m x)"
        "ok \<longrightarrow> s1 = s\<lparr>s_last := s_now s\<rparr>" by (cases z) auto
    note cf = conn_only_fields [OF co]
    have ts: "to_send m1 s1 first (x # xt) final ws ys"
      using to_send_undisturbed [OF Suc.prems(3) und co] by (simp add: xs)
    have und': "files m1 = files m" "brk m1 = brk m" "cells m1 = cells m" "\<forall>p. view p m1 = view p m"
      "length (replies m1) \<le> length (replies m)"
      using und same_mem_views by (auto simp: undisturbed_def)
    show ?case
    proof (cases "v_connected v s1")
      case False
      from requeue [OF ts] obtain n q2 m2 where
        push: "push_front_chain first final (s_queue s1) m1 = Ok (n, q2, m2)"
        and ret: "returned (x # xt) ws ys 0 m1 (s1\<lparr>s_queue := q2\<rparr>) m2"
        and q2: "header q2 = header (s_queue s1)" and host: "host_only m1 m2" by blast
      note ret' = returned_undisturbed [OF ret und]
      have "handed_over m xs 0 (out s m) (out s m2)"
        using out1(1) frame_host(1) [OF host] by (auto simp: handed_over_def xs)
      moreover have "res s1 m2 = res s m" using res1 frame_host(2) [OF host] by simp
      ultimately show ?thesis
        using False ok inv1 cf q2 ret' by (simp add: push [unfolded cf(2)] xs z) blast
    next
      case True
      with ok out1 have out: "out s m1 = out s m @ content m x" and s1: "s1 = s\<lparr>s_last := s_now s\<rparr>" by auto
      from to_send_put [OF ts] obtain a m2 where
        put: "sender_put first s1 m1 = Ok (s1\<lparr>s_alloc := a\<rparr>, m2)" "free_list m2 a (x # ys)"
          "relinked {x} m1 m2" "trace m2 = trace m1" and last: "x = final \<longleftrightarrow> xt = []"
        and more: "xt \<noteq> [] \<Longrightarrow> get_next first m1 = Ok (hd xt) \<and>
              to_send m2 (s1\<lparr>s_alloc := a\<rparr>) (hd xt) xt final ws (x # ys)" by auto
      note rl = relinked_fields [OF put(3)] relinked_view [OF put(3)] relinked_live [OF put(3)]
      have h1: "heap_ok m1" "queue_list m1 (s_queue s1) ws" "set (header (s_queue s1) # ws) \<inter> {x} = {}"
        using ts by (auto simp: to_send_def own_chain_def)
      have h2: "heap_ok m2" by (rule relinked_heap_ok [OF put(3) h1(1)])
      have host: "host_only m1 m2" by (rule host_only_same [OF put(4)])
      let ?s = "s1\<lparr>s_alloc := a\<rparr>"
      have s2: "inv ?s" "v_connected v ?s" "res ?s m2 = res s m" "out ?s m2 = out s m @ content m x"
        using inv1 True res1 out s1 frame_host [OF host] by simp_all
      show ?thesis
      proof (cases "xt = []")
        case True
        then have fin: "first = final" using first last by simp
        have "queue_list m2 (s_queue s1) ws"
          by (rule queue_list_relinked [OF h1(2) put(3)]) (use h1(3) in auto)
        then have "returned xs ws ys 1 m ?s m2"
          using put(2) h2 rl und' True by (simp add: returned_def xs)
        moreover have "handed_over m xs 1 (out s m) (out s m2)"
          using out frame_host(1) [OF host] True by (simp add: handed_over_def xs)
        ultimately show ?thesis
          using \<open>v_connected v s1\<close> ok True s2 out cf first last s1 frame_host(1) [OF host]
          by (simp add: put(1) [unfolded s1 fin] xs z) (intro exI [of _ "Suc 0"], simp)
      next
        case False
        note mr = more [OF False]
        have "wp (send_queue_loop fuel v (hd xt) final ?s m2) (?Q xs ys s m)"
        proof (rule wp_mono [OF Suc.IH [OF s2(1,2) conjunct2 [OF mr]]])
          fix y assume "?Q xt (x # ys) ?s m2 y"
          moreover obtain err s' m' where y: "y = (err, s', m')" by (cases y)
          ultimately obtain k where k: "k \<le> length xt" "returned xt ws (x # ys) k m2 s' m'"
            "err = (k < length xt)" "v_connected v s' = (\<not> err)" "inv s'" "res s' m' = res ?s m2"
            "s_state s' = s_state ?s" "s_dir s' = s_dir ?s" "header (s_queue s') = header (s_queue ?s)"
            "handed_over m2 xt k (out ?s m2) (out ?s m')" "\<not> err \<longrightarrow> out s' m' = out ?s m'"
            by auto
          have cm: "content m2 = content m" by (rule content_cong) (use rl und'(4) in simp)
          have "returned xs ws ys (Suc k) m s' m'"
            using k(2) rl und' by (simp add: returned_def xs)
          moreover have "handed_over m xs (Suc k) (out s m) (out s m')"
            using k(10) s2(4) by (auto simp: handed_over_def cm s1 xs)
          ultimately show "?Q xs ys s m y" using k cf s2 s1 by (auto simp: y xs intro!: exI [of _ "Suc k"])
        qed
        with True ok False mr last first show ?thesis by (simp add: put(1) [unfolded first] z)
      qed
    qed
  qed
  then show ?case by (simp add: v)
qed

text \<open>The loop is entered once for each buffer: a round for each is fuel enough.\<close>

lemma send_queue_loop_fuel:
  assumes "inv s" and "v_connected v s" and "to_send m s first xs final ws ys" and "length xs \<le> fuel"
  shows "send_queue_loop fuel v first final s m = send_queue_loop (length xs) v first final s m"
  using assms
proof (induction xs arbitrary: first s m ys fuel)
  case Nil
  then show ?case by (simp add: to_send_def own_chain_def)
next
  case (Cons x xt)
  then obtain f where f: "fuel = Suc f" "length xt \<le> f" by (cases fuel) auto
  have first: "first = x" using to_send_put [OF Cons.prems(3)] by blast
  have v: "view first m = Ok (content m x)" and len: "length (content m x) < 2 ^ 31"
    using Cons.prems(3) by (auto simp: to_send_def sendable_def first)
  show ?case
  proof (cases "sender_send v (content m x) s m")
    case (Ok z)
    then obtain ok s1 m1 where z: "sender_send v (content m x) s m = Ok (ok, s1, m1)" by (cases z) auto
    from wp_Ok [OF send_spec [OF Cons.prems(1,2) len] z] have inv1: "inv s1" and ok: "v_connected v s1 = ok"
      and co: "conn_only s s1" and und: "undisturbed m m1" by auto
    from to_send_put [OF to_send_undisturbed [OF Cons.prems(3) und co]] obtain a m2 where
      put: "sender_put first s1 m1 = Ok (s1\<lparr>s_alloc := a\<rparr>, m2)" and last: "x = final \<longleftrightarrow> xt = []"
      and more: "xt \<noteq> [] \<Longrightarrow> get_next first m1 = Ok (hd xt) \<and>
        to_send m2 (s1\<lparr>s_alloc := a\<rparr>) (hd xt) xt final ws (x # ys)" by auto
    have "send_queue_loop f v (hd xt) final (s1\<lparr>s_alloc := a\<rparr>) m2 =
        send_queue_loop (length xt) v (hd xt) final (s1\<lparr>s_alloc := a\<rparr>) m2" if "ok" "xt \<noteq> []"
      using that inv1 ok more f(2) by (intro Cons.IH) auto
    moreover have "xt = [] \<Longrightarrow> final = x" "xt \<noteq> [] \<Longrightarrow> x \<noteq> final" using last by auto
    ultimately show ?thesis using put more
      unfolding first by (cases ok; cases "xt = []") (simp_all add: f(1) v [unfolded first] z)
  qed (simp_all add: f(1) v)
qed

text \<open>Buffers taken from the queue: sent, if there is or can be a connection, or put back.\<close>

lemma send_taken_spec:
  assumes "inv s" and "to_send m s first xs final ws ys"
  shows "wp (andThen (sender_connect v s m) (\<lambda>(ok, s, m).
           if ok then send_queue_loop (brk m) v first final s m
           else
             andThen (push_front_chain first final (s_queue s) m) (\<lambda>(n, q, m).
               Ok (True, s\<lparr>s_queue := q\<rparr>, m))))
         (\<lambda>(err, s', m'). \<exists>k \<le> length xs.
           returned xs ws ys k m s' m' \<and> (err \<longleftrightarrow> k < length xs) \<and>
           v_connected v s' = (\<not> err) \<and> inv s' \<and> res s' m' = res s m \<and> s_state s' = s_state s \<and>
           s_dir s' = s_dir s \<and> header (s_queue s') = header (s_queue s) \<and>
           (v_connected v s \<longrightarrow> handed_over m xs k (out s m) (out s m')) \<and>
           (\<not> err \<longrightarrow> (\<exists>before. out s' m' = before @ concat (map (content m) xs))))"
    (is "wp _ ?Q")
proof (rule wp_step [OF connect_spec [OF assms(1)]], goal_cases)
  case (1 z)
  then obtain ok s1 m1 where z: "z = (ok, s1, m1)" and inv1: "inv s1" and ok: "v_connected v s1 = ok"
    and co: "conn_only s s1" and und: "undisturbed m m1" and res1: "res s1 m1 = res s m"
    and same: "v_connected v s \<longrightarrow> s1 = s \<and> m1 = m" and okc: "v_connected v s \<longrightarrow> ok" by (cases z) auto
  have ts: "to_send m1 s1 first xs final ws ys" by (rule to_send_undisturbed [OF assms(2) und co])
  have cm: "content m1 = content m"
    using und by (intro content_cong) (auto simp: undisturbed_def same_mem_views)
  note cf = conn_only_fields [OF co] and ret = returned_undisturbed [OF _ und]
  show ?case
  proof (cases ok)
    case True
    have "wp (send_queue_loop (brk m1) v first final s1 m1) ?Q"
    proof (rule wp_mono [OF send_queue_loop_spec [OF inv1 _ ts]], goal_cases)
      case (2 y)
      obtain err s' m' where y: "y = (err, s', m')" by (cases y)
      from 2 [unfolded y prod.case] obtain k where k: "k \<le> length xs"
        "returned xs ws ys k m1 s' m'" "err \<longleftrightarrow> k < length xs" "v_connected v s' = (\<not> err)" "inv s'"
        "res s' m' = res s1 m1" "s_state s' = s_state s1" "s_dir s' = s_dir s1"
        "header (s_queue s') = header (s_queue s1)"
        "handed_over m1 xs k (out s1 m1) (out s1 m')" "\<not> err \<longrightarrow> out s' m' = out s1 m'" by blast
      have "handed_over m xs k (out s1 m1) (out s1 m')" using k(10) unfolding handed_over_def cm .
      moreover from this k(1,3,11) have "\<not> err \<longrightarrow> (\<exists>before. out s' m' = before @ concat (map (content m) xs))"
        by (auto simp: handed_over_def)
      ultimately show ?case using k cf res1 ret [OF k(2)] same by (auto simp: y)
    qed (simp add: ok True)
    with True show ?thesis by (simp add: z)
  next
    case False
    from requeue [OF ts] obtain n q2 m2 where
      push: "push_front_chain first final (s_queue s1) m1 = Ok (n, q2, m2)"
      and r: "returned xs ws ys 0 m1 (s1\<lparr>s_queue := q2\<rparr>) m2"
      and q2: "header q2 = header (s_queue s1)" and host: "host_only m1 m2" by blast
    have ne: "xs \<noteq> []" using assms(2) by (auto simp: to_send_def own_chain_def)
    show ?thesis
      using ret [OF r] ne False ok okc inv1 cf q2 res1 frame_host(2) [OF host]
      by (simp add: z push [unfolded cf(2)]) (intro exI [of _ 0], simp)
  qed
qed

text \<open>The round of the thread that sends the queue, when it finds or is handed buffers.\<close>

lemma send_queued_taken:
  assumes "inv s" and "queue_ok m" and "taken s xs ys m x"
    and "pop_all_timed (of_nat (sleep_interval div 1000)) (s_queue s) m = Ok x"
  shows "wp (send_queued v s m) (\<lambda>(err, s', m'). \<exists>k \<le> length xs.
           sender_ok m' s' (drop k xs) (rev (take k xs) @ ys) \<and> (err \<longleftrightarrow> k < length xs) \<and>
           v_connected v s' = (\<not> err) \<and> inv s' \<and> res s' m' = res s m \<and> s_state s' = s_state s \<and>
           s_dir s' = s_dir s \<and> files m' = files m \<and> (\<forall>p. view p m' = view p m) \<and>
           (v_connected v s \<longrightarrow> handed_over m xs k (out s m) (out s m')) \<and>
           (\<not> err \<longrightarrow> (\<exists>before. out s' m' = before @ concat (map (content m) xs))))"
proof -
  obtain n first final q m1 where x: "x = (n, first, final, q, m1)" by (cases x)
  from assms(3) obtain A where t: "0 < n" "to_send m1 (s\<lparr>s_queue := q\<rparr>) first xs final [] ys"
    "header q = header (s_queue s)" "host_only m m1" "shuffled A m m1" by (auto simp: taken_def x)
  let ?s = "s\<lparr>s_queue := q\<rparr>"
  have cm: "content m1 = content m" using shuffled_view [OF t(5)] by (intro content_cong) blast
  have b: "brk m1 < 2 ^ 64" using assms(2) t(5) by (simp add: queue_ok_def shuffled_def)
  have inv: "inv ?s" using assms(1) by simp
  show ?thesis
    unfolding send_queued_def assms(4) x andThen.simps prod.case Let_def if_P [OF t(1)]
  proof (rule wp_mono [OF send_taken_spec [OF inv t(2)]], goal_cases)
    case (1 y)
    obtain err s' m' where y: "y = (err, s', m')" by (cases y)
    from 1 [unfolded y prod.case] obtain k where k: "k \<le> length xs" "returned xs [] ys k m1 s' m'"
      "err \<longleftrightarrow> k < length xs" "v_connected v s' = (\<not> err)" "inv s'" "res s' m' = res ?s m1"
      "s_state s' = s_state ?s" "s_dir s' = s_dir ?s" "header (s_queue s') = header (s_queue ?s)"
      "v_connected v ?s \<longrightarrow> handed_over m1 xs k (out ?s m1) (out ?s m')"
      "\<not> err \<longrightarrow> (\<exists>before. out s' m' = before @ concat (map (content m1) xs))" by blast
    have "sender_ok m' s' (drop k xs) (rev (take k xs) @ ys)"
      by (rule returned_ok [OF t(2) k(2,9) b])
    moreover have "v_connected v s \<longrightarrow> handed_over m xs k (out s m) (out s m')"
      using k(10) frame_host(1) [OF t(4)] unfolding handed_over_def cm by simp
    moreover have "files m' = files m" "\<forall>p. view p m' = view p m"
      using returned_shuffled [OF k(2) t(5)] by (simp_all add: returned_def)
    ultimately show ?case
      using k frame_host(2) [OF t(4)] by (auto simp: y cm)
  qed
qed

text \<open>
  The round that finds no buffers: it closes a connection that has been idle for a minute, and
  keeps what came with the timeout.
\<close>

lemma send_queued_idle:
  assumes "inv s" and "sender_ok m s [] ys" and "replies m = now # rs"
    and "await (\<lambda>p. cells m p \<noteq> None) (header (s_queue s)) rs = Ends False xs"
    and "pushed_in rs \<inter> set ys = {}" and "sendable m xs"
  shows "\<exists>s' m'. send_queued v s m = Ok (False, s', m') \<and> sender_ok m' s' xs ys \<and> inv s' \<and>
           v_connected v s' = (v_connected v s \<and> s_now s - s_last s < idle_timeout) \<and>
           res s' m' = res s m \<and> files m' = files m \<and> (\<forall>p. view p m' = view p m) \<and>
           s_last s' = s_last s \<and> s_state s' = s_state s"
proof -
  from take_wait [OF assms(2-6), of "of_nat (sleep_interval div 1000)"] obtain first final q m1 where
    p: "pop_all_timed (of_nat (sleep_interval div 1000)) (s_queue s) m = Ok (0, first, final, q, m1)"
    and ok: "sender_ok m1 (s\<lparr>s_queue := q\<rparr>) xs ys" and host: "host_only m m1"
    and sh: "shuffled (insert (header (s_queue s)) (pushed_in rs)) m m1" by auto
  let ?s = "s\<lparr>s_queue := q\<rparr>"
  have f: "files m1 = files m" "\<forall>p. view p m1 = view p m"
    using sh shuffled_view [OF sh] by (simp_all add: shuffled_def)
  show ?thesis
  proof (cases "v_connected v s \<and> idle_timeout \<le> s_now s - s_last s")
    case False
    with p ok f assms(1) frame_host(2) [OF host] show ?thesis
      by (auto simp: send_queued_def Let_def)
  next
    case True
    obtain s2 m2 where d: "v_disconnect v ?s m1 = (s2, m2)" by (cases "v_disconnect v ?s m1")
    have inv: "inv ?s" using assms(1) by simp
    from disconnect_law [OF inv d] have s2: "inv s2" "\<not> v_connected v s2" "conn_only ?s s2"
      "s_last s2 = s_last s" "undisturbed m1 m2" "res s2 m2 = res s m1" by auto
    have sm: "same_mem m1 m2" and fl: "files m2 = files m1" using s2(5) by (simp_all add: undisturbed_def)
    have "sender_ok m2 s2 xs ys"
      using ok conn_only_fields [OF s2(3)] same_mem_views [OF sm] sendable_cong [of m2 m1 xs]
      by (simp add: sender_ok_def queue_ok_def)
    moreover have "send_queued v s m = Ok (False, s2, m2)"
      using True p d by (simp add: send_queued_def Let_def)
    ultimately show ?thesis
      using True s2 f fl frame_host(2) [OF host] conn_only_fields [OF s2(3)] same_mem_views(5) [OF sm]
      by auto
  qed
qed

end

end
