(* ===== verification/Files.thy ===== *)
theory Files
  imports Sending
begin

text \<open>
  Sending the files of the directory: \<open>send_file\<close> and the loop of \<open>send_files\<close> over the entries.
  A file is removed only when its content has been sent completely, or could not be read.
\<close>

section \<open>Reading a file\<close>

text \<open>The file could not be opened, or could not be mapped into memory.\<close>

definition unreadable :: "string \<Rightarrow> machine \<Rightarrow> bool" where
  "unreadable f m \<longleftrightarrow>
     (\<exists>r. (File (C_open_read f), r) \<in> set (trace m) \<and> fd_of r = -1) \<or>
     (\<exists>r n e. (File (C_open_read f), r) \<in> set (trace m) \<and>
        (File (C_mmap (fd_of r) n), e) \<in> set (trace m) \<and> status_of e \<noteq> 0)"

lemma unreadable_later: "unreadable f m \<Longrightarrow> later m m' \<Longrightarrow> unreadable f m'"
  unfolding unreadable_def later_def by blast

definition file_step :: "machine \<Rightarrow> machine \<Rightarrow> bool" where
  "file_step m m' \<longleftrightarrow>
     same_mem m m' \<and> file_only m m' \<and> later m m' \<and> length (replies m') \<le> length (replies m)"

lemma file_step_refl [simp]: "file_step m m"
  by (simp add: file_step_def)

lemma file_step_trans: "file_step a b \<Longrightarrow> file_step b c \<Longrightarrow> file_step a c"
  by (auto simp: file_step_def intro: same_mem_trans file_only_trans later_trans)

lemma file_step_syscall:
  "replies m = r # rs \<Longrightarrow>
     file_step m (m\<lparr>replies := rs, errno := e, trace := trace m @ [(File c, r)]\<rparr>)"
  by (auto simp: file_step_def intro: file_only_one [of _ _ c r])

lemma file_step_fields:
  "file_step m (m1\<lparr>files := fs\<rparr>) = file_step m m1"
  "file_step m (m1\<lparr>ofiles := os\<rparr>) = file_step m m1"
  by (simp_all add: file_step_def same_mem_def file_only_def later_def)

lemma file_step_note: "file_step m (note_call (File c) m)"
  by (auto simp: file_step_def same_mem_def intro: file_only_one [of _ _ c "Ret 0"])

lemma file_step_close: "file_step m (sys_close_file fd m)"
  unfolding sys_close_file_def
  using file_step_trans [OF _ file_step_note] file_step_fields(2) [of m _ m] by simp

lemma wp_open_read:
  "wp (sys_open_read f m) (\<lambda>(fd, m'). file_step m m' \<and> files m' = files m \<and>
     (if fd = -1 then files m f = None \<or> unreadable f m'
      else ofiles m' fd = Some f \<and> (\<exists>r. (File (C_open_read f), r) \<in> set (trace m') \<and> fd_of r = fd)))"
  by (auto simp: sys_open_read_def file_step_fields file_step_syscall unreadable_def)

lemma wp_mmap:
  assumes "ofiles m fd = Some f" and "files m f = Some (Reg bs)"
    and "\<exists>r. (File (C_open_read f), r) \<in> set (trace m) \<and> fd_of r = fd"
  shows "wp (sys_mmap fd (length bs) m) (\<lambda>(base, m'). file_step m m' \<and> files m' = files m \<and>
     (base = Some bs \<or> base = None \<and> (bs = [] \<or> unreadable f m')))"
  using assms by (auto simp: sys_mmap_def file_step_syscall unreadable_def)

section \<open>The log of a directory\<close>

definition spool_bytes :: "machine \<Rightarrow> string \<Rightarrow> byte list" where
  "spool_bytes m f = (case files m f of Some (Reg bs) \<Rightarrow> bs | _ \<Rightarrow> [])"

text \<open>
  A log lists the files dealt with and whether their bytes have been sent. \<open>accounted m log m'\<close>:
  no file has changed but by being removed, only files of the log have been removed, and a
  file of the log that was not sent could not be read.
\<close>

definition accounted :: "machine \<Rightarrow> (string \<times> bool) list \<Rightarrow> machine \<Rightarrow> bool" where
  "accounted m log m' \<longleftrightarrow>
     (\<forall>g. files m' g = files m g \<or> files m' g = None \<and> g \<in> fst ` set log) \<and>
     (\<forall>(f, b) \<in> set log. (\<exists>bs. files m f = Some (Reg bs)) \<and> (b \<or> unreadable f m'))"

definition log_bytes :: "machine \<Rightarrow> (string \<times> bool) list \<Rightarrow> byte list" where
  "log_bytes m log = concat (map (\<lambda>(f, b). if b then spool_bytes m f else []) log)"

lemma accounted_Nil: "files m' = files m \<Longrightarrow> accounted m [] m'"
  by (simp add: accounted_def)

lemma accounted_Cons:
  assumes "files m f = Some (Reg bs)" and "b \<or> unreadable f m1" and "later m1 m'"
    and "\<forall>g. files m1 g = files m g \<or> files m1 g = None \<and> g = f" and "accounted m1 log m'"
  shows "accounted m ((f, b) # log) m' \<and>
         log_bytes m ((f, b) # log) = (if b then bs else []) @ log_bytes m1 log"
proof
  have reg: "files m g = files m1 g" if "\<exists>bs. files m1 g = Some (Reg bs)" for g
    using assms(4) that by (metis option.distinct(1))
  show "accounted m ((f, b) # log) m'"
    unfolding accounted_def
  proof (intro conjI ballI allI)
    fix g
    show "files m' g = files m g \<or> files m' g = None \<and> g \<in> fst ` set ((f, b) # log)"
      using assms(4,5) by (auto simp: accounted_def) (metis, metis)
  next
    fix e assume "e \<in> set ((f, b) # log)"
    then show "case e of (f, b) \<Rightarrow> (\<exists>bs. files m f = Some (Reg bs)) \<and> (b \<or> unreadable f m')"
      using assms(1-3,5) reg unreadable_later by (fastforce simp: accounted_def)
  qed
  have "map (\<lambda>(f, b). if b then spool_bytes m f else []) log =
      map (\<lambda>(f, b). if b then spool_bytes m1 f else []) log"
    using assms(5) reg by (auto simp: accounted_def spool_bytes_def split: if_splits)
  then have "log_bytes m log = log_bytes m1 log" by (simp only: log_bytes_def)
  then show "log_bytes m ((f, b) # log) = (if b then bs else []) @ log_bytes m1 log"
    using assms(1) by (simp add: log_bytes_def [of _ "_ # _"] log_bytes_def [of m log, symmetric] spool_bytes_def)
qed

definition small_files :: "machine \<Rightarrow> bool" where
  "small_files m \<longleftrightarrow> (\<forall>f bs. files m f = Some (Reg bs) \<longrightarrow> length bs < 2 ^ 31)"

context transport
begin

lemma file_step_out: "file_step m m' \<Longrightarrow> out s m' = out s m"
  and file_step_res: "file_step m m' \<Longrightarrow> res s m' = res s m"
  using file_law by (auto simp: file_step_def)

text \<open>
  \<open>send_file\<close>: true when all of the file has been sent, or when it could not be read; false when
  sending it failed, and then the connection is closed.
\<close>

lemma send_file_spec:
  assumes "inv s" and "v_connected v s" and "files m f = Some (Reg bs)" and "length bs < 2 ^ 31"
  shows "wp (send_file v f (length bs) s m) (\<lambda>(ok, s', m'). inv s' \<and> v_connected v s' = ok \<and>
           conn_only s s' \<and> undisturbed m m' \<and> res s' m' = res s m \<and> (ok \<longrightarrow> s' = s \<or> s' = s\<lparr>s_last := s_now s\<rparr>) \<and>
           (\<exists>k. out s m' = out s m @ take k bs \<and>
              (ok \<longrightarrow> take k bs = bs \<or> k = 0 \<and> unreadable f m')))"
    (is "wp _ ?Q")
  unfolding send_file_def
proof (rule wp_step [OF wp_open_read], goal_cases)
  case (1 x)
  obtain fd m1 where x: "x = (fd, m1)" by (cases x)
  with 1 have s1: "file_step m m1" "files m1 = files m" "fd = -1 \<Longrightarrow> unreadable f m1"
    "fd \<noteq> -1 \<Longrightarrow> ofiles m1 fd = Some f \<and> (\<exists>r. (File (C_open_read f), r) \<in> set (trace m1) \<and> fd_of r = fd)"
    using assms(3) by (auto split: if_splits)
  have und: "undisturbed a b" if "file_step a b" "files b = files a" for a b
    using that by (simp add: undisturbed_def file_step_def)
  show ?case
  proof (cases "fd = -1")
    case True
    with assms s1 und [OF s1(1,2)] file_step_out [OF s1(1)] file_step_res [OF s1(1)] show ?thesis
      by (auto simp: x intro!: exI [of _ 0])
  next
    case fd: False
    have reg: "files m1 f = Some (Reg bs)" using assms(3) s1(2) by simp
    have "wp (andThen (sys_mmap fd (length bs) m1) (\<lambda>(base, m). case base of
             Some bs' \<Rightarrow> andThen (sender_send v bs' s m) (\<lambda>(ret, s, m).
                 Ok (ret, s, sys_close_file fd (sys_munmap (length bs) m)))
           | None \<Rightarrow> Ok (True, s, sys_close_file fd m))) ?Q"
    proof (rule wp_step [OF wp_mmap [OF conjunct1 [OF s1(4) [OF fd]] reg conjunct2 [OF s1(4) [OF fd]]]],
        goal_cases)
      case (1 y)
      obtain base m2 where y: "y = (base, m2)" by (cases y)
      with 1 have s2: "file_step m1 m2" "files m2 = files m1"
        "base = Some bs \<or> base = None \<and> (bs = [] \<or> unreadable f m2)" by auto
      have s02: "file_step m m2" "files m2 = files m" using file_step_trans [OF s1(1) s2(1)] s1(2) s2(2) by auto
      show ?case
      proof (cases base)
        case None
        let ?m3 = "sys_close_file fd m2"
        have s3: "file_step m ?m3" "files ?m3 = files m"
          using file_step_trans [OF s02(1) file_step_close] s02(2) by (simp_all add: sys_close_file_def)
        have "bs = [] \<or> unreadable f ?m3" using s2(3) None unreadable_later [OF _ file_only_later [OF close_file_only]] by auto
        with None assms und [OF s3] file_step_out [OF s3(1)] file_step_res [OF s3(1)] show ?thesis
          by (auto simp: y intro!: exI [of _ 0])
      next
        case (Some bs')
        with s2(3) have b: "bs' = bs" by auto
        have "wp (sender_send v bs s m2) (\<lambda>(ret, s', m3). ?Q (ret, s', sys_close_file fd (sys_munmap (length bs) m3)))"
        proof (rule wp_mono [OF send_spec [OF assms(1,2,4)]], goal_cases)
          case (1 z)
          then obtain ok s' m3 k where z: "z = (ok, s', m3)" "inv s'" "v_connected v s' = ok" "conn_only s s'"
            "undisturbed m2 m3" "res s' m3 = res s m2" "k \<le> length bs" "out s m3 = out s m2 @ take k bs"
            "ok \<longrightarrow> k = length bs" "ok \<longrightarrow> s' = s\<lparr>s_last := s_now s\<rparr>" by (cases z) auto
          let ?m4 = "sys_close_file fd (sys_munmap (length bs) m3)"
          have s4: "file_step m3 ?m4" "files ?m4 = files m3"
            using file_step_trans [OF file_step_note file_step_close]
            by (simp_all add: sys_munmap_def) (simp add: sys_close_file_def)
          have "undisturbed m ?m4"
            using und [OF s02] z(5) und [OF s4] by (blast intro: undisturbed_trans)
          with z file_step_out [OF s4(1)] file_step_out [OF s02(1)] file_step_res [OF s4(1)] file_step_res [OF s02(1)] show ?case by auto
        qed
        with Some b show ?thesis by (simp add: y case_prod_unfold)
      qed
    qed
    with fd show ?thesis by (simp add: x)
  qed
qed

text \<open>
  One entry: its log is empty, when it is not a regular file or sending fails, or the file, which
  has then been removed if the kernel let it.
\<close>

lemma send_entry_spec:
  assumes "inv s" and "v_connected v s" and "small_files m"
  shows "wp (send_entry v d s m) (\<lambda>(ok, s', m'). inv s' \<and> v_connected v s' = ok \<and> conn_only s s' \<and> res s' m' = res s m \<and>
           (ok \<longrightarrow> s' = s \<or> s' = s\<lparr>s_last := s_now s\<rparr>) \<and> small_files m' \<and>
           same_mem m m' \<and> later m m' \<and> length (replies m') \<le> length (replies m) \<and>
           (\<exists>k f bs. out s m' = out s m @ take k bs \<and>
              (if ok then files m' = files m \<and> k = 0 \<or>
                 files m f = Some (Reg bs) \<and> (files m' = files m \<or> files m' = (files m)(f := None)) \<and>
                 (take k bs = bs \<or> k = 0 \<and> unreadable f m')
               else files m' = files m)))" (is "wp _ ?Q")
proof (cases "d \<noteq> ''.'' \<and> d \<noteq> ''..''")
  case False
  with assms show ?thesis by (auto simp: send_entry_def intro!: exI [of _ "0::nat"])
next
  case True
  let ?f = "formatted (PATH_MAX + 256) (s_dir s @ ''/'' @ d)"
  let ?k = "\<lambda>(ok, s, m). if ok then andThen (sys_unlink ?f m) (\<lambda>m. Ok (True, s, m)) else Ok (False, s, m)"
  have st: "wp (sys_stat ?f m) (\<lambda>(node, m1). file_step m m1 \<and> files m1 = files m \<and>
      (node = files m ?f \<or> node = None))"
    by (auto simp: sys_stat_def file_step_syscall)
  have "wp (andThen (sys_stat ?f m) (\<lambda>(node, m). case node of
            Some (Reg bs) \<Rightarrow> andThen (send_file v ?f (length bs) s m) ?k
          | _ \<Rightarrow> Ok (True, s, m))) ?Q"
  proof (rule wp_step [OF st], goal_cases)
    case (1 x)
    then obtain node m1 where x: "x = (node, m1)" and m1: "file_step m m1" "files m1 = files m"
      and n: "node = files m ?f \<or> node = None" by (cases x) auto
    have sm: "small_files m1" using assms(3) m1(2) by (simp add: small_files_def)
    show ?case
    proof (cases "\<exists>bs. node = Some (Reg bs)")
      case False
      with assms m1 sm file_step_out [OF m1(1)] file_step_res [OF m1(1)] show ?thesis
        by (auto simp: x file_step_def split: option.splits fnode.splits intro!: exI [of _ "0::nat"])
    next
      case True
      then obtain bs where bs: "node = Some (Reg bs)" by blast
      with n m1(2) have f: "files m1 ?f = Some (Reg bs)" "files m ?f = Some (Reg bs)" by auto
      with assms(3) have len: "length bs < 2 ^ 31" by (auto simp: small_files_def)
      have "wp (andThen (send_file v ?f (length bs) s m1) ?k) ?Q"
      proof (rule wp_step [OF send_file_spec [OF assms(1,2) f(1) len]], goal_cases)
        case (1 y)
        then obtain ok s1 m2 k where y: "y = (ok, s1, m2)" and r: "inv s1" "v_connected v s1 = ok"
          "conn_only s s1" "undisturbed m1 m2" "res s1 m2 = res s m1" "ok \<longrightarrow> s1 = s \<or> s1 = s\<lparr>s_last := s_now s\<rparr>"
          "out s m2 = out s m1 @ take k bs"
          "ok \<longrightarrow> take k bs = bs \<or> k = 0 \<and> unreadable ?f m2" by (cases y) auto
        have fl: "files m2 = files m" "small_files m2" using r(4) m1(2) sm by (auto simp: undisturbed_def small_files_def)
        have fr: "same_mem m m2" "later m m2" "length (replies m2) \<le> length (replies m)"
          using r(4) m1(1) by (auto simp: undisturbed_def file_step_def intro: same_mem_trans later_trans)
        have r2: "res s1 m2 = res s m" using r(5) file_step_res [OF m1(1)] by simp
        have o2: "out s m2 = out s m @ take k bs" using r(7) file_step_out [OF m1(1)] by simp
        show ?case
        proof (cases ok)
          case False
          with r fl fr o2 r2 show ?thesis by (auto simp: y)
        next
          case True
          have un: "wp (sys_unlink ?f m2) (\<lambda>m3. file_step m2 m3 \<and>
              (files m3 = files m \<or> files m3 = (files m)(?f := None)))"
            using fl by (auto simp: sys_unlink_def file_step_syscall file_step_fields)
          have "wp (andThen (sys_unlink ?f m2) (\<lambda>m. Ok (True, s1, m))) ?Q"
          proof (rule wp_step [OF un])
            fix m3 assume m3: "file_step m2 m3 \<and> (files m3 = files m \<or> files m3 = (files m)(?f := None))"
            have u: "take k bs = bs \<or> k = 0 \<and> unreadable ?f m3"
              using r(8) True m3 unreadable_later by (auto simp: file_step_def)
            have sm3: "small_files m3" using m3 assms(3) by (auto simp: small_files_def split: if_splits)
            have fr3: "same_mem m m3" "later m m3" "length (replies m3) \<le> length (replies m)"
              using m3 fr by (auto simp: file_step_def intro: same_mem_trans later_trans)
            have "out s m3 = out s m @ take k bs" using o2 file_step_out [OF conjunct1 [OF m3]] by simp
            then have "\<exists>k f bs. out s m3 = out s m @ take k bs \<and> files m f = Some (Reg bs) \<and>
                (files m3 = files m \<or> files m3 = (files m)(f := None)) \<and>
                (take k bs = bs \<or> k = 0 \<and> unreadable f m3)" using m3 u f(2) by blast
            with r True sm3 fr3 r2 file_step_res [OF conjunct1 [OF m3], of s1] show "wp (Ok (True, s1, m3)) ?Q" by (simp add: conn_only_def) blast
          qed
          with True show ?thesis by (simp add: y)
        qed
      qed
      with bs show ?thesis by (simp add: x)
    qed
  qed
  then show ?thesis unfolding send_entry_def Let_def if_P [OF True] .
qed

text \<open>
  \<open>sent_files b m m' before after\<close>: between \<open>m\<close> and \<open>m'\<close> the connection has taken the files of a
  log, each in full; when \<open>b\<close> is false, then perhaps a part of one more file.
\<close>

end

definition sent_files :: "bool \<Rightarrow> machine \<Rightarrow> machine \<Rightarrow> byte list \<Rightarrow> byte list \<Rightarrow> bool" where
  "sent_files b m m' before after \<longleftrightarrow>
     (\<exists>log part. accounted m log m' \<and> after = before @ log_bytes m log @ part \<and> (b \<longrightarrow> part = []))"

lemma sent_files_none: "files m' = files m \<Longrightarrow> sent_files b m m' before before"
  unfolding sent_files_def by (rule exI [of _ "[]"], rule exI [of _ "[]"]) (simp add: accounted_Nil log_bytes_def)

lemma sent_files_part: "files m' = files m \<Longrightarrow> sent_files False m m' before (before @ part)"
  unfolding sent_files_def by (rule exI [of _ "[]"]) (simp add: accounted_Nil log_bytes_def)

lemma sent_files_weaken: "sent_files True m m' x y \<Longrightarrow> sent_files b m m' x y"
  unfolding sent_files_def by blast

lemma sent_files_Cons:
  assumes "files m f = Some (Reg bs)" and "files m1 = files m \<or> files m1 = (files m)(f := None)"
    and "take k bs = bs \<or> k = 0 \<and> unreadable f m1" and "later m1 m'"
    and "sent_files b m1 m' (before @ take k bs) after"
  shows "sent_files b m m' before after"
proof -
  obtain log part where l: "accounted m1 log m'"
    "after = (before @ take k bs) @ log_bytes m1 log @ part" "b \<longrightarrow> part = []"
    using assms(5) by (auto simp: sent_files_def)
  have c: "\<forall>g. files m1 g = files m g \<or> files m1 g = None \<and> g = f" using assms(2) by (auto split: if_splits)
  have u: "take k bs = bs \<or> unreadable f m1" using assms(3) by blast
  note ac = accounted_Cons [OF assms(1) u assms(4) c l(1)]
  have "(if take k bs = bs then bs else []) = take k bs" using assms(3) by auto
  with ac l(2,3) show ?thesis
    unfolding sent_files_def by (intro exI [of _ "(f, take k bs = bs) # log"] exI [of _ part]) simp
qed

lemma sent_files_same: "files m1 = files m \<Longrightarrow> sent_files b m1 m' x y = sent_files b m m' x y"
proof -
  assume f: "files m1 = files m"
  then have "spool_bytes m1 = spool_bytes m" by (simp add: spool_bytes_def fun_eq_iff)
  then have "log_bytes m1 = log_bytes m" unfolding log_bytes_def [abs_def] by (rule arg_cong)
  with f show ?thesis by (simp add: sent_files_def accounted_def)
qed

context transport
begin

text \<open>The loop over the entries. When it fails, the state is kept: the thread comes back to it.\<close>

lemma send_files_loop_spec:
  assumes "inv s" and "v_connected v s" and "small_files m"
  shows "wp (send_files_loop fuel v s m) (\<lambda>(ok, s', m'). inv s' \<and> v_connected v s' = ok \<and>
           conn_only (s\<lparr>s_state := if ok then Sending_queued_buffers else s_state s\<rparr>) s' \<and> res s' m' = res s m \<and>
           same_mem m m' \<and> later m m' \<and> length (replies m') \<le> length (replies m) \<and>
           sent_files ok m m' (out s m) (out s m'))"
  using assms
proof (induction fuel arbitrary: s m)
  case (Suc fuel)
  let ?Q = "\<lambda>s m (ok, s', m'). inv s' \<and> v_connected v s' = ok \<and>
           conn_only (s\<lparr>s_state := if ok then Sending_queued_buffers else s_state s\<rparr>) s' \<and> res s' m' = res s m \<and>
           same_mem m m' \<and> later m m' \<and> length (replies m') \<le> length (replies m) \<and>
           sent_files ok m m' (out s m) (out s m')"
  have rd: "wp (sys_readdir m) (\<lambda>(e, m1). file_step m m1 \<and> files m1 = files m)"
    by (auto simp: sys_readdir_def file_step_syscall)
  show ?case
    unfolding send_files_loop.simps
  proof (rule wp_step [OF rd], goal_cases)
    case (1 x)
    then obtain e m1 where x: "x = (e, m1)" and m1: "file_step m m1" "files m1 = files m" by (cases x) auto
    note o1 = file_step_out [OF m1(1), of s] and q1 = file_step_res [OF m1(1), of s]
    have fs1: "same_mem m m1" "later m m1" "length (replies m1) \<le> length (replies m)"
      using m1(1) by (simp_all add: file_step_def)
    have cl: "file_step a (sys_closedir a)" "files (sys_closedir a) = files a" for a
      using file_step_note by (simp_all add: sys_closedir_def)
    show ?case
    proof (cases e)
      case None
      have "file_step m (sys_closedir m1)" by (rule file_step_trans [OF m1(1) cl(1)])
      with None Suc.prems m1 file_step_out [of m "sys_closedir m1" s] file_step_res [of m "sys_closedir m1" s] cl(2) [of m1] show ?thesis
        by (simp add: x file_step_def sent_files_none)
    next
      case (Some d)
      have sm1: "small_files m1" using Suc.prems(3) m1(2) by (simp add: small_files_def)
      have "wp (andThen (send_entry v d s m1) (\<lambda>(ok, s, m).
          if ok then send_files_loop fuel v s m else Ok (False, s, sys_closedir m))) (?Q s m)"
      proof (rule wp_step [OF send_entry_spec [OF Suc.prems(1,2) sm1]], goal_cases)
        case (1 y)
        obtain ok s2 m2 where y: "y = (ok, s2, m2)" by (cases y)
        from 1 [unfolded y prod.case] obtain k f bs where r: "inv s2" "v_connected v s2 = ok" "conn_only s s2"
          "res s2 m2 = res s m1" "ok \<longrightarrow> s2 = s \<or> s2 = s\<lparr>s_last := s_now s\<rparr>" "small_files m2" "same_mem m1 m2" "later m1 m2"
          "length (replies m2) \<le> length (replies m1)" "out s m2 = out s m1 @ take k bs"
          and fl: "if ok then files m2 = files m1 \<and> k = 0 \<or> files m1 f = Some (Reg bs) \<and>
              (files m2 = files m1 \<or> files m2 = (files m1)(f := None)) \<and>
              (take k bs = bs \<or> k = 0 \<and> unreadable f m2) else files m2 = files m1" by blast
        have fs2: "same_mem m m2" "later m m2" "length (replies m2) \<le> length (replies m)"
          using fs1 r by (auto intro: same_mem_trans later_trans)
        show ?case
        proof (cases ok)
          case False
          let ?m3 = "sys_closedir m2"
          have st3: "same_mem m ?m3" "later m ?m3" "length (replies ?m3) \<le> length (replies m)"
            using cl(1) [of m2] fs2 by (auto simp: file_step_def intro: same_mem_trans later_trans)
          have f3: "files ?m3 = files m" using cl(2) fl False m1(2) by simp
          have "out s ?m3 = out s m @ take k bs"
            using file_step_out [OF cl(1)] r(10) o1 by simp
          with False r st3 q1 file_step_res [OF cl(1) [of m2], of s2] sent_files_part [OF f3] show ?thesis by (simp add: y)
        next
          case True
          have o2: "out s2 a = out s a" "out s2 a = out s a" for a using r(5) True by auto
          have ss: "s_state s2 = s_state s" using conn_only_fields [OF r(3)] by simp
          have "wp (send_files_loop fuel v s2 m2) (?Q s m)"
          proof (rule wp_mono [OF Suc.IH [OF r(1) _ r(6)]])
            show "v_connected v s2" using r(2) True by simp
          next
            fix z assume "?Q s2 m2 z"
            moreover obtain ok' s3 m3 where z: "z = (ok', s3, m3)" by (cases z)
            ultimately have q: "inv s3" "v_connected v s3 = ok'"
              "conn_only (s2\<lparr>s_state := if ok' then Sending_queued_buffers else s_state s2\<rparr>) s3"
              "res s3 m3 = res s2 m2"
              "same_mem m2 m3" "later m2 m3" "length (replies m3) \<le> length (replies m2)"
              "sent_files ok' m2 m3 (out s2 m2) (out s2 m3)" by simp_all
            have c: "conn_only (s\<lparr>s_state := if ok' then Sending_queued_buffers else s_state s\<rparr>) s3"
              by (rule conn_only_trans [OF _ q(3)]) (use r(5) True in \<open>auto simp: conn_only_def\<close>)
            have st: "same_mem m m3" "later m m3" "length (replies m3) \<le> length (replies m)"
              using fs2 q by (auto intro: same_mem_trans later_trans)
            have "sent_files ok' m m3 (out s m) (out s m3)"
            proof (cases "files m2 = files m \<and> k = 0")
              case True
              with q(8) r(10) o1 o2 sent_files_same [of m2 m] show ?thesis by simp
            next
              case False
              with fl m1(2) \<open>ok\<close> have f: "files m f = Some (Reg bs)"
                "files m2 = files m \<or> files m2 = (files m)(f := None)"
                "take k bs = bs \<or> k = 0 \<and> unreadable f m2" by auto
              show ?thesis
                by (rule sent_files_Cons [OF f q(6)]) (use q(8) r(10) o1 o2 in simp)
            qed
            with q c st r(4) q1 show "?Q s m z" by (simp add: z)
          qed
          with True show ?thesis by (simp add: y)
        qed
      qed
      with Some show ?thesis by (simp add: x)
    qed
  qed
qed simp

text \<open>A round takes an answer, so one round more than there are answers is fuel enough.\<close>

lemma send_files_loop_fuel:
  assumes "inv s" and "v_connected v s" and "small_files m" and "length (replies m) < n" and "n \<le> fuel"
  shows "send_files_loop fuel v s m = send_files_loop n v s m"
  using assms
proof (induction n arbitrary: fuel s m)
  case (Suc n)
  then obtain f where f: "fuel = Suc f" "n \<le> f" by (cases fuel) auto
  show ?case
  proof (cases "sys_readdir m")
    case (Ok x)
    then obtain e m1 where x: "sys_readdir m = Ok (e, m1)" by (cases x) auto
    then have m1: "files m1 = files m" "length (replies m1) < length (replies m)"
      by (auto simp: sys_readdir_def andThen_Ok_iff syscall_Ok_iff)
    show ?thesis
    proof (cases e)
      case (Some d)
      show ?thesis
      proof (cases "send_entry v d s m1")
        case (Ok y)
        then obtain ok s2 m2 where y: "send_entry v d s m1 = Ok (ok, s2, m2)" by (cases y) auto
        have "small_files m1" using Suc.prems(3) m1(1) by (simp add: small_files_def)
        from wp_Ok [OF send_entry_spec [OF Suc.prems(1,2) this] y]
        have "inv s2" "v_connected v s2 = ok" "small_files m2" "length (replies m2) \<le> length (replies m1)"
          by blast+
        then have "ok \<Longrightarrow> send_files_loop f v s2 m2 = send_files_loop n v s2 m2"
          using Suc.prems(4) m1(2) f(2) by (intro Suc.IH) auto
        then show ?thesis by (cases ok) (simp_all add: f(1) x Some y)
      qed (simp_all add: f(1) x Some)
    qed (simp add: f(1) x)
  qed (simp_all add: f(1))
qed simp

text \<open>
  \<open>send_files\<close>: without a connection, or a directory to read, nothing happens to the files; else
  the connection takes files of the directory, each in full, and only they are removed.
\<close>

lemma send_files_spec:
  assumes "inv s" and "small_files m"
  shows "wp (send_files v s m) (\<lambda>(ok, s', m'). inv s' \<and> (ok \<longrightarrow> v_connected v s') \<and>
           conn_only (s\<lparr>s_state := if ok then Sending_queued_buffers else s_state s\<rparr>) s' \<and> res s' m' = res s m \<and>
           same_mem m m' \<and> length (replies m') \<le> length (replies m) \<and>
           (files m' = files m \<and> \<not> ok \<or>
            (\<exists>s1 m1. sender_connect v s m = Ok (True, s1, m1) \<and>
               sent_files ok m m' (out s1 m1) (out s1 m'))))" (is "wp _ ?Q")
proof (cases "sender_connect v s m")
  case (Ok x)
  then obtain ok s1 m1 where x: "sender_connect v s m = Ok (ok, s1, m1)" by (cases x) auto
  from wp_Ok [OF connect_spec [OF assms(1)] x] have c: "inv s1" "v_connected v s1 = ok" "conn_only s s1"
    "undisturbed m m1" "res s1 m1 = res s m" by auto
  have fs1: "same_mem m m1" "files m1 = files m" "length (replies m1) \<le> length (replies m)"
    using c(4) by (simp_all add: undisturbed_def)
  have co: "conn_only (s\<lparr>s_state := st\<rparr>) (s1\<lparr>s_state := st\<rparr>)" for st
    using c(3) by (cases s; cases s1) (simp add: conn_only_def)
  have "s1\<lparr>s_state := s_state s1\<rparr> = s1" by (cases s1) simp
  then have co': "conn_only (s\<lparr>s_state := s_state s1\<rparr>) s1" using co [of "s_state s1"] by simp
  note st = conn_only_fields(4) [OF c(3)]
  show ?thesis
  proof (cases ok)
    case False
    with x c fs1 co' st show ?thesis by (simp add: send_files_def)
  next
    case True
    have od: "wp (sys_opendir (s_dir s1) m1) (\<lambda>(dir, m2). file_step m1 m2 \<and> files m2 = files m1)"
      by (auto simp: sys_opendir_def file_step_syscall)
    have "wp (andThen (sys_opendir (s_dir s1) m1) (\<lambda>(dir, m).
           if dir then send_files_loop (length (replies m) + 1) v s1 m else Ok (False, s1, m))) ?Q"
    proof (rule wp_step [OF od], goal_cases)
      case (1 y)
      then obtain dir m2 where y: "y = (dir, m2)" and m2: "file_step m1 m2" "files m2 = files m1" by (cases y) auto
      have fs2: "same_mem m m2" "files m2 = files m" "length (replies m2) \<le> length (replies m)"
        using m2 fs1 by (auto simp: file_step_def intro: same_mem_trans)
      show ?case
      proof (cases dir)
        case False
        with c fs2 co' st file_step_res [OF m2(1)] show ?thesis by (simp add: y)
      next
        case dir: True
        have sm: "small_files m2" using assms(2) fs2(2) by (simp add: small_files_def)
        have con: "v_connected v s1" using c(2) True by simp
        have "wp (send_files_loop (length (replies m2) + 1) v s1 m2) ?Q"
        proof (rule wp_mono [OF send_files_loop_spec [OF c(1) con sm]])
          fix z
          assume 1: "case z of (ok, s', m') \<Rightarrow> inv s' \<and> v_connected v s' = ok \<and>
           conn_only (s1\<lparr>s_state := if ok then Sending_queued_buffers else s_state s1\<rparr>) s' \<and> res s' m' = res s1 m2 \<and>
           same_mem m2 m' \<and> later m2 m' \<and> length (replies m') \<le> length (replies m2) \<and>
           sent_files ok m2 m' (out s1 m2) (out s1 m')"
          obtain ok' s' m' where z: "z = (ok', s', m')" by (cases z)
          note r = 1 [unfolded z prod.case]
          have "conn_only (s\<lparr>s_state := if ok' then Sending_queued_buffers else s_state s\<rparr>) s'"
            by (rule conn_only_trans [OF co, OF conjunct1 [OF conjunct2 [OF conjunct2 [OF r]]], unfolded st])
          moreover have "sent_files ok' m m' (out s1 m1) (out s1 m')"
            using r sent_files_same [OF fs2(2)] file_step_out [OF m2(1)] by simp
          moreover have "same_mem m m'" "length (replies m') \<le> length (replies m)"
            using fs2 r by (auto intro: same_mem_trans)
          moreover have "sender_connect v s m = Ok (True, s1, m1)" using x True by simp
          moreover have "res s' m' = res s m" using r c(5) file_step_res [OF m2(1)] by simp
          ultimately show "?Q z" using r unfolding z prod.case by blast
        qed
        with dir show ?thesis by (simp add: y)
      qed
    qed
    with True x show ?thesis by (simp add: send_files_def)
  qed
next
  case Fault
  with connect_spec [OF assms(1), of m] show ?thesis by simp
qed (simp add: send_files_def)

end

end
