(* ===== verification/Rounds.thy ===== *)
theory Rounds
  imports Files
begin

text \<open>
  The rounds of the thread of the sender, over the two transports of the code: what is sent, what
  is kept, when it connects, waits and disconnects, and that no bound of the model is ever
  reached.
\<close>

section \<open>What a round finds\<close>

text \<open>
  \<open>arrives m s qs ys w xs\<close>: a pop of the queue, which holds \<open>qs\<close>, ends with the buffers \<open>xs\<close>,
  taken (\<open>w\<close>) or, at the timeout, left. If \<open>qs\<close> is empty, these are the buffers that the
  producers push during the wait; they own them: none is in the free list \<open>ys\<close>.
\<close>

definition arrives :: "machine \<Rightarrow> sender \<Rightarrow> ptr list \<Rightarrow> ptr list \<Rightarrow> bool \<Rightarrow> ptr list \<Rightarrow> bool" where
  "arrives m s qs ys w xs \<longleftrightarrow>
     (if qs \<noteq> [] then w \<and> xs = qs
      else sendable m xs \<and>
        (\<exists>now rs. replies m = now # rs \<and> pushed_in rs \<inter> set ys = {} \<and>
           await (\<lambda>p. cells m p \<noteq> None) (header (s_queue s)) rs = Ends w xs))"

lemma arrives_taken:
  assumes "sender_ok m s qs ys" and "arrives m s qs ys True xs"
  shows "\<exists>x. pop_all_timed t (s_queue s) m = Ok x \<and> taken s xs ys m x"
proof (cases "qs = []")
  case True
  with assms(2) obtain now rs where r: "replies m = now # rs" "pushed_in rs \<inter> set ys = {}" "sendable m xs"
    "await (\<lambda>p. cells m p \<noteq> None) (header (s_queue s)) rs = Ends True xs" by (auto simp: arrives_def)
  from take_wait [OF assms(1) [unfolded True] r(1,4,2,3), of t] show ?thesis by auto
next
  case False
  with assms(2) have "xs = qs" by (simp add: arrives_def)
  with take_now [OF assms(1) False] show ?thesis by simp
qed

section \<open>The queue\<close>

text \<open>
  C6: a round that finds buffers sends them in order, each completely before the next, and
  returns each to the allocator when it has been sent. If a send or the connection fails after
  \<open>k\<close> buffers, the others are back in the queue in their order, none is lost or duplicated, and
  the connection, whose part of the next buffer the peer may have, is closed. A connection that
  existed has taken exactly the first \<open>k\<close> buffers and perhaps a part of the next. No descriptor
  and no TLS object is leaked, and no pointer is followed that is not live.
\<close>

theorem send_queued_delivers:
  assumes "conn_inv enc s" and "sender_ok m s qs ys" and "arrives m s qs ys True xs"
  shows "wp (send_queued (vtable_of ctx enc) s m) (\<lambda>(err, s', m'). \<exists>k \<le> length xs.
           sender_ok m' s' (drop k xs) (rev (take k xs) @ ys) \<and> (err \<longleftrightarrow> k < length xs) \<and>
           v_connected (vtable_of ctx enc) s' = (\<not> err) \<and> conn_inv enc s' \<and>
           open_beyond s' m' = open_beyond s m \<and> files m' = files m \<and>
           (\<forall>p. view p m' = view p m) \<and>
           (v_connected (vtable_of ctx enc) s \<longrightarrow>
              handed_over m xs k (conn_out enc s m) (conn_out enc s m')) \<and>
           (\<not> err \<longrightarrow> (\<exists>before. conn_out enc s' m' = before @ concat (map (content m) xs))))"
proof -
  from arrives_taken [OF assms(2,3)] obtain x where
    "pop_all_timed (of_nat (sleep_interval div 1000)) (s_queue s) m = Ok x" "taken s xs ys m x" by blast
  moreover have "queue_ok m" using assms(2) by (simp add: sender_ok_def)
  ultimately show ?thesis
    by (intro wp_mono [OF conn.send_queued_taken [OF assms(1)]]) (auto 0 4)
qed

text \<open>A sender that is connected, with two buffers to send and two free ones.\<close>

definition sample_online :: sender where
  "sample_online = sample_sender\<lparr>s_sock := \<lparr>sock_fd = 3\<rparr>, s_state := Sending_queued_buffers\<rparr>"

lemma sample_online_fields [simp]:
  "s_queue sample_online = sample_queue" "s_alloc sample_online = sample_pool" "s_dir sample_online = []"
  "s_state sample_online = Sending_queued_buffers" "s_now sample_online = 0" "s_last sample_online = 0"
  "v_connected insecure sample_online"
  by (simp_all add: sample_online_def sample_sender_def new_sender_def insecure_def connected_insecure_def)

lemma sample_online_ok: "sender_ok (sample\<lparr>replies := rs, files := fs\<rparr>) sample_online [2, 3] [4, 5]"
  using sample_queue_ok sample_queue_list sample_free_list [of "[]"]
  by (simp add: sender_ok_def queue_ok_def queue_list_def free_list_def sendable_def content_def
      sample_queue_def view_Some read_block_def cong: heap_ok_cong)
     (simp add: view_Some read_block_def sample_def)

lemma andThen_weak_cong: "m = m' \<Longrightarrow> andThen m f = andThen m' f"
  by simp

lemmas send_queue_loop_numeral =
  send_queue_loop.simps(2) [of "pred_numeral k" for k, folded numeral_eq_Suc]

lemmas send_run_simps = send_queued_def pop_all_timed_def unlink_all_def sleep_interval_def heap_simps
  Let_def sender_connect_def insecure_def connected_insecure_def view_Some read_block_def
  sender_send_def closed_insecure_def sock_recv.simps sys_recv_def send_insecure_def send_timed.simps
  sock_send.simps sys_send_def sender_put_def alloc_put_def send_queue_loop_numeral

lemmas sample_online_defs = sample_online_def sample_sender_def new_sender_def sample_queue_def
  sample_pool_def sample_def

theorem send_queued_delivers_witness:
  "\<exists>s' m'. send_queued insecure sample_online (sample\<lparr>replies := [Err EAGAIN, Ret 2, Err EAGAIN, Ret 1]\<rparr>) =
       Ok (False, s', m') \<and> sender_ok m' s' [] [3, 2, 4, 5] \<and> v_connected insecure s' \<and>
     (\<exists>before. conn_out Enc_no s' m' = before @ [1, 2, 3])"
proof -
  let ?m = "sample\<lparr>replies := [Err EAGAIN, Ret 2, Err EAGAIN, Ret 1]\<rparr>"
  obtain s' m' where run: "send_queued (vtable_of 0 Enc_no) sample_online ?m = Ok (False, s', m')"
    by (simp cong: andThen_weak_cong add: send_run_simps sample_online_defs)
  have c: "concat (map (content ?m) [2, 3]) = [1, 2, 3]" by (simp add: content_def sample_views)
  have ar: "arrives ?m sample_online [2, 3] [4, 5] True [2, 3]" by (simp add: arrives_def)
  have ok: "sender_ok ?m sample_online [2, 3] [4, 5]"
    using sample_online_ok [where rs = "replies ?m" and fs = "files ?m"] by (simp add: sample_def)
  have "conn_inv Enc_no sample_online" by (simp add: plain_inv_def)
  from wp_Ok [OF send_queued_delivers [OF this ok ar] run] c run show ?thesis by auto
qed

text \<open>
  a round that finds no buffers, and gets none from the producers while it waits, keeps the
  connection unless it has been idle for a minute; then it is closed. Buffers that come
  with the timeout are kept for the next round.
\<close>

theorem send_queued_idles:
  assumes "conn_inv enc s" and "sender_ok m s [] ys" and "arrives m s [] ys False xs"
  shows "\<exists>s' m'. send_queued (vtable_of ctx enc) s m = Ok (False, s', m') \<and> sender_ok m' s' xs ys \<and>
           v_connected (vtable_of ctx enc) s' =
             (v_connected (vtable_of ctx enc) s \<and> s_now s - s_last s < 60) \<and>
           open_beyond s' m' = open_beyond s m \<and> files m' = files m"
proof -
  from assms(3) obtain now rs where r: "replies m = now # rs" "pushed_in rs \<inter> set ys = {}" "sendable m xs"
    "await (\<lambda>p. cells m p \<noteq> None) (header (s_queue s)) rs = Ends False xs" by (auto simp: arrives_def)
  from conn.send_queued_idle [OF assms(1,2) r(1,4,2,3), of ctx] show ?thesis
    unfolding idle_timeout_def by blast
qed

text \<open>An idle minute, and a buffer that is pushed in the last moment.\<close>

lemma sample_idle_ok:
  assumes "m = sample\<lparr>cells := (cells sample)(1 \<mapsto> \<lparr>buf_data = 0, buf_length = 0, buf_prev = 1, buf_next = 1\<rparr>),
      replies := rs\<rparr>"
  shows "sender_ok m (sample_online\<lparr>s_queue := \<lparr>header = 1, count = 0, q_locked = False\<rparr>\<rparr>) [] [4, 5]"
proof -
  have "addr_ok m" unfolding assms addr_ok_def sample_def by simp
  moreover have "data_ok m" unfolding assms data_ok_def sample_def by simp
  moreover have "owner_ok m" unfolding assms owner_ok_def sample_def by simp
  ultimately have "heap_ok m" by (simp add: heap_ok_def)
  then show ?thesis
    by (simp add: sender_ok_def queue_ok_def sendable_def queue_list_def ring_def prevof_def free_list_def
        sample_pool_def assms) (simp add: sample_def)
qed

theorem send_queued_idles_witness:
  "\<exists>m' s'. send_queued insecure (sample_online\<lparr>s_queue := \<lparr>header = 1, count = 0, q_locked = False\<rparr>, s_now := 60\<rparr>)
     (sample\<lparr>cells := (cells sample)(1 \<mapsto> \<lparr>buf_data = 0, buf_length = 0, buf_prev = 1, buf_next = 1\<rparr>),
        replies := [Ret 5, TimedOut [Push_back 2]]\<rparr>) = Ok (False, s', m') \<and>
     sender_ok m' s' [2] [4, 5] \<and> \<not> v_connected insecure s'"
proof -
  let ?s0 = "sample_online\<lparr>s_queue := \<lparr>header = 1, count = 0, q_locked = False\<rparr>\<rparr>"
  let ?s = "?s0\<lparr>s_now := 60\<rparr>"
  let ?m = "sample\<lparr>cells := (cells sample)(1 \<mapsto> \<lparr>buf_data = 0, buf_length = 0, buf_prev = 1, buf_next = 1\<rparr>),
        replies := [Ret 5, TimedOut [Push_back 2]]\<rparr>"
  have ok: "sender_ok ?m ?s [] [4, 5]"
    using sample_idle_ok [OF refl] by (simp add: sender_ok_def)
  have ar: "arrives ?m ?s [] [4, 5] False [2]"
    by (simp add: arrives_def pushed_in_def sendable_def content_def view_Some read_block_def sample_def)
  have "conn_inv Enc_no ?s" by (simp add: plain_inv_def)
  from send_queued_idles [OF this ok ar, of 0] show ?thesis by auto
qed

section \<open>The bounds of the loops\<close>

text \<open>
  C23: the loop over the taken buffers ends: one round for each buffer is enough, so the bound of
  the model, the number of addresses, is never the reason why it does not return, whatever the
  peer does.
\<close>

theorem send_queue_loop_terminates:
  assumes "conn_inv enc s" and "v_connected (vtable_of ctx enc) s" and "to_send m s first xs final ws ys"
  shows "length xs \<le> brk m \<and>
         (\<forall>fuel \<ge> length xs. send_queue_loop fuel (vtable_of ctx enc) first final s m =
            send_queue_loop (length xs) (vtable_of ctx enc) first final s m)"
proof -
  have own: "own_chain m (s_queue s) ws first xs final" and ok: "heap_ok m"
    using assms(3) by (simp_all add: to_send_def)
  obtain zs r where "xs = zs @ [final]" "chain (cells m) first (zs @ [final]) r" "distinct (zs @ [final])"
    using own_chain_split [OF own] by metis
  with chain_length [OF ok] have "length xs \<le> brk m" by (metis less_imp_le)
  with conn.send_queue_loop_fuel [OF assms] show ?thesis by blast
qed

text \<open>Two buffers without data, taken while two others are queued.\<close>

theorem send_queue_loop_witness:
  "send_queue_loop 9 insecure 4 5 (sample_online\<lparr>s_alloc := new_allocator\<rparr>) (sample\<lparr>replies := [Err EAGAIN]\<rparr>) =
   send_queue_loop 2 insecure 4 5 (sample_online\<lparr>s_alloc := new_allocator\<rparr>) (sample\<lparr>replies := [Err EAGAIN]\<rparr>)"
proof -
  let ?s = "sample_online\<lparr>s_alloc := new_allocator\<rparr>" and ?m = "sample\<lparr>replies := [Err EAGAIN]\<rparr>"
  have "same_mem sample ?m" by (simp add: same_mem_def)
  note mem = same_mem_views(1,7) [OF this]
  have "view 5 ?m = Ok []" by (simp add: view_def load_def read_block_def sample_def)
  then have "sendable ?m [4, 5]" by (simp add: sendable_def content_def sample_views)
  then have "to_send ?m ?s 4 [4, 5] 5 [2, 3] []"
    using sample_own_chain sample_queue_list sample_no_free_list
    by (simp add: to_send_def mem)
  moreover have "conn_inv Enc_no ?s" "v_connected (vtable_of 0 Enc_no) ?s"
    by (simp_all add: plain_inv_def insecure_def connected_insecure_def sample_online_def)
  moreover have two: "length [4 :: ptr, 5] = 2" by simp
  ultimately have "\<forall>fuel \<ge> 2. send_queue_loop fuel (vtable_of 0 Enc_no) 4 5 ?s ?m =
      send_queue_loop 2 (vtable_of 0 Enc_no) 4 5 ?s ?m"
    using send_queue_loop_terminates [of Enc_no ?s 0 ?m 4 "[4, 5]", unfolded two] by blast
  moreover have "(2 :: nat) \<le> 9" by simp
  ultimately show ?thesis unfolding vtable_of.simps by blast
qed

text \<open>
  the loop over the directory ends: every round takes an answer of the kernel, so as many
  rounds as there are answers, and one more, are enough, and the bound of the model never cuts
  a listing short.
\<close>

theorem send_files_loop_terminates:
  assumes "conn_inv enc s" and "v_connected (vtable_of ctx enc) s" and "small_files m"
    and "length (replies m) < fuel"
  shows "send_files_loop fuel (vtable_of ctx enc) s m =
         send_files_loop (length (replies m) + 1) (vtable_of ctx enc) s m"
  by (rule conn.send_files_loop_fuel [OF assms(1-3)]) (use assms(4) in simp_all)

theorem send_files_loop_terminates_witness:
  "send_files_loop 7 insecure sample_online (sample_disk [Entry ''.'', Entry ''a'', Err ENOENT, Ret 0]) =
   send_files_loop 5 insecure sample_online (sample_disk [Entry ''.'', Entry ''a'', Err ENOENT, Ret 0])"
proof -
  let ?m = "sample_disk [Entry ''.'', Entry ''a'', Err ENOENT, Ret 0]"
  have "small_files ?m" by (simp add: small_files_def sample_disk_def)
  moreover have n: "length (replies ?m) + 1 = 5" by (simp add: sample_disk_def)
  ultimately show ?thesis
    using send_files_loop_terminates [of Enc_no sample_online 0 ?m 7, unfolded n]
    by (simp add: plain_inv_def sample_disk_def del: send_files_loop.simps)
qed

section \<open>The directory\<close>

text \<open>
  C11: \<open>send_files\<close> removes a file only after its content has been sent completely, or when it could
  not be read; no other file is changed. What the connection has taken are the files of a log,
  each in full and one after the other, and, when it failed, perhaps a part of one more, which
  is kept. When it succeeds, the sender is connected and goes over to the queue, else it comes
  back to the directory. Memory, the queue and the free list are as they were, and no descriptor
  of a socket and no TLS object is leaked.
\<close>

theorem send_files_correct:
  assumes "conn_inv enc s" and "small_files m"
  shows "wp (send_files (vtable_of ctx enc) s m) (\<lambda>(ok, s', m').
           conn_inv enc s' \<and> (ok \<longrightarrow> v_connected (vtable_of ctx enc) s') \<and>
           s_state s' = (if ok then Sending_queued_buffers else s_state s) \<and>
           s_queue s' = s_queue s \<and> s_alloc s' = s_alloc s \<and> same_mem m m' \<and>
           open_beyond s' m' = open_beyond s m \<and>
           (files m' = files m \<and> \<not> ok \<or>
            (\<exists>s1 m1 log part. sender_connect (vtable_of ctx enc) s m = Ok (True, s1, m1) \<and>
               (\<forall>g. files m' g = files m g \<or> files m' g = None \<and> g \<in> fst ` set log) \<and>
               (\<forall>(f, b) \<in> set log. (\<exists>bs. files m f = Some (Reg bs)) \<and> (b \<or> unreadable f m')) \<and>
               conn_out enc s1 m' = conn_out enc s1 m1 @
                 concat (map (\<lambda>(f, b). if b then spool_bytes m f else []) log) @ part \<and>
               (ok \<longrightarrow> part = []))))"
proof (rule wp_mono [OF conn.send_files_spec [OF assms]], goal_cases)
  case (1 x)
  obtain ok s' m' where x: "x = (ok, s', m')" by (cases x)
  note r = 1 [unfolded x prod.case]
  then have co: "conn_only (s\<lparr>s_state := if ok then Sending_queued_buffers else s_state s\<rparr>) s'" by blast
  have "s_state s' = (if ok then Sending_queued_buffers else s_state s)" "s_queue s' = s_queue s"
    "s_alloc s' = s_alloc s" using conn_only_fields [OF co] by simp_all
  with r show ?case
    unfolding x prod.case sent_files_def accounted_def log_bytes_def by blast
qed

text \<open>The one file of the directory is sent in two parts, then removed.\<close>

theorem send_files_witness:
  "\<exists>s' m'. send_files insecure sample_online
       (sample_disk [Ret 0, Entry ''20000101-000000_000000'', Ret 0, Ret 5, Ret 0, Err EAGAIN, Ret 1, Ret 0, Ret 0]) =
     Ok (True, s', m') \<and> files m' = Map.empty \<and> v_connected insecure s' \<and>
     s_state s' = Sending_queued_buffers \<and> conn_out Enc_no sample_online m' = [9]"
proof -
  let ?n = "''20000101-000000_000000''"
  let ?m = "sample_disk [Ret 0, Entry ?n, Ret 0, Ret 5, Ret 0, Err EAGAIN, Ret 1, Ret 0, Ret 0]"
  obtain s' m' where run: "send_files (vtable_of 0 Enc_no) sample_online ?m = Ok (True, s', m')"
    and m': "files m' = Map.empty" "plain_out sample_online m' = [9]"
    by (simp cong: andThen_weak_cong add: send_files_def sys_opendir_def send_entry_def sys_readdir_def
        sys_stat_def send_file_def sys_open_read_def sys_mmap_def sys_munmap_def sys_close_file_def
        sys_unlink_def sys_closedir_def formatted_def PATH_MAX_def plain_out_def sent_def
        send_run_simps sample_online_defs sample_disk_def)
  have "small_files ?m" by (simp add: small_files_def sample_disk_def)
  from wp_Ok [OF send_files_correct [OF _ this] run] m' run show ?thesis by (auto simp: plain_inv_def)
qed

section \<open>Errors\<close>

text \<open>What a round of waiting leaves in the trace.\<close>

definition paused :: "int \<Rightarrow> (call \<times> reply) list" where
  "paused t = [(Host C_time, Ret t), (Host (C_usleep 250000), Ret 0)]"

lemma run_round_pause:
  assumes "replies m = Ret t # rs" and "t - s_last s < 30"
  shows "run_round v True s m = Ok (True, s\<lparr>s_now := t\<rparr>, m\<lparr>replies := rs, trace := trace m @ paused t\<rparr>)"
  using assms
  by (simp add: run_round_def reconnect_def sys_time_def usleep_def note_call_def sleep_interval_def
      reconnection_time_def paused_def)

text \<open>
  C22: after an error the thread leaves the peer alone for 30 seconds, whatever the transport: as
  long as the clock is within 30 seconds of the last use of the connection, the rounds do
  nothing but look at the clock and sleep for 250 ms. No buffer, file or socket is touched.
\<close>

theorem error_pause:
  assumes "replies m = map Ret ts @ rs" and "\<forall>t \<in> set ts. t - s_last s < 30"
  shows "run_loop (replicate (length ts) True @ running) v True s m =
         run_loop running v True (s\<lparr>s_now := last (s_now s # ts)\<rparr>)
           (m\<lparr>replies := rs, trace := trace m @ concat (map paused ts)\<rparr>)"
  using assms
proof (induction ts arbitrary: s m)
  case (Cons t ts)
  let ?s = "s\<lparr>s_now := t\<rparr>" and ?m = "m\<lparr>replies := map Ret ts @ rs, trace := trace m @ paused t\<rparr>"
  have "run_round v True s m = Ok (True, ?s, ?m)"
    using Cons.prems by (intro run_round_pause) simp_all
  then show ?case using Cons.IH [of ?m ?s] Cons.prems(2) by simp
next
  case Nil
  then have "m\<lparr>replies := rs\<rparr> = m" by (cases m) simp
  then show ?case by simp
qed

theorem error_pause_witness:
  "run_loop [True, True, False] insecure True (sample_online\<lparr>s_last := 100\<rparr>)
     (sample\<lparr>replies := [Ret 101, Ret 129, Ret 129]\<rparr>) =
   Ok (sample_online\<lparr>s_now := 129, s_last := 100\<rparr>,
       sample\<lparr>trace := paused 101 @ paused 129 @ paused 129\<rparr>)"
  using error_pause [of "sample\<lparr>replies := [Ret 101, Ret 129, Ret 129]\<rparr>" "[101, 129]" "[Ret 129]"
      "sample_online\<lparr>s_last := 100\<rparr>" "[False]" insecure]
  by (simp add: run_round_pause sample_def)

text \<open>When the 30 seconds are over, or without an error, a connection is tried at most once.\<close>

context transport
begin

lemma reconnect_spec:
  assumes "inv s"
  shows "wp (reconnect v e s m) (\<lambda>(e', s', m'). inv s' \<and> (e' \<longrightarrow> e) \<and> (e \<and> \<not> e' \<longrightarrow> v_connected v s') \<and>
           conn_only (s\<lparr>s_now := s_now s'\<rparr>) s' \<and> undisturbed m m' \<and> res s' m' = res s m \<and>
           (\<not> e \<longrightarrow> s' = s\<lparr>s_now := s_now s'\<rparr>) \<and>
           (e' \<longrightarrow> (if s_now s' - s_last s < 30 then s' = s\<lparr>s_now := s_now s'\<rparr> else s_last s' = s_now s')) \<and>
           (v_connected v s \<longrightarrow> v_connected v s' \<and> out s' m' = out s m))"
    (is "wp _ ?Q")
proof -
  have us: "undisturbed a (usleep n a)" "res s (usleep n a) = res s a" "out s (usleep n a) = out s a" for a n s
    using frame_host [OF host_only_one [of "usleep n a" a "C_usleep n" "Ret 0"]]
    by (auto simp: undisturbed_def usleep_def same_mem_def later_def)
  have tm: "wp (sys_time m) (\<lambda>(t, m1). undisturbed m m1 \<and> host_only m m1)"
    by (auto simp: sys_time_def undisturbed_def same_mem_def later_def host_only_def)
  show ?thesis
    unfolding reconnect_def Let_def
  proof (rule wp_step [OF tm], goal_cases)
    case (1 x)
    then obtain t m1 where x: "x = (t, m1)" and m1: "undisturbed m m1" "host_only m m1" by (cases x) auto
    let ?s = "s\<lparr>s_now := t\<rparr>"
    have s1: "inv ?s" "res ?s m1 = res s m" "out ?s m1 = out s m" "v_connected v ?s = v_connected v s"
      using assms frame_host [OF m1(2), of s] by simp_all
    note und = undisturbed_trans [OF m1(1)]
    have "wp (andThen (sender_connect v ?s m1) (\<lambda>(ok, s, m).
            if ok then Ok (False, s, m) else Ok (True, s, usleep sleep_interval m))) 
          (\<lambda>x. e \<and> 30 \<le> t - s_last s \<longrightarrow> ?Q x)"
    proof (rule wp_step [OF connect_spec [OF s1(1)]], goal_cases)
      case (1 y)
      then obtain ok s2 m2 where y: "y = (ok, s2, m2)" and r: "inv s2" "v_connected v s2 = ok"
        "conn_only ?s s2" "s_last s2 = (if v_connected v ?s then s_last ?s else s_now ?s)"
        "undisturbed m1 m2" "res s2 m2 = res ?s m1" "v_connected v ?s \<longrightarrow> ok \<and> s2 = ?s \<and> m2 = m1"
        by (cases y) auto
      have n: "s_now s2 = t" using conn_only_fields(5) [OF r(3)] by simp
      show ?case
        using r s1 und [OF r(5)] undisturbed_trans [OF und [OF r(5)] us(1)] us(2,3) n
        by (cases ok) (simp_all add: y)
    qed
    then show ?case
      using s1 m1 und [OF us(1)] us(2,3)
      by (cases e; cases "30 \<le> t - s_last s") (auto simp: x reconnection_time_def elim: wp_mono)
  qed
qed

end

text \<open>
  C21: when the 30 seconds are over, the thread tries to connect, once, unless it still is
  connected. If it fails, the round ends with the error and the 30 seconds start again: the time
  of the attempt is remembered, and nothing but the connection has changed. The connection is in
  order and nothing is leaked in any case.
\<close>

theorem reconnect_correct:
  assumes "conn_inv enc s"
  shows "wp (reconnect (vtable_of ctx enc) e s m) (\<lambda>(e', s', m').
           conn_inv enc s' \<and> (e' \<longrightarrow> e) \<and> (e \<and> \<not> e' \<longrightarrow> v_connected (vtable_of ctx enc) s') \<and>
           conn_only (s\<lparr>s_now := s_now s'\<rparr>) s' \<and> undisturbed m m' \<and>
           open_beyond s' m' = open_beyond s m \<and> (\<not> e \<longrightarrow> s' = s\<lparr>s_now := s_now s'\<rparr>) \<and>
           (e' \<longrightarrow> (if s_now s' - s_last s < 30 then s' = s\<lparr>s_now := s_now s'\<rparr> else s_last s' = s_now s')))"
  by (rule wp_mono [OF conn.reconnect_spec [OF assms]]) auto

text \<open>After the pause, there is no descriptor left for a socket.\<close>

theorem reconnect_witness:
  "\<exists>s' m'. reconnect insecure True sample_sender (sample\<lparr>replies := [Ret 30, Err ENOENT]\<rparr>) = Ok (True, s', m') \<and>
     s_last s' = 30 \<and> \<not> v_connected insecure s' \<and> open_beyond s' m' = open_beyond sample_sender sample"
proof -
  let ?m = "sample\<lparr>replies := [Ret 30, Err ENOENT]\<rparr>"
  obtain s' m' where run: "reconnect (vtable_of 0 Enc_no) True sample_sender ?m = Ok (True, s', m')"
    and s': "s_last s' = 30" "\<not> v_connected insecure s'"
    by (simp add: reconnect_def sys_time_def usleep_def reconnection_time_def sender_connect_def insecure_def
        connected_insecure_def connect_insecure_def connect_address_timed_def connect_timed_def
        sock_connect_def sys_socket_def sample_online_defs new_socket_def)
  have "open_beyond s' m' = open_beyond sample_sender ?m"
    using wp_Ok [OF reconnect_correct run] by (simp add: plain_inv_def)
  then show ?thesis using run s' by (simp add: open_beyond_def fd_balance_def ssl_balance_def)
qed

end
