(* ===== verification/Producers.thy ===== *)
theory Producers
  imports Rounds
begin

text \<open>
  The operations other threads call on a sender: handing it buffers, which are queued or, when
  the queue is full, saved to the directory; starting it, stopping it and destroying it.
\<close>

section \<open>Handing over buffers\<close>

text \<open>What a producer hands over: a chain of sendable buffers it owns, and nobody else.\<close>

definition to_give :: "machine \<Rightarrow> sender \<Rightarrow> ptr list \<Rightarrow> ptr list \<Rightarrow> ptr \<Rightarrow> ptr list \<Rightarrow> ptr \<Rightarrow> bool" where
  "to_give m s xs ys first zs final \<longleftrightarrow>
     own_chain m (s_queue s) xs first zs final \<and> set zs \<inter> set ys = {} \<and> sendable m zs"

lemma sender_ok_upd [simp]:
  "sender_ok m (s\<lparr>s_state := st\<rparr>) xs ys = sender_ok m s xs ys"
  "sender_ok m (s\<lparr>s_now := t\<rparr>) xs ys = sender_ok m s xs ys"
  by (simp_all add: sender_ok_def)

lemma give_pushes:
  assumes "sender_ok m s xs ys" and "to_give m s xs ys first zs final"
  shows "\<exists>q m'. push_back_chain first final (s_queue s) m = Ok (of_nat (length (xs @ zs)), q, m') \<and>
           sender_ok m' (s\<lparr>s_queue := q\<rparr>) (xs @ zs) ys \<and> header q = header (s_queue s) \<and>
           relinked (set (zs @ header (s_queue s) # xs)) m m' \<and> host_only m m'"
proof -
  from assms have ok: "heap_ok m" "queue_list m (s_queue s) xs" "own_chain m (s_queue s) xs first zs final"
    "free_list m (s_alloc s) ys" "set (zs @ header (s_queue s) # xs) \<inter> set ys = {}" "brk m < 2 ^ 64"
    "sendable m (xs @ zs)" by (auto simp: sender_ok_def to_give_def queue_ok_def sendable_def)
  from push_back_chain_Ok [OF ok(1-3)] obtain q m' where
    p: "push_back_chain first final (s_queue s) m = Ok (of_nat (length (xs @ zs)), q, m')"
      "queue_list m' q (xs @ zs)" "header q = header (s_queue s)"
      "relinked (set (zs @ header (s_queue s) # xs)) m m'" by blast
  have "sendable m' (xs @ zs)" using ok(7) sendable_cong [of m' m] relinked_view [OF p(4)] by metis
  with p ok free_list_relinked [OF ok(4) p(4) ok(5)] relinked_heap_ok [OF p(4) ok(1)]
    relinked_fields [OF p(4)] push_back_chain_host [OF p(1)]
  show ?thesis by (auto simp: sender_ok_def queue_ok_def)
qed

lemma queue_room:
  assumes "sender_ok m s xs ys"
  shows "(max_queued_buffers < of_nat (length xs)) = (10000 < length xs)"
proof -
  have "length xs < 2 ^ 64"
    using assms queue_list_length(1) [of m "s_queue s" xs] by (auto simp: sender_ok_def queue_ok_def)
  then show ?thesis by (simp add: max_queued_buffers_def word_less_nat_alt unat_of_nat)
qed

text \<open>A successful save leaves the sender in order, with an empty queue.\<close>

lemma save_buffers_ok:
  assumes "sender_ok m s xs ys" and "save_buffers s m = Ok (True, s', m')" and "honest m'"
  shows "stored (s_dir s) (tz m (s_now s)) xs m m' \<and> sender_ok m' s' [] (rev xs @ ys) \<and>
         header (s_queue s') = header (s_queue s) \<and> file_only m m' \<and> (\<forall>p. view p m' = view p m) \<and>
         (\<forall>p. p \<notin> set (header (s_queue s) # xs) \<longrightarrow> cells m' p = cells m p) \<and>
         s' = s\<lparr>s_queue := s_queue s', s_alloc := s_alloc s'\<rparr>"
proof -
  from assms(1) have ok: "queue_ok m" "queue_list m (s_queue s) xs" "free_list m (s_alloc s) ys"
    "set (header (s_queue s) # xs) \<inter> set ys = {}" by (simp_all add: sender_ok_def)
  from save_buffers_True [OF ok assms(2,3)] obtain q a where
    r: "s' = s\<lparr>s_queue := q, s_alloc := a\<rparr>" "header q = header (s_queue s)"
      "stored (s_dir s) (tz m (s_now s)) xs m m'" "queue_list m' q []" "free_list m' a (rev xs @ ys)"
      "heap_ok m'" "brk m' = brk m" "\<forall>p. view p m' = view p m" "file_only m m'"
      "\<forall>p. p \<notin> set (header (s_queue s) # xs) \<longrightarrow> cells m' p = cells m p" by blast
  have "header (s_queue s) \<notin> set xs" using ok(2) unfolding queue_list_def ring_def by simp
  with ok(4) r(2) have "set [header q] \<inter> set (rev xs @ ys) = {}" by auto
  moreover have "queue_ok m'" using ok(1) r(6,7) by (simp add: queue_ok_def)
  ultimately have "sender_ok m' s' [] (rev xs @ ys)"
    using r(4,5) by (simp add: sender_ok_def r(1) sendable_def)
  moreover have "s' = s\<lparr>s_queue := s_queue s', s_alloc := s_alloc s'\<rparr>" by (simp add: r(1))
  moreover have "header (s_queue s') = header (s_queue s)" by (simp add: r(1,2))
  ultimately show ?thesis using r(3,8-10) by blast
qed

text \<open>
  C12: handing over a chain of buffers that the caller owns. They are appended to the queue in order,
  and while it holds at most 10,000 buffers nothing else changes. When there are more, \<open>save_buffers\<close>
  is run on them, and the thread is sent to the directory whatever comes of it. If every
  buffer could be saved (it returned true) and \<open>stat\<close> failed only for missing files (\<open>honest\<close>),
  all the queued buffers are in the directory then, each in a new file of its own, and returned to
  the allocator: no buffer is lost.
\<close>

theorem send_buffers_correct:
  assumes "sender_ok m s xs ys" and "to_give m s xs ys first zs final"
  shows "\<exists>q m1. sender_ok m1 (s\<lparr>s_queue := q\<rparr>) (xs @ zs) ys \<and> files m1 = files m \<and>
           (\<forall>p. view p m1 = view p m) \<and>
           push_back_chain first final (s_queue s) m = Ok (of_nat (length (xs @ zs)), q, m1) \<and>
           (if length (xs @ zs) \<le> 10000 then send_buffers first final s m = Ok (s\<lparr>s_queue := q\<rparr>, m1)
            else send_buffers first final s m =
                andThen (save_buffers (s\<lparr>s_queue := q\<rparr>) m1) (\<lambda>(ret, s, m). Ok (s\<lparr>s_state := Sending_files\<rparr>, m)) \<and>
              (\<forall>s2 m2. save_buffers (s\<lparr>s_queue := q\<rparr>) m1 = Ok (True, s2, m2) \<and> honest m2 \<longrightarrow>
              send_buffers first final s m = Ok (s2\<lparr>s_state := Sending_files\<rparr>, m2) \<and>
              stored (s_dir s) (tz m (s_now s)) (xs @ zs) m m2 \<and>
              sender_ok m2 (s2\<lparr>s_state := Sending_files\<rparr>) [] (rev (xs @ zs) @ ys)))"
proof -
  from give_pushes [OF assms] obtain q m1 where
    p: "push_back_chain first final (s_queue s) m = Ok (of_nat (length (xs @ zs)), q, m1)"
      "sender_ok m1 (s\<lparr>s_queue := q\<rparr>) (xs @ zs) ys" "relinked (set (zs @ header (s_queue s) # xs)) m m1"
    by blast
  note rl = relinked_fields [OF p(3)] relinked_view [OF p(3)] and room = queue_room [OF p(2)]
  have "send_buffers first final s m = Ok (s2\<lparr>s_state := Sending_files\<rparr>, m2) \<and>
      stored (s_dir s) (tz m (s_now s)) (xs @ zs) m m2 \<and>
      sender_ok m2 (s2\<lparr>s_state := Sending_files\<rparr>) [] (rev (xs @ zs) @ ys)"
    if big: "\<not> length (xs @ zs) \<le> 10000" and sv: "save_buffers (s\<lparr>s_queue := q\<rparr>) m1 = Ok (True, s2, m2)"
      and h: "honest m2" for s2 m2
  proof -
    note ok = save_buffers_ok [OF p(2) sv h]
    have "send_buffers first final s m = Ok (s2\<lparr>s_state := Sending_files\<rparr>, m2)"
      using big room sv by (simp add: send_buffers_def p(1) Let_def)
    moreover have "stored (s_dir s) (tz m (s_now s)) (xs @ zs) m m2"
      using ok stored_env [of m1 m "s_dir s" "tz m (s_now s)" "xs @ zs" m2] rl by simp
    ultimately show ?thesis using ok by (simp only: sender_ok_upd simp_thms)
  qed
  moreover have "send_buffers first final s m = Ok (s\<lparr>s_queue := q\<rparr>, m1)" if "length (xs @ zs) \<le> 10000"
    using that room by (simp add: send_buffers_def p(1) Let_def)
  moreover have "send_buffers first final s m =
      andThen (save_buffers (s\<lparr>s_queue := q\<rparr>) m1) (\<lambda>(ret, s, m). Ok (s\<lparr>s_state := Sending_files\<rparr>, m))"
    if "\<not> length (xs @ zs) \<le> 10000"
    using that room by (simp add: send_buffers_def p(1) Let_def)
  ultimately show ?thesis using p(1,2) rl by (intro exI [of _ q] exI [of _ m1]) auto
qed

lemma sample_to_give:
  "sender_ok sample (sample_online\<lparr>s_alloc := new_allocator\<rparr>) [2, 3] []"
  "to_give sample (sample_online\<lparr>s_alloc := new_allocator\<rparr>) [2, 3] [] 4 [4, 5] 5"
proof -
  have "view 5 sample = Ok []" "view 4 sample = Ok []"
    by (simp_all add: view_def load_def read_block_def sample_def)
  then have "sendable sample [4, 5]" by (simp add: sendable_def content_def)
  then show "to_give sample (sample_online\<lparr>s_alloc := new_allocator\<rparr>) [2, 3] [] 4 [4, 5] 5"
    using sample_own_chain by (simp add: to_give_def)
  show "sender_ok sample (sample_online\<lparr>s_alloc := new_allocator\<rparr>) [2, 3] []"
    using sample_online_ok [where rs = "replies sample" and fs = "files sample"]
    by (simp add: sender_ok_def free_list_def new_allocator_def)
qed

text \<open>A single buffer is a chain of one.\<close>

lemma send_buffer_single: "send_buffer p s m = send_buffers p p s m"
  by (simp add: send_buffer_def send_buffers_def push_back_chain_self)

section \<open>Starting and destroying\<close>

text \<open>
  \<open>start\<close> returns true exactly when the name fits the array, is a directory and the thread has
  been created; then the sender runs, with this directory and this transport. When it returns
  false, no thread has been created: the sender is as before, or, when creating the thread
  failed, not running. Memory and files are not touched.
\<close>

theorem sender_start_correct:
  assumes "sender_start enc d s m = Ok (ok, s', m')"
  shows "same_mem m m' \<and> files m' = files m \<and>
         (if ok then length d < 4096 \<and> files m d = Some Dir \<and>
            s' = s\<lparr>s_dir := d, s_enc := enc, s_running := True\<rparr> \<and>
            (\<exists>es r. trace m' = trace m @ es @ [(Host C_pthread_create, Ret r)])
          else s' = s \<and> (\<forall>r. (Host C_pthread_create, r) \<in> set (trace m') \<longrightarrow>
                 (Host C_pthread_create, r) \<in> set (trace m)) \<or>
               s' = s\<lparr>s_dir := d, s_enc := enc, s_running := False\<rparr> \<and>
               (\<exists>es r. trace m' = trace m @ es @ [(Host C_pthread_create, r)] \<and> status_of r \<noteq> 0))"
proof (cases "length d < PATH_MAX")
  case False
  with assms show ?thesis by (simp add: sender_start_def)
next
  case True
  with assms obtain node m1 where st: "sys_stat d m = Ok (node, m1)"
    and r: "(if node = Some Dir then
            (let s = s\<lparr>s_dir := d, s_enc := enc, s_running := True\<rparr> in
             andThen (syscall (Host C_pthread_create) m1) (\<lambda>(r, m).
               if status_of r = 0 then Ok (True, s, m)
               else Ok (False, s\<lparr>s_running := False\<rparr>, m)))
          else Ok (False, s, m1)) = Ok (ok, s', m')"
    by (auto simp: sender_start_def andThen_Ok_iff)
  from st obtain a rs where "replies m = a # rs" by (cases "replies m") (auto simp: sys_stat_def)
  with st have m1: "same_mem m m1" "files m1 = files m" "trace m1 = trace m @ [(File (C_stat d), a)]"
    "node = (if status_of a = 0 then files m d else None)"
    by (auto simp: sys_stat_def same_mem_def)
  show ?thesis
  proof (cases "node = Some Dir")
    case False
    with r m1 show ?thesis by auto
  next
    case dir: True
    with r obtain b rs where "replies m1 = b # rs" by (cases "replies m1") auto
    with dir r have b: "s' = s\<lparr>s_dir := d, s_enc := enc, s_running := ok\<rparr>" "ok \<longleftrightarrow> status_of b = 0"
      "same_mem m1 m'" "files m' = files m1" "trace m' = trace m1 @ [(Host C_pthread_create, b)]"
      by (cases "status_of b = 0"; auto simp: Let_def same_mem_def)+
    have "same_mem m m'" "files m' = files m" using m1 b by (auto intro: same_mem_trans)
    moreover have "trace m' = trace m @ [(File (C_stat d), a)] @ [(Host C_pthread_create, b)]"
      using b(5) m1(3) by simp
    moreover have "ok \<Longrightarrow> \<exists>n. b = Ret n" using b(2) by (cases b) auto
    ultimately show ?thesis using True dir m1(4) b(1,2) by (cases ok) (auto simp: PATH_MAX_def split: if_splits)
  qed
qed

theorem sender_start_witness:
  "\<exists>s' m'. sender_start Enc_yes ''/tmp'' sample_sender (sample\<lparr>files := [''/tmp'' \<mapsto> Dir], replies := [Ret 0, Ret 0]\<rparr>) =
     Ok (True, s', m') \<and> s' = sample_sender\<lparr>s_dir := ''/tmp'', s_enc := Enc_yes, s_running := True\<rparr>"
proof -
  obtain s' m' where run: "sender_start Enc_yes ''/tmp'' sample_sender
      (sample\<lparr>files := [''/tmp'' \<mapsto> Dir], replies := [Ret 0, Ret 0]\<rparr>) = Ok (True, s', m')"
    by (simp add: sender_start_def sys_stat_def PATH_MAX_def Let_def)
  with sender_start_correct [OF run] show ?thesis by simp
qed

lemma clear_trace: "clear p m = Ok m' \<Longrightarrow> trace m' = trace m \<and> replies m' = replies m \<and> files m' = files m"
  by (auto simp: clear_def c_free_def modify_Ok_iff andThen_Ok_iff split: if_splits option.splits)

lemma delete_chain_trace:
  "delete_chain fuel p q m = Ok m' \<Longrightarrow> trace m' = trace m \<and> replies m' = replies m \<and> files m' = files m"
proof (induction fuel arbitrary: p m)
  case (Suc fuel)
  then show ?case by (fastforce simp: delete_buffer_def andThen_Ok_iff split: if_splits dest!: clear_trace)
qed (simp split: if_splits)

lemmas teardown_simps = socket_destroy_def ssl_destroy_def sock_close_def ssl_close_def sys_close_def
  ssl_free_def Let_def

lemma sender_destroy_Ok:
  assumes "sender_ok m s xs ys" and "s_running s \<longrightarrow> replies m \<noteq> []"
  shows "\<exists>m'. sender_destroy s m = Ok m' \<and> cells m' = (\<lambda>p. if p \<in> set xs then None else cells m p) \<and>
           heap_ok m' \<and> files m' = files m \<and>
           (\<forall>f. fd_balance f m' = fst (open_beyond s m) f) \<and>
           (\<forall>p. ssl_balance p m' = snd (open_beyond s m) p)"
proof -
  obtain s1 m1 where st: "sender_stop s m = Ok (s1, m1)" and s1: "s_queue s1 = s_queue s"
    "s_sock s1 = s_sock s" "s_ssl s1 = s_ssl s" and host: "host_only m m1" and sm: "same_mem m m1"
    and fl: "files m1 = files m"
  proof -
    show ?thesis
    proof (cases "s_running s")
      case True
      with assms(2) obtain r rs where "replies m = r # rs" by (cases "replies m") auto
      with True that show ?thesis by (auto simp: sender_stop_def same_mem_def host_only_def)
    qed (use that in \<open>simp add: sender_stop_def\<close>)
  qed
  have ok: "heap_ok m1" "queue_list m1 (s_queue s) xs"
    using assms(1) same_mem_views [OF sm] by (simp_all add: sender_ok_def queue_ok_def)
  have "\<exists>m2. buffers_destroy (s_queue s) m1 = Ok m2 \<and> heap_ok m2 \<and>
      cells m2 = (\<lambda>p. if p \<in> set xs then None else cells m1 p) \<and> trace m2 = trace m1 \<and> files m2 = files m1"
    using buffers_destroy_Ok [OF ok] delete_chain_trace
    by (fastforce simp: buffers_destroy_def andThen_Ok_iff)
  then obtain m2 where d: "buffers_destroy (s_queue s) m1 = Ok m2" "heap_ok m2"
    "cells m2 = (\<lambda>p. if p \<in> set xs then None else cells m1 p)" "trace m2 = trace m1" "files m2 = files m1" by blast
  let ?m = "socket_destroy (s_sock s) (ssl_destroy (s_ssl s) m2)"
  have "sender_destroy s m = Ok ?m" using st s1 d by (simp add: sender_destroy_def)
  moreover have "cells ?m = cells m2" "heap_ok ?m" "files ?m = files m2"
    using d(2) by (simp_all add: teardown_simps cong: heap_ok_cong)
  moreover have "fd_balance f ?m = fst (open_beyond s m) f" "ssl_balance p ?m = snd (open_beyond s m) p" for f p
    using host_only_deltas [OF host] d(4)
    by (auto simp: teardown_simps open_beyond_def fd_balance_def ssl_balance_def ssl_fd_def)
  ultimately show ?thesis using d fl same_mem_views(4) [OF sm] by auto
qed

text \<open>
  the destructor stops the thread, deletes every buffer that is still queued, each once, and
  closes the connection: what is open then, descriptors of sockets and TLS objects, is what
  was open beyond the connection of this sender, and nothing is closed twice. It does not touch
  the files, nor the buffers of the allocator.
\<close>

theorem sender_destroy_frees:
  assumes "sender_ok m s xs ys" and "s_running s \<longrightarrow> replies m \<noteq> []"
  shows "\<exists>m'. sender_destroy s m = Ok m' \<and> cells m' = (\<lambda>p. if p \<in> set xs then None else cells m p) \<and>
           heap_ok m' \<and> files m' = files m \<and>
           (\<forall>f. fd_balance f m' = fst (open_beyond s m) f) \<and>
           (\<forall>p. ssl_balance p m' = snd (open_beyond s m) p)"
  by (rule sender_destroy_Ok [OF assms])

theorem sender_destroy_witness:
  "\<exists>m'. sender_destroy sample_online (sample\<lparr>trace := [(Sock (C_socket AF_INET), Ret 3)]\<rparr>) = Ok m' \<and>
     cells m' = (cells sample)(2 := None, 3 := None) \<and> fd_balance 3 m' = 0"
proof -
  let ?m = "sample\<lparr>trace := [(Sock (C_socket AF_INET), Ret 3)]\<rparr>"
  have "same_mem sample ?m" by (simp add: same_mem_def)
  note mem = same_mem_views [OF this]
  have "sender_ok sample sample_online [2, 3] [4, 5]"
    using sample_online_ok [where rs = "replies sample" and fs = "files sample"] by simp
  then have "sender_ok ?m sample_online [2, 3] [4, 5]"
    using sendable_cong [of ?m sample "[2, 3]"] by (simp add: sender_ok_def queue_ok_def mem)
  moreover have "\<not> s_running sample_online" "sock_fd (s_sock sample_online) = 3" "ssl_fd (s_ssl sample_online) = -1"
    by (simp_all add: sample_online_def sample_sender_def new_sender_def new_ssl_socket_def ssl_fd_def new_socket_def)
  ultimately obtain m' where "sender_destroy sample_online ?m = Ok m'"
    "cells m' = (\<lambda>p. if p \<in> set [2, 3] then None else cells ?m p)"
    "fd_balance 3 m' = fst (open_beyond sample_online ?m) 3"
    using sender_destroy_frees [of ?m sample_online "[2, 3]" "[4, 5]"] by blast
  then show ?thesis
    using \<open>sock_fd (s_sock sample_online) = 3\<close> \<open>ssl_fd (s_ssl sample_online) = -1\<close>
    by (auto simp: fun_eq_iff open_beyond_def fd_balance_def)
qed

end
