(* ===== verification/Threads.thy ===== *)
theory Threads
  imports Producers
begin

text \<open>
  The thread of the sender in steps small enough for the producers to come in between: every step
  holds a mutex at most once, touches the queue or the free list at most once, and reads or
  writes the shared members \<open>_M_state\<close> and \<open>_M_running\<close> at most once. The whole of \<open>run\<close>, as \<open>Sender\<close>
  has it, is a run of these steps.
\<close>

section \<open>The steps\<close>

text \<open>
  Where the thread is: at the head of its loop with or without an error (\<open>Begin\<close>), past the head
  (\<open>Ready\<close>), about to pop the queue (\<open>Popping\<close>), with the buffers from \<open>first\<close> to \<open>last\<close> just taken
  (\<open>Taken\<close>), about to send the first of them (\<open>Holding\<close>), having sent it (\<open>Sent\<close>), or about to put
  them back (\<open>Putback\<close>); about to connect for the files (\<open>Connecting\<close>), to open the directory
  (\<open>Opening\<close>), to read the next entry (\<open>Reading\<close>), to deal with an entry (\<open>Entered\<close>), or at the end
  of the directory (\<open>Listed\<close>); at the condition of the loop (\<open>Check\<close>), past it (\<open>Leaving\<close>), finished.
\<close>

datatype thread =
  Begin bool | Ready | Popping | Taken ptr ptr | Holding ptr ptr | Sent ptr ptr | Putback ptr ptr
| Connecting | Opening | Reading | Entered string | Listed | Check bool | Leaving | Finished

type_synonym conf = "thread \<times> sender \<times> machine"

abbreviation obj :: "conf \<Rightarrow> sender" where "obj c \<equiv> fst (snd c)"
abbreviation mach :: "conf \<Rightarrow> machine" where "mach c \<equiv> snd (snd c)"

fun thread_step :: "vtable \<Rightarrow> conf \<Rightarrow> conf res" where
  "thread_step v (Begin error_sending, s, m) =
     andThen (reconnect v error_sending s m) (\<lambda>(e, s, m). Ok (if e then Check True else Ready, s, m))"
| "thread_step v (Ready, s, m) =
     Ok (if s_state s = Sending_queued_buffers then Popping else Connecting, s, m)"
| "thread_step v (Popping, s, m) =
     andThen (pop_all_timed (of_nat (sleep_interval div 1000)) (s_queue s) m)
       (\<lambda>(n, first, final, q, m). let s = s\<lparr>s_queue := q\<rparr> in
       if 0 < n then Ok (Taken first final, s, m)
       else if v_connected v s \<and> idle_timeout \<le> s_now s - s_last s then
         (let (s, m) = v_disconnect v s m in Ok (Check False, s, m))
       else Ok (Check False, s, m))"
| "thread_step v (Taken first final, s, m) =
     andThen (sender_connect v s m) (\<lambda>(ok, s, m).
       Ok (if ok then Holding first final else Putback first final, s, m))"
| "thread_step v (Holding first final, s, m) =
     andThen (view first m) (\<lambda>data.
     andThen (sender_send v data s m) (\<lambda>(ok, s, m).
       Ok (if ok then Sent first final else Putback first final, s, m)))"
| "thread_step v (Sent first final, s, m) =
     (if first \<noteq> final then
        andThen (get_next first m) (\<lambda>next.
        andThen (sender_put first s m) (\<lambda>(s, m). Ok (Holding next final, s, m)))
      else
        andThen (sender_put first s m) (\<lambda>(s, m). Ok (Check False, s, m)))"
| "thread_step v (Putback first final, s, m) =
     andThen (push_front_chain first final (s_queue s) m) (\<lambda>(n, q, m).
       Ok (Check True, s\<lparr>s_queue := q\<rparr>, m))"
| "thread_step v (Connecting, s, m) =
     andThen (sender_connect v s m) (\<lambda>(ok, s, m). Ok (if ok then Opening else Check True, s, m))"
| "thread_step v (Opening, s, m) =
     andThen (sys_opendir (s_dir s) m) (\<lambda>(dir, m). Ok (if dir then Reading else Check True, s, m))"
| "thread_step v (Reading, s, m) =
     andThen (sys_readdir m) (\<lambda>(entry, m).
       Ok (case entry of None \<Rightarrow> Listed | Some d_name \<Rightarrow> Entered d_name, s, m))"
| "thread_step v (Entered d_name, s, m) =
     andThen (send_entry v d_name s m) (\<lambda>(ok, s, m).
       Ok (if ok then (Reading, s, m) else (Check True, s, sys_closedir m)))"
| "thread_step v (Listed, s, m) =
     Ok (Check False, s\<lparr>s_state := Sending_queued_buffers\<rparr>, sys_closedir m)"
| "thread_step v (Check error_sending, s, m) =
     Ok (if s_running s then Begin error_sending else Leaving, s, m)"
| "thread_step v (Leaving, s, m) =
     andThen (save_buffers s m) (\<lambda>(ret, s, m). Ok (Finished, s, m))"
| "thread_step v (Finished, s, m) = Ok (Finished, s, m)"

fun thread_run :: "nat \<Rightarrow> vtable \<Rightarrow> conf \<Rightarrow> conf res" where
  "thread_run 0 v c = Ok c"
| "thread_run (Suc n) v c = andThen (thread_step v c) (thread_run n v)"

lemma thread_run_add:
  "thread_run i v c = Ok c1 \<Longrightarrow> thread_run j v c1 = Ok c2 \<Longrightarrow> thread_run (i + j) v c = Ok c2"
  by (induction i arbitrary: c) (auto simp: andThen_Ok_iff)

lemma thread_run_step: "thread_step v c = Ok c' \<Longrightarrow> thread_run (Suc 0) v c = Ok c'"
  by simp

text \<open>A step, then the rest of a run.\<close>

lemma thread_run_Suc:
  "thread_step v c = Ok c1 \<Longrightarrow> \<exists>n. thread_run n v c1 = Ok c2 \<Longrightarrow> \<exists>n. thread_run n v c = Ok c2"
  using thread_run_add [OF thread_run_step] by blast

lemma thread_run_trans:
  "\<exists>n. thread_run n v c = Ok c1 \<Longrightarrow> \<exists>n. thread_run n v c1 = Ok c2 \<Longrightarrow> \<exists>n. thread_run n v c = Ok c2"
  using thread_run_add by blast

lemma thread_run_last: "thread_step v c = Ok c1 \<Longrightarrow> \<exists>n. thread_run n v c = Ok c1"
  using thread_run_step by blast

section \<open>A round is a run of the steps\<close>

lemma send_queue_loop_steps:
  "send_queue_loop fuel v first final s m = Ok (err, s', m') \<Longrightarrow>
     \<exists>n. thread_run n v (Holding first final, s, m) = Ok (Check err, s', m')"
proof (induction fuel arbitrary: first s m)
  case (Suc fuel)
  from Suc.prems obtain d ok s1 m1 where view: "view first m = Ok d" and send: "sender_send v d s m = Ok (ok, s1, m1)"
    and rest: "(if ok then
         (if first \<noteq> final then
            andThen (get_next first m1) (\<lambda>next.
            andThen (sender_put first s1 m1) (\<lambda>(s, m). send_queue_loop fuel v next final s m))
          else
            andThen (sender_put first s1 m1) (\<lambda>(s, m). Ok (False, s, m)))
       else
         andThen (push_front_chain first final (s_queue s1) m1) (\<lambda>(n, q, m).
           Ok (True, s1\<lparr>s_queue := q\<rparr>, m))) = Ok (err, s', m')"
    by (auto simp: andThen_Ok_iff)
  let ?c1 = "(if ok then Sent first final else Putback first final, s1, m1)"
  have "\<exists>n. thread_run n v ?c1 = Ok (Check err, s', m')"
  proof (cases "ok \<and> first \<noteq> final")
    case True
    with rest obtain nx s2 m2 where more: "get_next first m1 = Ok nx" "sender_put first s1 m1 = Ok (s2, m2)"
      "send_queue_loop fuel v nx final s2 m2 = Ok (err, s', m')" by (auto simp: andThen_Ok_iff)
    have "thread_step v ?c1 = Ok (Holding nx final, s2, m2)" using True more by simp
    from thread_run_Suc [OF this Suc.IH [OF more(3)]] show ?thesis .
  next
    case False
    then show ?thesis
      by (intro thread_run_last) (use rest in \<open>cases ok; auto simp: andThen_Ok_iff\<close>)
  qed
  then show ?case by (rule thread_run_Suc [rotated]) (use view send in simp)
qed simp

lemma send_queued_steps:
  assumes "send_queued v s m = Ok (err, s', m')"
  shows "\<exists>n. thread_run n v (Popping, s, m) = Ok (Check err, s', m')"
proof -
  from assms obtain k first final q m2 where pop:
    "pop_all_timed (of_nat (sleep_interval div 1000)) (s_queue s) m = Ok (k, first, final, q, m2)"
    by (auto simp: send_queued_def andThen_Ok_iff)
  let ?s = "s\<lparr>s_queue := q\<rparr>"
  show ?thesis
  proof (cases "0 < k")
    case False
    then show ?thesis
      by (intro thread_run_last) (use assms pop in \<open>auto simp: send_queued_def Let_def split: if_splits prod.splits\<close>)
  next
    case True
    have two: "thread_step v (Popping, s, m) = Ok (Taken first final, ?s, m2)"
      using True pop by (simp add: Let_def)
    from assms pop True obtain ok s3 m3 where con: "sender_connect v ?s m2 = Ok (ok, s3, m3)"
      and rest: "(if ok then send_queue_loop (brk m3) v first final s3 m3
         else andThen (push_front_chain first final (s_queue s3) m3) (\<lambda>(n, q, m).
                Ok (True, s3\<lparr>s_queue := q\<rparr>, m))) = Ok (err, s', m')"
      by (auto simp: send_queued_def Let_def andThen_Ok_iff)
    have three: "thread_step v (Taken first final, ?s, m2) =
        Ok (if ok then Holding first final else Putback first final, s3, m3)" using con by simp
    have "\<exists>n. thread_run n v (if ok then Holding first final else Putback first final, s3, m3) =
        Ok (Check err, s', m')"
    proof (cases ok)
      case True
      with rest send_queue_loop_steps show ?thesis by simp
    next
      case False
      then show ?thesis by (intro thread_run_last) (use rest in \<open>auto simp: andThen_Ok_iff\<close>)
    qed
    from thread_run_Suc [OF two thread_run_Suc [OF three this]] show ?thesis .
  qed
qed

lemma send_files_loop_steps:
  "send_files_loop fuel v s m = Ok (ok, s', m') \<Longrightarrow>
     \<exists>n. thread_run n v (Reading, s, m) = Ok (Check (\<not> ok), s', m')"
proof (induction fuel arbitrary: s m)
  case (Suc fuel)
  from Suc.prems obtain e m1 where rd: "sys_readdir m = Ok (e, m1)" by (auto simp: andThen_Ok_iff)
  have "\<exists>n. thread_run n v (case e of None \<Rightarrow> Listed | Some d \<Rightarrow> Entered d, s, m1) = Ok (Check (\<not> ok), s', m')"
  proof (cases e)
    case None
    then show ?thesis by (intro thread_run_last) (use Suc.prems rd in auto)
  next
    case (Some d)
    with Suc.prems rd obtain ok1 s2 m2 where en: "send_entry v d s m1 = Ok (ok1, s2, m2)"
      and r: "(if ok1 then send_files_loop fuel v s2 m2 else Ok (False, s2, sys_closedir m2)) = Ok (ok, s', m')"
      by (auto simp: andThen_Ok_iff)
    show ?thesis
    proof (cases ok1)
      case True
      then have "thread_step v (Entered d, s, m1) = Ok (Reading, s2, m2)" using en by simp
      moreover have "send_files_loop fuel v s2 m2 = Ok (ok, s', m')" using r True by simp
      ultimately show ?thesis using thread_run_Suc Suc.IH Some by simp
    next
      case False
      with Some show ?thesis by (intro thread_run_last) (use en r in auto)
    qed
  qed
  then show ?case by (rule thread_run_Suc [rotated]) (use rd in simp)
qed simp

lemma send_files_steps:
  assumes "send_files v s m = Ok (ok, s', m')"
  shows "\<exists>n. thread_run n v (Connecting, s, m) = Ok (Check (\<not> ok), s', m')"
proof -
  from assms obtain ok1 s1 m1 where con: "sender_connect v s m = Ok (ok1, s1, m1)"
    and r: "(if ok1 then andThen (sys_opendir (s_dir s1) m1) (\<lambda>(dir, m).
         if dir then send_files_loop (length (replies m) + 1) v s1 m else Ok (False, s1, m))
       else Ok (False, s1, m1)) = Ok (ok, s', m')" by (auto simp: send_files_def andThen_Ok_iff)
  have one: "thread_step v (Connecting, s, m) = Ok (if ok1 then Opening else Check True, s1, m1)"
    using con by simp
  show ?thesis
  proof (cases ok1)
    case False
    then show ?thesis by (intro thread_run_last) (use one r in simp)
  next
    case True
    with r obtain dir m2 where od: "sys_opendir (s_dir s1) m1 = Ok (dir, m2)"
      and r2: "(if dir then send_files_loop (length (replies m2) + 1) v s1 m2 else Ok (False, s1, m2)) = Ok (ok, s', m')"
      by (auto simp: andThen_Ok_iff)
    have two: "thread_step v (Opening, s1, m1) = Ok (if dir then Reading else Check True, s1, m2)"
      using od by simp
    have "\<exists>n. thread_run n v (if dir then Reading else Check True, s1, m2) = Ok (Check (\<not> ok), s', m')"
    proof (cases dir)
      case False
      then have "thread_run 0 v (Check True, s1, m2) = Ok (Check (\<not> ok), s', m')" using r2 by simp
      then show ?thesis using False by (metis (full_types))
    qed (use r2 send_files_loop_steps in \<open>simp del: send_files_loop.simps\<close>)
    from thread_run_Suc [OF two this] thread_run_Suc [OF one] True show ?thesis by simp
  qed
qed

lemma run_round_steps:
  assumes "run_round v e s m = Ok (e', s', m')"
  shows "\<exists>n. thread_run n v (Begin e, s, m) = Ok (Check e', s', m')"
proof -
  from assms obtain e1 s1 m1 where rc: "reconnect v e s m = Ok (e1, s1, m1)"
    and r: "(if e1 then Ok (True, s1, m1)
       else if s_state s1 = Sending_queued_buffers then send_queued v s1 m1
       else andThen (send_files v s1 m1) (\<lambda>(ok, s, m). Ok (\<not> ok, s, m))) = Ok (e', s', m')"
    by (auto simp: run_round_def andThen_Ok_iff)
  have one: "thread_step v (Begin e, s, m) = Ok (if e1 then Check True else Ready, s1, m1)"
    using rc by simp
  show ?thesis
  proof (cases e1)
    case True
    then show ?thesis by (intro thread_run_last) (use one r in simp)
  next
    case False
    let ?c = "(if s_state s1 = Sending_queued_buffers then Popping else Connecting, s1, m1)"
    have "\<exists>n. thread_run n v ?c = Ok (Check e', s', m')"
    proof (cases "s_state s1 = Sending_queued_buffers")
      case True
      with r \<open>\<not> e1\<close> have "send_queued v s1 m1 = Ok (e', s', m')" by simp
      with True send_queued_steps show ?thesis by simp
    next
      case queue: False
      with r False obtain ok where "send_files v s1 m1 = Ok (ok, s', m')" "e' = (\<not> ok)"
        by (auto simp: andThen_Ok_iff)
      with queue send_files_steps show ?thesis by simp
    qed
    then have "\<exists>n. thread_run n v (Ready, s1, m1) = Ok (Check e', s', m')"
      by (rule thread_run_Suc [rotated]) simp
    with one False show ?thesis by (intro thread_run_Suc [OF one]) simp
  qed
qed

section \<open>The thread is a run of the steps\<close>

text \<open>Nothing the thread does changes \<open>_M_running\<close>.\<close>

lemma connect_running: "sender_connect (vtable_of ctx enc) s m = Ok (ok, s', m') \<Longrightarrow> s_running s' = s_running s"
  by (cases enc)
     (auto simp: sender_connect_def insecure_def secure_def connect_insecure_def connect_secure_def
       andThen_Ok_iff split: if_splits)

lemma disconnect_running: "v_disconnect (vtable_of ctx enc) s m = (s', m') \<Longrightarrow> s_running s' = s_running s"
  by (cases enc)
     (auto simp: insecure_def secure_def disconnect_insecure_def disconnect_secure_def split: prod.splits)

lemma send_running:
  assumes "sender_send (vtable_of ctx enc) b s m = Ok (ok, s', m')" shows "s_running s' = s_running s"
proof -
  let ?s = "s\<lparr>s_last := s_now s\<rparr>"
  from assms obtain k m1 where "(if k then Ok (True, ?s, m1)
      else let (s, m) = v_disconnect (vtable_of ctx enc) ?s m1 in Ok (False, s, m)) = Ok (ok, s', m')"
    by (auto simp: sender_send_def andThen_Ok_iff Let_def)
  then show ?thesis
    by (cases "v_disconnect (vtable_of ctx enc) ?s m1") (auto split: if_splits dest: disconnect_running)
qed

lemma put_running: "sender_put p s m = Ok (s', m') \<Longrightarrow> s_running s' = s_running s"
  by (auto simp: sender_put_def andThen_Ok_iff)

lemma file_running:
  assumes "send_file (vtable_of ctx enc) f n s m = Ok (ok, s', m')" shows "s_running s' = s_running s"
proof -
  from assms obtain fd m1 where "(if fd \<noteq> -1 then
         andThen (sys_mmap fd n m1) (\<lambda>(base, m).
           case base of
             Some bs \<Rightarrow>
               andThen (sender_send (vtable_of ctx enc) bs s m) (\<lambda>(ret, s, m).
                 Ok (ret, s, sys_close_file fd (sys_munmap n m)))
           | None \<Rightarrow> Ok (True, s, sys_close_file fd m))
       else Ok (True, s, m1)) = Ok (ok, s', m')" by (auto simp: send_file_def andThen_Ok_iff)
  then show ?thesis
    by (cases "fd = -1") (auto simp: andThen_Ok_iff split: option.splits dest: send_running)
qed

lemma entry_running:
  assumes "send_entry (vtable_of ctx enc) d s m = Ok (ok, s', m')" shows "s_running s' = s_running s"
proof (cases "d \<noteq> ''.'' \<and> d \<noteq> ''..''")
  case True
  let ?f = "formatted (PATH_MAX + 256) (s_dir s @ ''/'' @ d)"
  note run = assms [unfolded send_entry_def Let_def if_P [OF True]]
  obtain node m1 where st: "sys_stat ?f m = Ok (node, m1)" using run by (cases "sys_stat ?f m") auto
  from run have "(case node of
        Some (Reg bs) \<Rightarrow>
          andThen (send_file (vtable_of ctx enc) ?f (length bs) s m1) (\<lambda>(ok, s, m).
            if ok then andThen (sys_unlink ?f m) (\<lambda>m. Ok (True, s, m)) else Ok (False, s, m))
      | _ \<Rightarrow> Ok (True, s, m1)) = Ok (ok, s', m')" unfolding st andThen.simps prod.case .
  then show ?thesis
    by (auto simp: andThen_Ok_iff simp del: append.simps split: if_splits option.splits fnode.splits
        dest!: file_running)
qed (use assms in \<open>auto simp: send_entry_def\<close>)

lemma reconnect_running:
  "reconnect (vtable_of ctx enc) e s m = Ok (e', s', m') \<Longrightarrow> s_running s' = s_running s"
  by (auto simp: reconnect_def andThen_Ok_iff Let_def split: if_splits dest!: connect_running)

lemma thread_step_running:
  assumes "thread_step (vtable_of ctx enc) (ph, s, m) = Ok (ph', s', m')" and "ph \<noteq> Leaving"
  shows "s_running s' = s_running s"
proof (cases ph)
  case Popping
  let ?v = "vtable_of ctx enc"
  obtain x where pop: "pop_all_timed (of_nat (sleep_interval div 1000)) (s_queue s) m = Ok x"
    using assms(1) by (auto simp: Popping andThen_Ok_iff)
  obtain n f l q m1 where x: "x = (n, f, l, q, m1)" by (cases x)
  obtain s2 m2 where "v_disconnect ?v (s\<lparr>s_queue := q\<rparr>) m1 = (s2, m2)"
    by (cases "v_disconnect ?v (s\<lparr>s_queue := q\<rparr>) m1")
  with assms(1) pop disconnect_running [OF this] show ?thesis
    by (auto simp: Popping x Let_def split: if_splits)
qed (use assms in \<open>auto simp: andThen_Ok_iff split: if_splits
       dest: connect_running send_running put_running entry_running reconnect_running\<close>)

lemma thread_run_running:
  "thread_run n (vtable_of ctx enc) (ph, s, m) = Ok (ph', s', m') \<Longrightarrow> s_running s \<Longrightarrow>
     ph \<notin> {Leaving, Finished} \<Longrightarrow> s_running s' \<and> ph' \<notin> {Leaving, Finished}"
proof (induction n arbitrary: ph s m)
  case (Suc n)
  then obtain ph1 s1 m1 where st: "thread_step (vtable_of ctx enc) (ph, s, m) = Ok (ph1, s1, m1)"
    and rn: "thread_run n (vtable_of ctx enc) (ph1, s1, m1) = Ok (ph', s', m')"
    by (auto simp: andThen_Ok_iff)
  have "s_running s1" using thread_step_running [OF st] Suc.prems by simp
  moreover have "ph1 \<notin> {Leaving, Finished}"
    using st Suc.prems(2,3)
    by (cases ph) (auto simp: andThen_Ok_iff Let_def split: if_splits option.splits prod.splits)
  ultimately show ?case using Suc.IH [OF rn] by blast
qed simp

lemma run_round_running:
  "run_round (vtable_of ctx enc) e s m = Ok (e', s', m') \<Longrightarrow> s_running s \<Longrightarrow> s_running s'"
  using run_round_steps thread_run_running by blast

text \<open>Saving the queue does not look at \<open>_M_running\<close>.\<close>

lemma put_stopped:
  "sender_put p s m = Ok (s', m') \<Longrightarrow> sender_put p (s\<lparr>s_running := b\<rparr>) m = Ok (s'\<lparr>s_running := b\<rparr>, m')"
  by (auto simp: sender_put_def andThen_Ok_iff)

lemma save_buffers_loop_stopped:
  "save_buffers_loop r c f l s m = Ok (ret, s', m') \<Longrightarrow>
     save_buffers_loop r c f l (s\<lparr>s_running := b\<rparr>) m = Ok (ret, s'\<lparr>s_running := b\<rparr>, m')"
proof (induction r c f l s m rule: save_buffers_loop.induct)
  case (1 r c f l s m)
  have sv: "save_buffer f c (s\<lparr>s_running := b\<rparr>) m = save_buffer f c s m" by (simp add: save_buffer_def)
  note unf = save_buffers_loop.simps [of r c f l "s\<lparr>s_running := b\<rparr>"] sv
  from 1(3) show ?case
  proof (cases rule: save_buffers_loop_cases)
    case (more c1 m1 nx s2 m2)
    with 1(1) [OF more(1) refl refl _ more(2,3,4) refl more(5)] put_stopped [OF more(4)] show ?thesis
      by (simp add: unf)
  next
    case (last c1 m1)
    with put_stopped [OF last(3)] show ?thesis
      by (simp add: unf [unfolded last(2)])
  next
    case (again c1 m1 s2 m2)
    with 1(2) [OF again(1) refl refl _ again(2) refl again(3)] put_stopped [OF again(2)] show ?thesis
      by (simp add: unf)
  qed
qed

lemma save_buffers_stopped:
  assumes "save_buffers s m = Ok (ret, s', m')"
  shows "save_buffers (s\<lparr>s_running := b\<rparr>) m = Ok (ret, s'\<lparr>s_running := b\<rparr>, m')"
proof -
  have upd: "s\<lparr>s_running := b, s_queue := q\<rparr> = s\<lparr>s_queue := q, s_running := b\<rparr>" for q by simp
  from assms obtain n f l q m1 where "pop_all (s_queue s) m = Ok (n, f, l, q, m1)"
    by (auto simp: save_buffers_def andThen_Ok_iff)
  with assms save_buffers_loop_stopped [of True 0 f l "s\<lparr>s_queue := q\<rparr>" m1 ret s' m' b] show ?thesis
    by (auto simp: save_buffers_def Let_def upd split: if_splits)
qed

text \<open>
  C19: the thread, from the start of its loop to its end, is a run of the small steps, in which
  \<open>stop\<close> clears \<open>_M_running\<close> once: whatever \<open>run\<close> does when it reads true \<open>k\<close> times and false then,
  the steps do, one after the other, as long as \<open>_M_running\<close> is set up to the condition of the loop
  and clear from there to the end.
\<close>

theorem sender_run_steps:
  assumes "sender_run (replicate k True @ [False]) (vtable_of ctx enc) s m = Ok (s', m')" and "s_running s"
  shows "\<exists>i e s1 m1 j. thread_run i (vtable_of ctx enc) (Begin False, s, m) = Ok (Check e, s1, m1) \<and> s_running s1 \<and>
           thread_run j (vtable_of ctx enc) (Check e, s1\<lparr>s_running := False\<rparr>, m1) =
             Ok (Finished, s'\<lparr>s_running := False\<rparr>, m')"
proof -
  let ?v = "vtable_of ctx enc"
  have loop: "\<exists>e1. (\<exists>n. thread_run n ?v (Begin e, s, m) = Ok (Check e1, s1, m1)) \<and> s_running s1"
    if "run_loop (replicate k True @ [False]) ?v e s m = Ok (s1, m1)" "s_running s" for k e s m s1 m1
    using that
  proof (induction k arbitrary: e s m)
    case 0
    then obtain e1 where "run_round ?v e s m = Ok (e1, s1, m1)" by (auto simp: andThen_Ok_iff)
    with 0 run_round_steps run_round_running show ?case by blast
  next
    case (Suc k)
    then obtain e1 s2 m2 where rd: "run_round ?v e s m = Ok (e1, s2, m2)"
      and rest: "run_loop (replicate k True @ [False]) ?v e1 s2 m2 = Ok (s1, m1)" by (auto simp: andThen_Ok_iff)
    note on = run_round_running [OF rd Suc.prems(2)]
    from Suc.IH [OF rest on] obtain e2 where "\<exists>n. thread_run n ?v (Begin e1, s2, m2) = Ok (Check e2, s1, m1)"
      "s_running s1" by blast
    moreover from this(1) have "\<exists>n. thread_run n ?v (Check e1, s2, m2) = Ok (Check e2, s1, m1)"
      by (rule thread_run_Suc [rotated]) (simp add: on)
    ultimately show ?case using thread_run_trans [OF run_round_steps [OF rd]] by blast
  qed
  from assms(1) obtain s1 m1 ret where rl: "run_loop (replicate k True @ [False]) ?v False s m = Ok (s1, m1)"
    and sv: "save_buffers s1 m1 = Ok (ret, s', m')" by (auto simp: sender_run_def andThen_Ok_iff)
  from loop [OF rl assms(2)] obtain e i where
    "thread_run i ?v (Begin False, s, m) = Ok (Check e, s1, m1)" "s_running s1" by blast
  moreover have "thread_run 2 ?v (Check e, s1\<lparr>s_running := False\<rparr>, m1) =
      Ok (Finished, s'\<lparr>s_running := False\<rparr>, m')"
    using save_buffers_stopped [OF sv, of False] by (simp add: numeral_2_eq_2)
  ultimately show ?thesis by blast
qed

text \<open>
  A life of two rounds: two buffers are sent in the first, the second finds the queue empty
  until the timeout.
\<close>

theorem sender_run_steps_witness:
  "\<exists>i e s1 m1 j s' m'. thread_run i insecure
     (Begin False, sample_online\<lparr>s_running := True\<rparr>,
      sample\<lparr>replies := [Ret 7, Err EAGAIN, Ret 2, Err EAGAIN, Ret 1, Ret 8, Ret 8, TimedOut []]\<rparr>) =
       Ok (Check e, s1, m1) \<and>
     thread_run j insecure (Check e, s1\<lparr>s_running := False\<rparr>, m1) = Ok (Finished, s'\<lparr>s_running := False\<rparr>, m') \<and>
     s_last s' = 7 \<and> s_now s' = 8 \<and> buffers.count (s_queue s') = 0"
proof -
  let ?s = "sample_online\<lparr>s_running := True\<rparr>"
  let ?m = "sample\<lparr>replies := [Ret 7, Err EAGAIN, Ret 2, Err EAGAIN, Ret 1, Ret 8, Ret 8, TimedOut []]\<rparr>"
  obtain s' m' where run: "sender_run (replicate 1 True @ [False]) (vtable_of 0 Enc_no) ?s ?m = Ok (s', m')"
    and s': "s_last s' = 7" "s_now s' = 8" "buffers.count (s_queue s') = 0"
    by (simp cong: andThen_weak_cong
        add: sender_run_def run_round_def reconnect_def sys_time_def send_run_simps sample_online_defs
          save_buffers_def pop_all_def sys_gettimeofday_def deadline_def pop_all_wait.simps cond_timedwait_def
          idle_timeout_def)
  have "s_running ?s" by simp
  from sender_run_steps [OF run this] s' show ?thesis unfolding vtable_of.simps by blast
qed

end
