(* ===== verification/Ledger.thy ===== *)
theory Ledger
  imports Threads
begin

text \<open>
  What the steps of the thread do, stated over a ledger: the lists of the buffers that the thread
  holds, that are queued and that are free. Every step keeps the connection, the contents of the
  buffers, the bytes on the connection and the files in order.
\<close>

section \<open>The ledger\<close>

text \<open>The buffers the thread holds, those in the queue, and those in the free list, in order.\<close>

type_synonym ledger = "ptr list \<times> ptr list \<times> ptr list"

datatype event =
  Give "ptr list" | Take | Release ptr | Return | Refill "ptr list" | Get ptr | Fill ptr | Spill | Reuse

text \<open>
  The abstract machine: producers give buffers to the queue, the thread takes the whole queue,
  releases the buffers it has sent one by one, or returns those it could not send; producers get
  free buffers and fill their own, and a full queue is spilled to files. A buffer is in one place
  at a time. A thread that returns a buffer to the free list and goes on with it (\<open>Reuse\<close>), as one
  does that could not save it, leaves the abstract machine.
\<close>

fun effect :: "event \<Rightarrow> ledger \<Rightarrow> ledger option" where
  "effect (Give zs) (hs, xs, ys) =
     (if distinct zs \<and> set zs \<inter> set (hs @ xs @ ys) = {} then Some (hs, xs @ zs, ys) else None)"
| "effect Take (hs, xs, ys) = (if hs = [] \<and> xs \<noteq> [] then Some (xs, [], ys) else None)"
| "effect (Release p) (hs, xs, ys) =
     (if hs \<noteq> [] \<and> hd hs = p then Some (tl hs, xs, p # ys) else None)"
| "effect Return (hs, xs, ys) = (if hs \<noteq> [] then Some ([], hs @ xs, ys) else None)"
| "effect (Refill zs) (hs, xs, ys) =
     (if ys = [] \<and> distinct zs \<and> set zs \<inter> set (hs @ xs) = {} then Some (hs, xs, zs) else None)"
| "effect (Get p) (hs, xs, ys) =
     (if ys \<noteq> [] \<and> hd ys = p then Some (hs, xs, tl ys) else None)"
| "effect (Fill p) (hs, xs, ys) = (if p \<notin> set (hs @ xs @ ys) then Some (hs, xs, ys) else None)"
| "effect Spill (hs, xs, ys) = Some (hs, [], rev xs @ ys)"
| "effect Reuse (hs, xs, ys) = None"

fun effects :: "event list \<Rightarrow> ledger \<Rightarrow> ledger option" where
  "effects [] L = Some L"
| "effects (e # es) L = Option.bind (effect e L) (effects es)"

lemma effects_append: "effects (es @ fs) L = Option.bind (effects es L) (effects fs)"
  by (induction es arbitrary: L) (auto simp: bind_assoc split: Option.bind_splits)

text \<open>The buffers given, filled and made, in the order of the events.\<close>

fun given :: "event list \<Rightarrow> ptr list" where
  "given [] = []"
| "given (Give zs # es) = zs @ given es"
| "given (_ # es) = given es"

fun filled :: "event list \<Rightarrow> ptr list" where
  "filled [] = []"
| "filled (Fill p # es) = p # filled es"
| "filled (_ # es) = filled es"

fun refilled_by :: "event list \<Rightarrow> ptr list" where
  "refilled_by [] = []"
| "refilled_by (Refill zs # es) = zs @ refilled_by es"
| "refilled_by (_ # es) = refilled_by es"

text \<open>What the ledger says of a configuration.\<close>

fun held :: "thread \<Rightarrow> (ptr \<times> ptr) option" where
  "held (Taken f l) = Some (f, l)"
| "held (Holding f l) = Some (f, l)"
| "held (Sent f l) = Some (f, l)"
| "held (Putback f l) = Some (f, l)"
| "held _ = None"

fun owns :: "conf \<Rightarrow> ledger \<Rightarrow> bool" where
  "owns (ph, s, m) (hs, xs, ys) \<longleftrightarrow>
     sender_ok m s xs ys \<and> small_files m \<and>
     (case held ph of
        None \<Rightarrow> hs = []
      | Some (f, l) \<Rightarrow> own_chain m (s_queue s) xs f hs l \<and> set hs \<inter> set ys = {} \<and> sendable m hs)"

text \<open>While the thread sends, there is a connection.\<close>

fun online :: "vtable \<Rightarrow> conf \<Rightarrow> bool" where
  "online v (Holding f l, s, m) = v_connected v s"
| "online v (Sent f l, s, m) = v_connected v s"
| "online v (Opening, s, m) = v_connected v s"
| "online v (Reading, s, m) = v_connected v s"
| "online v (Entered d, s, m) = v_connected v s"
| "online v c = True"

lemma owns_to_send:
  assumes "owns (ph, s, m) (hs, xs, ys)" and "held ph = Some (f, l)"
  shows "to_send m s f hs l xs ys" and "queue_ok m" and "sendable m xs" and "small_files m"
  using assms by (simp_all add: sender_ok_def queue_ok_def to_send_def)

lemma owns_held:
  assumes "to_send m s f hs l xs ys" and "queue_ok m" and "sendable m xs" and "small_files m"
    and "held ph = Some (f, l)"
  shows "owns (ph, s, m) (hs, xs, ys)"
  using assms by (simp add: sender_ok_def queue_ok_def to_send_def)

text \<open>A step that leaves memory alone and at most removes files keeps the ledger.\<close>

lemma small_files_removed:
  "small_files m \<Longrightarrow> \<forall>g. files m' g = files m g \<or> files m' g = None \<Longrightarrow> small_files m'"
  unfolding small_files_def by (metis option.distinct(1))

lemma sender_ok_same_mem:
  assumes "same_mem m m'" and "s_queue s' = s_queue s" and "s_alloc s' = s_alloc s"
  shows "sender_ok m' s' xs ys = sender_ok m s xs ys" and "sendable m' zs = sendable m zs"
proof -
  note mem = same_mem_views [OF assms(1)]
  show "sendable m' zs = sendable m zs" for zs by (rule sendable_cong) (simp add: mem)
  then show "sender_ok m' s' xs ys = sender_ok m s xs ys" by (simp add: sender_ok_def queue_ok_def mem assms)
qed

lemma owns_kept:
  assumes "owns (ph, s, m) L" and "same_mem m m'" and "s_queue s' = s_queue s" and "s_alloc s' = s_alloc s"
    and "\<forall>g. files m' g = files m g \<or> files m' g = None" and "held ph' = held ph"
  shows "owns (ph', s', m') L"
proof -
  obtain hs xs ys where L: "L = (hs, xs, ys)" by (cases L)
  from assms(1) have "small_files m" by (simp add: L)
  then have "small_files m'" by (rule small_files_removed [OF _ assms(5)])
  with assms(1,6) show ?thesis
    by (cases "held ph")
       (auto simp: L sender_ok_same_mem [OF assms(2-4)] same_mem_views(7) [OF assms(2)] assms(3))
qed

text \<open>A holder returns its first buffer to the allocator.\<close>

lemma release_ledger:
  assumes "owns (ph, s, m) (hs, xs, ys)" and "held ph = Some (f, l)"
  shows "\<exists>a m' hs'. hs = f # hs' \<and> sender_put f s m = Ok (s\<lparr>s_alloc := a\<rparr>, m') \<and> (f = l \<longleftrightarrow> hs' = []) \<and>
           (hs' \<noteq> [] \<longrightarrow> get_next f m = Ok (hd hs')) \<and> trace m' = trace m \<and> relinked {f} m m' \<and>
           (\<forall>ph'. held ph' = (if hs' = [] then None else Some (hd hs', l)) \<longrightarrow>
              owns (ph', s\<lparr>s_alloc := a\<rparr>, m') (hs', xs, f # ys))"
proof -
  note ow = owns_to_send [OF assms]
  then have "hs \<noteq> []" by (simp add: to_send_def own_chain_def)
  then obtain x hs' where hs: "hs = x # hs'" by (cases hs) auto
  from to_send_put [OF ow(1) [unfolded hs]] obtain a m' where
    put: "f = x" "sender_put f s m = Ok (s\<lparr>s_alloc := a\<rparr>, m')" "free_list m' a (x # ys)"
      "relinked {x} m m'" "trace m' = trace m" "x = l \<longleftrightarrow> hs' = []"
    and more: "hs' \<noteq> [] \<Longrightarrow> get_next f m = Ok (hd hs') \<and>
      to_send m' (s\<lparr>s_alloc := a\<rparr>) (hd hs') hs' l xs (x # ys)" by blast
  let ?s = "s\<lparr>s_alloc := a\<rparr>"
  note rl = relinked_fields [OF put(4)]
  have ok: "queue_ok m'" "sendable m' xs" "small_files m'"
    using ow(2-4) queue_ok_relinked [OF _ put(4)] sendable_cong [of m' m] relinked_view [OF put(4)] rl
    by (auto simp: small_files_def)
  have "owns (ph', ?s, m') (hs', xs, f # ys)"
    if "held ph' = (if hs' = [] then None else Some (hd hs', l))" for ph'
  proof (cases "hs' = []")
    case True
    have q: "queue_list m (s_queue s) xs" "x \<notin> set (header (s_queue s) # xs)" "x \<notin> set ys"
      "set (header (s_queue s) # xs) \<inter> set ys = {}"
      using ow(1) by (auto simp: to_send_def own_chain_def hs)
    have "queue_list m' (s_queue s) xs" by (rule queue_list_relinked [OF q(1) put(4)]) (use q(2) in auto)
    then show ?thesis using True that ok put(1,3) q by (simp add: sender_ok_def)
  next
    case False
    have "to_send m' ?s (hd hs') hs' l xs (f # ys)" using more [OF False] put(1) by simp
    from owns_held [OF this ok] that False show ?thesis by simp
  qed
  with put more hs show ?thesis by blast
qed

lemma owns_undisturbed:
  assumes "owns (ph, s, m) L" and "undisturbed m m'" and "conn_only s0 s'"
    and "s_queue s0 = s_queue s" and "s_alloc s0 = s_alloc s" and "held ph' = held ph"
  shows "owns (ph', s', m') L"
  using assms(2-6) conn_only_fields [OF assms(3)]
  by (intro owns_kept [OF assms(1)]) (simp_all add: undisturbed_def)

text \<open>The buffer a step of the thread sends completely, and its content.\<close>

fun ships :: "thread \<Rightarrow> thread \<Rightarrow> ptr list" where
  "ships (Holding f l) (Sent f' l') = [f]"
| "ships _ _ = []"

definition shipped :: "conf \<Rightarrow> conf \<Rightarrow> byte list list" where
  "shipped c c' = map (content (mach c)) (ships (fst c) (fst c'))"

text \<open>The thread is at an entry of the directory.\<close>

fun at_entry :: "thread \<Rightarrow> bool" where
  "at_entry (Entered d) = True"
| "at_entry _ = False"

lemma ships_at_entry [simp]: "at_entry ph \<Longrightarrow> ships ph ph' = []"
  by (cases ph) simp_all

lemma host_only_later: "host_only m m' \<Longrightarrow> later m m'"
  by (auto simp: host_only_def later_def)

lemma file_step_undisturbed: "file_step m m' \<Longrightarrow> files m' = files m \<Longrightarrow> undisturbed m m'"
  by (simp add: file_step_def undisturbed_def)

section \<open>What each step keeps\<close>

text \<open>
  A step touches only the header of the queue, the buffers of the ledger, and those its label says
  producers give or fill, or push while the thread waits; what it takes from \<open>malloc\<close> is new.
\<close>

definition touched :: "event list \<Rightarrow> conf \<Rightarrow> ptr set" where
  "touched es c = set (given es) \<union> set (filled es) \<union> (if fst c = Popping then pushed_in (replies (mach c)) else {})"

definition untouched :: "event list \<Rightarrow> conf \<Rightarrow> ledger \<Rightarrow> conf \<Rightarrow> bool" where
  "untouched es c L c' \<longleftrightarrow>
     header (s_queue (obj c')) = header (s_queue (obj c)) \<and>
     (\<forall>p. cells (mach c) p \<noteq> None \<and> p \<noteq> header (s_queue (obj c)) \<and>
          p \<notin> set (fst L @ fst (snd L) @ snd (snd L)) \<and> p \<notin> touched es c \<longrightarrow>
        cells (mach c') p = cells (mach c) p \<and> view p (mach c') = view p (mach c)) \<and>
     (\<forall>p \<in> set (refilled_by es). cells (mach c) p = None)"

lemma untouched_same_mem:
  assumes "same_mem m m'" and "header (s_queue s') = header (s_queue s)" and "refilled_by es = []"
  shows "untouched es (ph, s, m) L (ph', s', m')"
  using assms view_same_mem [OF assms(1)] by (simp add: untouched_def same_mem_def)

lemma untouched_shuffled:
  assumes "shuffled A m m'" and "header (s_queue s') = header (s_queue s)" and "refilled_by es = []"
    and "A \<subseteq> insert (header (s_queue s)) (set (hs @ xs @ ys) \<union> touched es (ph, s, m))"
  shows "untouched es (ph, s, m) (hs, xs, ys) (ph', s', m')"
  using assms shuffled_view [OF assms(1)] by (auto simp: untouched_def shuffled_def)

lemmas untouched_relinked = untouched_shuffled [OF shuffled_relinked]

context transport
begin

text \<open>
  A file that is there with its content stays so, or the thread has dealt with it: it has sent it
  all, or could not read it.
\<close>

definition file_fate :: "conf \<Rightarrow> conf \<Rightarrow> bool" where
  "file_fate c c' \<longleftrightarrow> (\<forall>f bs. files (mach c) f = Some (Reg bs) \<longrightarrow>
     files (mach c') f = Some (Reg bs) \<or>
     at_entry (fst c) \<and> (out (obj c) (mach c') = out (obj c) (mach c) @ bs \<or> unreadable f (mach c')))"

text \<open>At an entry of the directory, while the connection lasts, nothing is sent or all of a file.\<close>

definition carries :: "conf \<Rightarrow> conf \<Rightarrow> bool" where
  "carries c c' \<longleftrightarrow>
     (v_connected v (obj c) \<and> v_connected v (obj c') \<and> at_entry (fst c) \<longrightarrow>
        out (obj c') (mach c') = out (obj c) (mach c) \<or>
        (\<exists>f bs. files (mach c) f = Some (Reg bs) \<and> out (obj c') (mach c') = out (obj c) (mach c) @ bs))"

text \<open>
  A step with the label \<open>es\<close> from \<open>c\<close>, whose ledger is \<open>L\<close>, to \<open>c'\<close> keeps the connection in order
  and leaks nothing; the held and the queued buffers keep their content; while the connection
  lasts, what is sent is on it; files change only as they may.
\<close>

definition sound :: "event list \<Rightarrow> conf \<Rightarrow> ledger \<Rightarrow> conf \<Rightarrow> bool" where
  "sound es c L c' \<longleftrightarrow>
     inv (obj c') \<and> online v c' \<and> res (obj c') (mach c') = res (obj c) (mach c) \<and>
     later (mach c) (mach c') \<and>
     (\<forall>p \<in> set (fst L @ fst (snd L)). view p (mach c') = view p (mach c)) \<and>
     (v_connected v (obj c) \<and> v_connected v (obj c') \<and> \<not> at_entry (fst c) \<longrightarrow>
        out (obj c') (mach c') = out (obj c) (mach c) @ concat (shipped c c')) \<and>
     carries c c' \<and> file_fate c c' \<and> untouched es c L c' \<and>
     (Spill \<notin> set es \<and> \<not> at_entry (fst c) \<longrightarrow> files (mach c') = files (mach c)) \<and>
     (Spill \<notin> set es \<and> fst c \<noteq> Listed \<longrightarrow> s_state (obj c') = s_state (obj c))"

lemma sound_keeps:
  assumes "sound es c L c'"
  shows "inv (obj c')" "online v c'" "res (obj c') (mach c') = res (obj c) (mach c)"
  using assms by (simp_all add: sound_def)

lemma sound_undisturbed:
  assumes "undisturbed m m'" and "inv s'" and "online v (ph', s', m')" and "res s' m' = res s m"
    and "v_connected v s \<longrightarrow> v_connected v s' \<longrightarrow> out s' m' = out s m @ concat (shipped (ph, s, m) (ph', s', m'))"
    and "ph \<noteq> Listed \<longrightarrow> s_state s' = s_state s" and "s_queue s' = s_queue s"
  shows "sound [] (ph, s, m) L (ph', s', m')"
  using assms view_same_mem [of m m'] untouched_same_mem [of m m' s' s "[]" ph L ph']
  by (auto simp: sound_def undisturbed_def file_fate_def carries_def shipped_def)

text \<open>A step that changes nothing the sender owns but its connection.\<close>

lemma step_undisturbed:
  assumes "owns (ph, s, m) L" and "undisturbed m m'" and "conn_only s0 s'"
    and "s_queue s0 = s_queue s" and "s_alloc s0 = s_alloc s" and "s_state s0 = s_state s" and "held ph' = held ph"
    and "inv s'" and "online v (ph', s', m')" and "res s' m' = res s m"
    and "v_connected v s \<longrightarrow> v_connected v s' \<longrightarrow> out s' m' = out s m @ concat (shipped (ph, s, m) (ph', s', m'))"
  shows "owns (ph', s', m') L \<and> sound [] (ph, s, m) L (ph', s', m')"
proof
  show "owns (ph', s', m') L" by (rule owns_undisturbed [OF assms(1-5,7)])
  have "s_state s' = s_state s" "s_queue s' = s_queue s" using conn_only_fields [OF assms(3)] assms(4,6) by simp_all
  with assms show "sound [] (ph, s, m) L (ph', s', m')" by (intro sound_undisturbed) simp_all
qed

lemma begin_step:
  assumes "owns (Begin e, s, m) L" and "inv s"
  shows "wp (thread_step v (Begin e, s, m)) (\<lambda>c. owns c L \<and> sound [] (Begin e, s, m) L c)"
  unfolding thread_step.simps
proof (rule wp_step [OF reconnect_spec [OF assms(2)]], goal_cases)
  case (1 x)
  then obtain e' s' m' where x: "x = (e', s', m')" and r: "inv s'" "conn_only (s\<lparr>s_now := s_now s'\<rparr>) s'"
    "undisturbed m m'" "res s' m' = res s m" "v_connected v s \<longrightarrow> out s' m' = out s m" by (cases x) auto
  have "owns (if e' then Check True else Ready, s', m') L \<and>
      sound [] (Begin e, s, m) L (if e' then Check True else Ready, s', m')"
    by (rule step_undisturbed [OF assms(1) r(3,2)]) (use r in \<open>simp_all add: shipped_def\<close>)
  then show ?case by (simp add: x)
qed

text \<open>The step to a connection, with buffers or for the files.\<close>

lemma connect_step:
  assumes "owns (ph, s, m) L" and "inv s" and "held ph1 = held ph" and "held ph2 = held ph"
    and "\<And>s' m'. v_connected v s' \<Longrightarrow> online v (ph1, s', m')" and "\<And>s' m'. online v (ph2, s', m')"
    and "\<And>x. ships ph x = []"
  shows "wp (andThen (sender_connect v s m) (\<lambda>(ok, s, m). Ok (if ok then ph1 else ph2, s, m)))
           (\<lambda>c. owns c L \<and> sound [] (ph, s, m) L c)"
proof (rule wp_step [OF connect_spec [OF assms(2)]], goal_cases)
  case (1 x)
  then obtain ok s' m' where x: "x = (ok, s', m')" and r: "inv s'" "v_connected v s' = ok" "conn_only s s'"
    "undisturbed m m'" "res s' m' = res s m" "v_connected v s \<longrightarrow> s' = s \<and> m' = m" by (cases x) auto
  have "owns (if ok then ph1 else ph2, s', m') L \<and> sound [] (ph, s, m) L (if ok then ph1 else ph2, s', m')"
    by (rule step_undisturbed [OF assms(1) r(4,3)]) (use r assms in \<open>auto simp: shipped_def\<close>)
  then show ?case by (simp add: x)
qed

text \<open>Steps that only call the file system.\<close>

lemma file_call_step:
  assumes "owns (ph, s, m) L" and "inv s" and "held ph' = held ph" and "online v (ph', s, m')"
    and "file_step m m'" and "files m' = files m" and "ships ph ph' = []"
  shows "owns (ph', s, m') L \<and> sound [] (ph, s, m) L (ph', s, m')"
  by (rule step_undisturbed [OF assms(1) file_step_undisturbed [OF assms(5,6)] conn_only_refl(1)])
     (use assms file_step_res [OF assms(5)] file_step_out [OF assms(5)] in \<open>simp_all add: shipped_def\<close>)

lemma closedir_file_step: "file_step m (sys_closedir m)" "files (sys_closedir m) = files m"
  using file_step_note by (simp_all add: sys_closedir_def)

lemma opening_step:
  assumes "owns (Opening, s, m) L" and "inv s" and "online v (Opening, s, m)"
  shows "wp (thread_step v (Opening, s, m)) (\<lambda>c. owns c L \<and> sound [] (Opening, s, m) L c)"
proof -
  have od: "wp (sys_opendir (s_dir s) m) (\<lambda>(dir, m'). file_step m m' \<and> files m' = files m)"
    by (auto simp: sys_opendir_def file_step_syscall)
  show ?thesis
    unfolding thread_step.simps
  proof (rule wp_step [OF od], goal_cases)
    case (1 x)
    then obtain dir m' where x: "x = (dir, m')" "file_step m m'" "files m' = files m" by (cases x) auto
    have "owns (ph', s, m') L \<and> sound [] (Opening, s, m) L (ph', s, m')" if "ph' = Reading \<or> ph' = Check True" for ph'
      by (rule file_call_step [OF assms(1,2)]) (use that x assms(3) in auto)
    then show ?case by (simp add: x(1))
  qed
qed

lemma reading_step:
  assumes "owns (Reading, s, m) L" and "inv s" and "online v (Reading, s, m)"
  shows "wp (thread_step v (Reading, s, m)) (\<lambda>c. owns c L \<and> sound [] (Reading, s, m) L c)"
proof -
  have rd: "wp (sys_readdir m) (\<lambda>(e, m'). file_step m m' \<and> files m' = files m)"
    by (auto simp: sys_readdir_def file_step_syscall)
  show ?thesis
    unfolding thread_step.simps
  proof (rule wp_step [OF rd], goal_cases)
    case (1 x)
    then obtain e m' where x: "x = (e, m')" "file_step m m'" "files m' = files m" by (cases x) auto
    have "owns (ph', s, m') L \<and> sound [] (Reading, s, m) L (ph', s, m')"
      if "ph' = Listed \<or> (\<exists>d. ph' = Entered d)" for ph'
      by (rule file_call_step [OF assms(1,2)]) (use that x assms(3) in auto)
    then show ?case by (cases e) (simp_all add: x(1))
  qed
qed

lemma entered_step:
  assumes "owns (Entered d, s, m) L" and "inv s" and "online v (Entered d, s, m)"
  shows "wp (thread_step v (Entered d, s, m)) (\<lambda>c. owns c L \<and> sound [] (Entered d, s, m) L c)"
proof -
  have small: "small_files m" using assms(1) by (cases L) simp
  have con: "v_connected v s" using assms(3) by simp
  show ?thesis
    unfolding thread_step.simps
  proof (rule wp_step [OF send_entry_spec [OF assms(2) con small]], goal_cases)
    case (1 x)
    obtain ok s' m1 where x: "x = (ok, s', m1)" by (cases x)
    from 1 [unfolded x prod.case] obtain k f bs where r: "inv s'" "v_connected v s' = ok" "conn_only s s'"
      "res s' m1 = res s m" "same_mem m m1" "later m m1" "out s m1 = out s m @ take k bs"
      and last: "ok \<longrightarrow> s' = s \<or> s' = s\<lparr>s_last := s_now s\<rparr>"
      and fl: "if ok then files m1 = files m \<and> k = 0 \<or> files m f = Some (Reg bs) \<and>
          (files m1 = files m \<or> files m1 = (files m)(f := None)) \<and>
          (take k bs = bs \<or> k = 0 \<and> unreadable f m1) else files m1 = files m" by blast
    define m' where "m' = (if ok then m1 else sys_closedir m1)"
    define ph' where "ph' = (if ok then Reading else Check True)"
    have st: "file_step m1 m'" "files m' = files m1"
      using closedir_file_step by (simp_all add: m'_def)
    have mem: "same_mem m m'" "later m m'" "out s m' = out s m @ take k bs" "res s' m' = res s m"
      using r st(1) file_step_out [OF st(1)] file_step_res [OF st(1)]
      by (auto simp: file_step_def intro: same_mem_trans later_trans)
    have un: "unreadable f m1 \<Longrightarrow> unreadable f m'" using st(1) by (simp add: file_step_def unreadable_later)
    note fl' = fl [folded st(2)]
    have gone: "\<forall>g. files m' g = files m g \<or> files m' g = None" using fl' by (auto split: if_splits)
    have "file_fate (Entered d, s, m) (ph', s', m')"
      using fl' mem(3) un by (auto simp: file_fate_def split: if_splits)
    moreover have "carries (Entered d, s, m) (ph', s', m')"
    proof (cases ok)
      case True
      with fl have "k = 0 \<or> files m f = Some (Reg bs) \<and> take k bs = bs" by auto
      moreover have "out s' m' = out s m'" using last True by auto
      ultimately show ?thesis using mem(3) by (auto simp: carries_def)
    qed (use r(2) in \<open>simp add: carries_def\<close>)
    ultimately have "sound [] (Entered d, s, m) L (ph', s', m')"
      using r mem view_same_mem [OF mem(1)] untouched_same_mem [OF mem(1)] conn_only_fields [OF r(3)]
      by (simp add: sound_def ph'_def)
    moreover have "owns (ph', s', m') L"
      using conn_only_fields [OF r(3)] by (intro owns_kept [OF assms(1) mem(1) _ _ gone]) (simp_all add: ph'_def)
    ultimately show ?case by (cases ok) (simp_all add: x m'_def ph'_def)
  qed
qed

lemma send_step:
  assumes "owns (Holding f l, s, m) L" and "inv s" and "online v (Holding f l, s, m)"
  shows "wp (thread_step v (Holding f l, s, m)) (\<lambda>c. owns c L \<and> sound [] (Holding f l, s, m) L c)"
proof -
  obtain hs xs ys where L: "L = (hs, xs, ys)" by (cases L)
  from owns_to_send(1) [OF assms(1) [unfolded L]] have ts: "to_send m s f hs l xs ys" by simp
  then have ne: "hs \<noteq> []" and send: "sendable m hs" by (auto simp: to_send_def own_chain_def)
  with ts have "f = hd hs" using to_send_put [of m s f "hd hs" "tl hs"] by auto
  with ne send have d: "view f m = Ok (content m f)" "length (content m f) < 2 ^ 31"
    by (simp_all add: sendable_def)
  have con: "v_connected v s" using assms(3) by simp
  have "wp (andThen (sender_send v (content m f) s m) (\<lambda>(ok, s, m).
       Ok (if ok then Sent f l else Putback f l, s, m))) (\<lambda>c. owns c L \<and> sound [] (Holding f l, s, m) L c)"
  proof (rule wp_step [OF send_spec [OF assms(2) con d(2)]], goal_cases)
    case (1 x)
    then obtain ok s' m' k where x: "x = (ok, s', m')" and r: "inv s'" "v_connected v s' = ok" "conn_only s s'"
      "undisturbed m m'" "res s' m' = res s m" "ok \<longrightarrow> s' = s\<lparr>s_last := s_now s\<rparr>"
      "out s m' = out s m @ take k (content m f)" "ok \<longrightarrow> k = length (content m f)" by (cases x) auto
    have "owns (if ok then Sent f l else Putback f l, s', m') L \<and>
        sound [] (Holding f l, s, m) L (if ok then Sent f l else Putback f l, s', m')"
      by (rule step_undisturbed [OF assms(1) r(4,3)]) (use r in \<open>auto simp: shipped_def\<close>)
    then show ?case by (simp add: x)
  qed
  with d(1) show ?thesis by simp
qed

text \<open>The steps of the thread that move no buffer.\<close>

lemma quiet_step:
  assumes "owns (ph, s, m) L" and "inv s" and "online v (ph, s, m)"
    and "ph \<noteq> Popping" and "ph \<noteq> Leaving" and "\<And>f l. ph \<noteq> Sent f l" and "\<And>f l. ph \<noteq> Putback f l"
  shows "wp (thread_step v (ph, s, m)) (\<lambda>c. owns c L \<and> sound [] (ph, s, m) L c)"
proof -
  note idle = step_undisturbed [OF assms(1) undisturbed_refl conn_only_refl(1) refl refl refl _ assms(2)]
  show ?thesis
  proof (cases ph)
    case (Begin e)
    with begin_step assms show ?thesis by blast
  next
    case Ready
    have "owns (ph', s, m) L \<and> sound [] (Ready, s, m) L (ph', s, m)" if "ph' = Popping \<or> ph' = Connecting" for ph'
      using that idle [of ph'] Ready by (auto simp: shipped_def simp del: owns.simps)
    then show ?thesis by (simp add: Ready)
  next
    case (Check e)
    have "owns (ph', s, m) L \<and> sound [] (Check e, s, m) L (ph', s, m)" if "ph' = Begin e \<or> ph' = Leaving" for ph'
      using that idle [of ph'] Check by (auto simp: shipped_def simp del: owns.simps)
    then show ?thesis by (simp add: Check)
  next
    case Finished
    then show ?thesis using idle [of Finished] by (simp add: shipped_def)
  next
    case (Taken f l)
    then show ?thesis
      using connect_step [OF assms(1,2), of "Holding f l" "Putback f l"] by simp
  next
    case Connecting
    then show ?thesis using connect_step [OF assms(1,2), of Opening "Check True"] by simp
  next
    case Listed
    let ?s = "s\<lparr>s_state := Sending_queued_buffers\<rparr>"
    note st = closedir_file_step [of m]
    have un: "undisturbed m (sys_closedir m)" by (rule file_step_undisturbed [OF st])
    have "owns (Check False, ?s, sys_closedir m) L"
      by (rule owns_undisturbed [OF assms(1) un conn_only_refl(1)]) (simp_all add: Listed)
    moreover have "sound [] (Listed, s, m) L (Check False, ?s, sys_closedir m)"
      by (rule sound_undisturbed [OF un])
         (use assms(2) file_step_res [OF st(1)] file_step_out [OF st(1)] in \<open>simp_all add: shipped_def\<close>)
    ultimately show ?thesis by (simp add: Listed)
  next
    case Opening
    with opening_step assms show ?thesis by blast
  next
    case Reading
    with reading_step assms show ?thesis by blast
  next
    case (Entered d)
    with entered_step assms show ?thesis by blast
  next
    case (Holding f l)
    with send_step assms show ?thesis by blast
  qed (use assms in simp_all)
qed

section \<open>The steps that move buffers\<close>

text \<open>A step that relinks buffers and perhaps calls the host.\<close>

lemma sound_host:
  assumes "inv s" and "s_sock s' = s_sock s" and "s_ssl s' = s_ssl s" and "host_only m m'"
    and "\<forall>p \<in> set (hs @ xs). view p m' = view p m" and "files m' = files m" and "s_state s' = s_state s"
    and "ships ph ph' = []" and "online v (ph', s', m')" and "untouched es (ph, s, m) (hs, xs, ys) (ph', s', m')"
  shows "sound es (ph, s, m) (hs, xs, ys) (ph', s', m')"
  using assms frame_sender [OF assms(2,3)] frame_host [OF assms(4)] host_only_later [OF assms(4)]
  by (auto simp: sound_def shipped_def file_fate_def carries_def)

text \<open>It may be followed by the end of the connection.\<close>

lemma sound_disconnect:
  assumes "sound es (ph, s, m) L (ph1, s1, m1)" and "v_disconnect v s1 m1 = (s2, m2)" and "\<not> at_entry ph"
  shows "sound es (ph, s, m) L (Check e, s2, m2)"
proof -
  from assms(1) have "inv s1" by (simp add: sound_def)
  from disconnect_law [OF this assms(2)] have d: "inv s2" "\<not> v_connected v s2" "conn_only s1 s2"
    "undisturbed m1 m2" "res s2 m2 = res s1 m1" by auto
  then have mem: "same_mem m1 m2" "later m1 m2" "files m2 = files m1" by (simp_all add: undisturbed_def)
  then have "untouched es (ph, s, m) L (Check e, s2, m2)"
    using assms(1) conn_only_fields [OF d(3)] view_same_mem [OF mem(1)]
    by (simp add: sound_def untouched_def same_mem_def)
  with assms(1,3) d mem conn_only_fields [OF d(3)] view_same_mem [of m1 m2] show ?thesis
    by (auto simp: sound_def file_fate_def carries_def intro: later_trans)
qed

lemma release_step:
  assumes "owns (Sent f l, s, m) (hs, xs, ys)" and "inv s" and "online v (Sent f l, s, m)"
  shows "\<exists>L' c'. effects [Release f] (hs, xs, ys) = Some L' \<and> thread_step v (Sent f l, s, m) = Ok c' \<and>
           owns c' L' \<and> sound [Release f] (Sent f l, s, m) (hs, xs, ys) c'"
proof -
  have "held (Sent f l) = Some (f, l)" by simp
  from release_ledger [OF assms(1) this] obtain a m' hs' where r: "hs = f # hs'"
    "sender_put f s m = Ok (s\<lparr>s_alloc := a\<rparr>, m')" "f = l \<longleftrightarrow> hs' = []"
    "hs' \<noteq> [] \<longrightarrow> get_next f m = Ok (hd hs')" "trace m' = trace m" "relinked {f} m m'"
    and ow: "\<And>ph'. held ph' = (if hs' = [] then None else Some (hd hs', l)) \<Longrightarrow>
      owns (ph', s\<lparr>s_alloc := a\<rparr>, m') (hs', xs, f # ys)" by blast
  have "sound [Release f] (Sent f l, s, m) (hs, xs, ys) (ph', s\<lparr>s_alloc := a\<rparr>, m')"
    if "ph' = Check False \<or> (\<exists>g. ph' = Holding g l)" for ph'
    by (rule sound_host [OF assms(2) _ _ host_only_same [OF r(5)] _ _ _ _ _ untouched_relinked [OF r(6)]])
       (use that assms(3) relinked_view [OF r(6)] relinked_fields [OF r(6)] r(1) in auto)
  with r ow show ?thesis by (cases "hs' = []") (simp_all del: owns.simps)
qed

lemma return_step:
  assumes "owns (Putback f l, s, m) (hs, xs, ys)" and "inv s"
  shows "\<exists>L' c'. effects [Return] (hs, xs, ys) = Some L' \<and> thread_step v (Putback f l, s, m) = Ok c' \<and>
           owns c' L' \<and> sound [Return] (Putback f l, s, m) (hs, xs, ys) c'"
proof -
  note ow = owns_to_send [OF assms(1), of f l, simplified]
  then have ne: "hs \<noteq> []" and d: "set (header (s_queue s) # hs @ xs) \<inter> set ys = {}" "sendable m (hs @ xs)"
    by (auto simp: to_send_def own_chain_def sendable_def)
  from requeue [OF ow(1)] obtain n q m' where
    p: "push_front_chain f l (s_queue s) m = Ok (n, q, m')" "returned hs xs ys 0 m (s\<lparr>s_queue := q\<rparr>) m'"
      "header q = header (s_queue s)" "host_only m m'" "relinked (set (hs @ header (s_queue s) # xs)) m m'" by blast
  let ?s = "s\<lparr>s_queue := q\<rparr>"
  have "sendable m' (hs @ xs)" using d(2) p(2) sendable_cong [of m' m] by (simp add: returned_def)
  then have "owns (Check True, ?s, m') ([], hs @ xs, ys)"
    using p(2,3) d(1) ow(2,4) by (auto simp: sender_ok_def queue_ok_def returned_def small_files_def)
  moreover have "sound [Return] (Putback f l, s, m) (hs, xs, ys) (Check True, ?s, m')"
    by (rule sound_host [OF assms(2) _ _ p(4) _ _ _ _ _ untouched_relinked [OF p(5)]])
       (use p(2,3) in \<open>auto simp: returned_def\<close>)
  ultimately show ?thesis using p(1) ne by simp
qed

text \<open>What the thread touches when it takes the queue, or waits for it.\<close>

lemma pop_touches:
  assumes "pop_all_timed t (s_queue s) m = Ok (n, f, l, q, m')" and "sender_ok m s xs ys" and "arrives m s xs ys w zs"
  shows "shuffled (insert (header (s_queue s)) (pushed_in (replies m))) m m' \<and> header q = header (s_queue s)"
proof (cases "xs = []")
  case True
  have ok: "heap_ok m" "queue_list m (s_queue s) []" using assms(2) True by (simp_all add: sender_ok_def queue_ok_def)
  from assms(3) True obtain now rs where r: "replies m = now # rs"
    "await (\<lambda>p. cells m p \<noteq> None) (header (s_queue s)) rs = Ends w zs" by (auto simp: arrives_def)
  from pop_all_timed_Ok [OF ok r(1), of t] r(2) assms(1)
  have "shuffled (insert (header (s_queue s)) (pushed_in rs)) m m' \<and> header q = header (s_queue s)" by auto
  then show ?thesis using r(1) by (auto simp: pushed_Cons elim: shuffled_mono)
next
  case False
  have ql: "queue_list m (s_queue s) xs" using assms(2) by (simp add: sender_ok_def)
  from pop_all_Cons [OF this False] assms(1) timed_pop_immediate [OF ql False]
  have "relinked {header (s_queue s)} m m' \<and> header q = header (s_queue s)" by auto
  then show ?thesis using shuffled_relinked by (blast intro: shuffled_mono)
qed

lemma take_step:
  assumes "owns (Popping, s, m) ([], xs, ys)" and "inv s" and "arrives m s xs ys w zs"
    and "es = (if xs = [] then [Give zs] else []) @ (if w then [Take] else [])"
  shows "\<exists>L' c'. effects es ([], xs, ys) = Some L' \<and> thread_step v (Popping, s, m) = Ok c' \<and>
           owns c' L' \<and> sound es (Popping, s, m) ([], xs, ys) c'"
proof -
  let ?t = "of_nat (sleep_interval div 1000) :: 32 word"
  have ok: "sender_ok m s xs ys" "small_files m" using assms(1) by simp_all
  show ?thesis
  proof (cases w)
    case True
    have "arrives m s xs ys True zs" using assms(3) True by simp
    from arrives_taken [OF ok(1) this, of ?t] obtain n f l q m' where
      pop: "pop_all_timed ?t (s_queue s) m = Ok (n, f, l, q, m')" and tk: "taken s zs ys m (n, f, l, q, m')"
      by auto
    let ?s = "s\<lparr>s_queue := q\<rparr>"
    note pt = pop_touches [OF pop ok(1) assms(3)]
    from tk obtain A where t: "0 < n" "to_send m' ?s f zs l [] ys" "host_only m m'" "shuffled A m m'"
      by (auto simp: taken_def)
    have fl: "queue_ok m'" "files m' = files m"
      using t(2,4) ok by (simp_all add: queue_ok_def sender_ok_def to_send_def shuffled_def)
    have "owns (Taken f l, ?s, m') (zs, [], ys)"
      by (rule owns_held [OF t(2) fl(1)]) (use ok(2) fl(2) in \<open>simp_all add: sendable_def small_files_def\<close>)
    moreover have "effects es ([], xs, ys) = Some (zs, [], ys)"
      using t(2) assms(3,4) True by (auto simp: to_send_def own_chain_def arrives_def)
    moreover have "sound es (Popping, s, m) ([], xs, ys) (Taken f l, ?s, m')"
      by (rule sound_host [OF assms(2) _ _ t(3) _ _ _ _ _ untouched_shuffled [OF conjunct1 [OF pt]]])
         (use shuffled_view [OF t(4)] fl(2) pt assms(4) in \<open>auto simp: touched_def\<close>)
    ultimately show ?thesis using pop t(1) by (simp add: Let_def)
  next
    case False
    with assms(3) obtain now rs where e: "xs = []" "replies m = now # rs" "pushed_in rs \<inter> set ys = {}"
      "sendable m zs" "await (\<lambda>p. cells m p \<noteq> None) (header (s_queue s)) rs = Ends False zs"
      by (auto simp: arrives_def split: if_splits)
    from take_wait [OF ok(1) [unfolded e(1)] e(2,5,3,4), of ?t] obtain f l q m' where
      pop: "pop_all_timed ?t (s_queue s) m = Ok (0, f, l, q, m')"
      and ok': "sender_ok m' (s\<lparr>s_queue := q\<rparr>) zs ys" and host: "host_only m m'"
      and sh: "shuffled (insert (header (s_queue s)) (pushed_in rs)) m m'" by auto
    let ?s = "s\<lparr>s_queue := q\<rparr>"
    note pt = pop_touches [OF pop ok(1) assms(3)]
    have fl: "files m' = files m" "small_files m'" using sh ok(2) by (simp_all add: shuffled_def small_files_def)
    have ef: "effects es ([], xs, ys) = Some ([], zs, ys)"
    proof -
      have "queue_list m' q zs" "set zs \<inter> set ys = {}" using ok' by (auto simp: sender_ok_def)
      moreover from this(1) have "distinct zs" unfolding queue_list_def ring_def by simp
      ultimately show ?thesis using assms(4) False e(1) by simp
    qed
    have ow: "owns (Check False, ?s, m') ([], zs, ys)" using ok' fl(2) by simp
    have so: "sound es (Popping, s, m) ([], xs, ys) (Check False, ?s, m')"
      by (rule sound_host [OF assms(2) _ _ host _ _ _ _ _ untouched_shuffled [OF conjunct1 [OF pt]]])
         (use shuffled_view [OF sh] fl(1) pt assms(4) in \<open>auto simp: touched_def\<close>)
    show ?thesis
    proof (cases "v_connected v s \<and> idle_timeout \<le> s_now s - s_last s")
      case False
      then have "thread_step v (Popping, s, m) = Ok (Check False, ?s, m')"
        using pop by (auto simp: Let_def)
      with ef so ow show ?thesis by blast
    next
      case True
      obtain s2 m2 where d: "v_disconnect v ?s m' = (s2, m2)" by (cases "v_disconnect v ?s m'")
      have "inv ?s" using assms(2) by simp
      from disconnect_law [OF this d] have s2: "conn_only ?s s2" "undisturbed m' m2" by auto
      have "owns (Check False, s2, m2) ([], zs, ys)"
        by (rule owns_undisturbed [OF ow s2(2,1)]) simp_all
      moreover have "sound es (Popping, s, m) ([], xs, ys) (Check False, s2, m2)"
        by (rule sound_disconnect [OF so d]) simp
      moreover have "thread_step v (Popping, s, m) = Ok (Check False, s2, m2)"
        using True pop d by (auto simp: Let_def)
      ultimately show ?thesis using ef by blast
    qed
  qed
qed

end

text \<open>Saving the queue: whether every buffer has been saved.\<close>

definition saves :: "sender \<Rightarrow> machine \<Rightarrow> bool" where
  "saves s m = (case save_buffers s m of Ok (ret, s', m') \<Rightarrow> ret \<and> honest m' | _ \<Rightarrow> False)"

lemma saves_Ok:
  assumes "saves s m"
  obtains s' m' where "save_buffers s m = Ok (True, s', m')" "honest m'"
  using assms by (auto simp: saves_def split: res.splits)

lemma stored_small:
  assumes "stored d t xs m m'" and "sendable m xs" and "small_files m" shows "small_files m'"
proof -
  from assms(1) obtain fs where fs: "list_all2 (\<lambda>p f. files m f = None \<and>
          (\<exists>data. view p m = Ok data \<and> files m' f = Some (Reg data))) xs fs"
      "\<forall>g. g \<notin> set fs \<longrightarrow> files m' g = files m g" by (auto simp: stored_def)
  have "length bs < 2 ^ 31" if f: "f \<in> set fs" "files m' f = Some (Reg bs)" for f bs
  proof -
    from f(1) obtain i where i: "i < length fs" "f = fs ! i" by (auto simp: in_set_conv_nth)
    with fs(1) have x: "xs ! i \<in> set xs" "view (xs ! i) m = Ok bs"
      using f(2) by (auto simp: list_all2_conv_all_nth)
    have "content m (xs ! i) = bs" using x(2) by (simp add: content_def)
    with x(1) assms(2) show ?thesis by (auto simp: sendable_def)
  qed
  with fs(2) assms(3) show ?thesis unfolding small_files_def by metis
qed

text \<open>Files that are there stay when buffers are saved: these go to new files.\<close>

lemma stored_keeps:
  assumes "stored d t xs m m'" and "files m f = Some n" shows "files m' f = Some n"
proof -
  from assms(1) obtain fs where fs: "list_all2 (\<lambda>p f. files m f = None \<and>
          (\<exists>data. view p m = Ok data \<and> files m' f = Some (Reg data))) xs fs"
      "\<forall>g. g \<notin> set fs \<longrightarrow> files m' g = files m g" by (auto simp: stored_def)
  have "f \<notin> set fs"
    using fs(1) assms(2) by (auto simp: in_set_conv_nth list_all2_conv_all_nth)
  with fs(2) assms(2) show ?thesis by simp
qed

text \<open>What a successful save does to a sender.\<close>

lemma saves_ledger:
  assumes "sender_ok m s xs ys" and "small_files m" and "save_buffers s m = Ok (True, s', m')" and "honest m'"
  shows "sender_ok m' s' [] (rev xs @ ys)" and "small_files m'" and "file_only m m'"
    and "header (s_queue s') = header (s_queue s)" and "\<forall>p. view p m' = view p m"
    and "\<forall>p. p \<notin> set (header (s_queue s) # xs) \<longrightarrow> cells m' p = cells m p"
    and "s_sock s' = s_sock s" and "s_ssl s' = s_ssl s" and "s_state s' = s_state s"
    and "stored (s_dir s) (tz m (s_now s)) xs m m'"
proof -
  note ok = save_buffers_ok [OF assms(1,3,4)]
  then show "sender_ok m' s' [] (rev xs @ ys)" "file_only m m'" "header (s_queue s') = header (s_queue s)"
    "\<forall>p. view p m' = view p m" "\<forall>p. p \<notin> set (header (s_queue s) # xs) \<longrightarrow> cells m' p = cells m p"
    "stored (s_dir s) (tz m (s_now s)) xs m m'" by simp_all
  show "small_files m'"
    by (rule stored_small [OF conjunct1 [OF ok] _ assms(2)]) (use assms(1) in \<open>simp add: sender_ok_def\<close>)
  from ok obtain q a where "s' = s\<lparr>s_queue := q, s_alloc := a\<rparr>" by blast
  then show "s_sock s' = s_sock s" "s_ssl s' = s_ssl s" "s_state s' = s_state s" by simp_all
qed

context transport
begin

text \<open>The thread leaves: what is queued is saved.\<close>

lemma leave_step:
  assumes "owns (Leaving, s, m) ([], xs, ys)" and "inv s" and "saves s m"
    and "es = (if xs = [] then [] else [Spill])"
  shows "\<exists>L' c'. effects es ([], xs, ys) = Some L' \<and> thread_step v (Leaving, s, m) = Ok c' \<and>
           owns c' L' \<and> sound es (Leaving, s, m) ([], xs, ys) c'"
proof -
  have ok: "sender_ok m s xs ys" "small_files m" using assms(1) by simp_all
  from assms(3) obtain s' m' where sv: "save_buffers s m = Ok (True, s', m')" "honest m'" by (rule saves_Ok)
  note sl = saves_ledger [OF ok sv]
  have "effects es ([], xs, ys) = Some ([], [], rev xs @ ys)" by (simp add: assms(4))
  moreover have "thread_step v (Leaving, s, m) = Ok (Finished, s', m')" by (simp add: sv(1))
  moreover have "owns (Finished, s', m') ([], [], rev xs @ ys)" using sl(1,2) by simp
  moreover have "untouched es (Leaving, s, m) ([], xs, ys) (Finished, s', m')"
    using sl(4-6) by (simp add: untouched_def assms(4))
  moreover have "xs = [] \<Longrightarrow> files m' = files m" using sl(10) by simp
  then have "sound es (Leaving, s, m) ([], xs, ys) (Finished, s', m')"
    using assms(2,4) sl calculation(4) frame_sender [OF sl(7,8)] file_law [OF sl(3)] file_only_later [OF sl(3)] stored_keeps [OF sl(10)]
    by (auto simp: sound_def shipped_def file_fate_def carries_def)
  ultimately show ?thesis by blast
qed

end

end
