(* ===== verification/Interleaving.thy ===== *)
theory Interleaving
  imports Ledger "HOL-Library.Multiset"
begin

text \<open>
  A sender in operation: the steps of its thread interleaved, in any order, with those of any
  number of producers. The invariants of this system, proved by induction over its runs, are the
  strongest statements of the development: no interleaving loses or duplicates a buffer, follows
  a pointer that is not live, or leaks a descriptor.
\<close>

section \<open>The ledger of a configuration is unique\<close>

lemma ring_unique:
  assumes "ring h z xs" and "ring h z ys" shows "ys = xs"
proof -
  have "\<exists>n. nextof h z = Some n \<and> chain h n ws z \<and> z \<notin> set ws" if "ring h z ws" for ws
    using that by (auto simp: ring_def chain_Cons_nextof simp del: chain.simps(2))
  from this [OF assms(1)] this [OF assms(2)] show ?thesis using chain_unique [of h _ ys z xs] by auto
qed

lemma own_chain_unique:
  assumes "own_chain m q ws f xs l" and "own_chain m q ws f ys l" shows "ys = xs"
proof -
  have "\<exists>as. zs = as @ [l] \<and> chain (cells m) f as l \<and> l \<notin> set as"
    if own: "own_chain m q ws f zs l" for zs
  proof -
    obtain as r where "zs = as @ [l]" "chain (cells m) f (as @ [l]) r" "distinct (as @ [l])"
      using own_chain_split [OF own] by metis
    then show ?thesis by (auto simp: chain_snoc_nextof)
  qed
  from this [OF assms(1)] this [OF assms(2)] show ?thesis using chain_unique by metis
qed

lemma owns_unique:
  assumes "owns c L" and "owns c L'" shows "L' = L"
proof -
  obtain ph s m where c: "c = (ph, s, m)" by (cases c)
  obtain hs xs ys where L: "L = (hs, xs, ys)" by (cases L)
  obtain hs' xs' ys' where L': "L' = (hs', xs', ys')" by (cases L')
  note o1 = assms(1) [unfolded c L owns.simps] and o2 = assms(2) [unfolded c L' owns.simps]
  from o1 o2 have ok: "heap_ok m" "free_list m (s_alloc s) ys" "free_list m (s_alloc s) ys'"
    "queue_list m (s_queue s) xs" "queue_list m (s_queue s) xs'" by (simp_all add: sender_ok_def queue_ok_def)
  have xs: "xs' = xs" using ok(4,5) ring_unique unfolding queue_list_def by blast
  have "ys' = ys"
    using free_list_distinct(2) [OF ok(1,2)] free_list_distinct(2) [OF ok(1,3)] ok(2,3) chain_unique
    unfolding free_list_def by metis
  moreover have "hs' = hs"
  proof (cases "held ph")
    case (Some p)
    obtain f l where "p = (f, l)" by (cases p)
    with o1 o2 Some xs own_chain_unique show ?thesis by auto
  qed (use o1 o2 in simp)
  ultimately show ?thesis using xs by (simp add: L L')
qed

section \<open>The steps of the producers\<close>

text \<open>Whether all the buffers are saved when a producer overfills the queue.\<close>

definition saved :: "ptr \<Rightarrow> ptr \<Rightarrow> sender \<Rightarrow> machine \<Rightarrow> bool" where
  "saved first final s m =
     (case push_back_chain first final (s_queue s) m of
        Ok (n, q, m1) \<Rightarrow> saves (s\<lparr>s_queue := q\<rparr>) m1
      | _ \<Rightarrow> False)"

lemma own_chain_frame:
  assumes "own_chain m q xs f hs l" and "\<forall>p \<in> set hs. cells m' p = cells m p"
    and "header q' = header q" and "set hs \<inter> set xs' = {}"
  shows "own_chain m' q' xs' f hs l"
proof -
  have "l \<in> set hs" using assms(1) by (auto simp: own_chain_def)
  with assms(2) have "nextof (cells m') l = nextof (cells m) l" by (simp add: nextof_def)
  moreover have "chain (cells m') f hs r = chain (cells m) f hs r" for r
    by (rule chain_cong) (use assms(2) in simp)
  ultimately show ?thesis using assms(1,3,4) by (auto simp: own_chain_def split: option.splits)
qed

text \<open>
  What the thread holds stays as it is when others change the queue, the free list or their own
  buffers, but not these.
\<close>

lemma owns_changed:
  assumes "owns (ph, s, m) (hs, xs, ys)" and "sender_ok m' s' xs' ys'" and "small_files m'"
    and "\<forall>p \<in> set hs. cells m' p = cells m p \<and> view p m' = view p m"
    and "header (s_queue s') = header (s_queue s)" and "set hs \<inter> set (xs' @ ys') = {}"
  shows "owns (ph, s', m') (hs, xs', ys')"
proof (cases "held ph")
  case (Some p)
  obtain f l where p: "p = (f, l)" by (cases p)
  with Some assms(1) have own: "own_chain m (s_queue s) xs f hs l" "sendable m hs" by simp_all
  have "own_chain m' (s_queue s') xs' f hs l"
    by (rule own_chain_frame [OF own(1)]) (use assms(4-6) in auto)
  moreover have "sendable m' hs" using own(2) assms(4) by (simp add: sendable_def content_def)
  ultimately show ?thesis using Some p assms(2,3,6) by auto
qed (use assms(1-3) in simp)

lemma owns_facts:
  assumes "owns (ph, s, m) (hs, xs, ys)"
  shows "sender_ok m s xs ys" "small_files m" "distinct (header (s_queue s) # xs)"
    "set (header (s_queue s) # xs) \<inter> set ys = {}" "distinct ys" "0 \<notin> set ys"
    "set hs \<inter> set (header (s_queue s) # xs @ ys) = {}" "heap_ok m" "brk m < 2 ^ 64"
    "\<forall>p \<in> set (header (s_queue s) # hs @ xs @ ys). cells m p \<noteq> None" "distinct hs"
proof -
  show ok: "sender_ok m s xs ys" and "small_files m" using assms by simp_all
  then show hp: "heap_ok m" and "brk m < 2 ^ 64" and "set (header (s_queue s) # xs) \<inter> set ys = {}"
    by (simp_all add: sender_ok_def queue_ok_def)
  from ok have r: "ring (cells m) (header (s_queue s)) xs" and fl: "free_list m (s_alloc s) ys"
    unfolding sender_ok_def queue_list_def by blast+
  from r show "distinct (header (s_queue s) # xs)" by (simp add: ring_def)
  show "distinct ys" "0 \<notin> set ys" using free_list_distinct [OF hp fl] .
  show "set hs \<inter> set (header (s_queue s) # xs @ ys) = {}" "distinct hs"
    using assms by (cases "held ph"; auto simp: own_chain_def)+
  have "cells m p \<noteq> None" if "p \<in> set hs" for p
  proof (cases "held ph")
    case (Some fl)
    obtain f l where "fl = (f, l)" by (cases fl)
    with Some assms that chain_live show ?thesis
      by (fastforce simp: own_chain_def split: option.splits)
  qed (use that assms in simp)
  moreover have "cells m p \<noteq> None" if "p \<in> set ys" for p
    using fl that chain_live unfolding free_list_def by blast
  ultimately show "\<forall>p \<in> set (header (s_queue s) # hs @ xs @ ys). cells m p \<noteq> None"
    using ring_live [OF r] by auto
qed

lemma give_untouched:
  assumes "relinked (set (zs @ header (s_queue s) # xs)) m m'" and "header (s_queue s') = header (s_queue s)"
  shows "untouched [Give zs] (ph, s, m) (hs, xs, ys) (ph', s', m')"
  by (rule untouched_relinked [OF assms]) (auto simp: touched_def)

lemma saved_Ok:
  assumes "saved f l s m"
  obtains n q m1 s2 m2 where "push_back_chain f l (s_queue s) m = Ok (n, q, m1)"
    "save_buffers (s\<lparr>s_queue := q\<rparr>) m1 = Ok (True, s2, m2)" "honest m2"
  using assms by (auto simp: saved_def split: res.splits elim: saves_Ok)

lemma ships_same [simp]: "ships ph ph = []"
  by (cases ph) simp_all

context transport
begin

lemma online_frame:
  "s_sock s' = s_sock s \<Longrightarrow> s_ssl s' = s_ssl s \<Longrightarrow> online v (ph, s', m') = online v (ph, s, m)"
  by (cases ph) (auto dest: frame_sender(2))

text \<open>What every step of a producer keeps.\<close>

lemma producer_sound:
  assumes "inv s" and "online v (ph, s, m)" and "s_sock s' = s_sock s" and "s_ssl s' = s_ssl s"
    and "host_only m m1" and "file_only m1 m'" and "\<forall>p \<in> set (hs @ xs). view p m' = view p m"
    and "\<forall>f n. files m f = Some n \<longrightarrow> files m' f = Some n"
    and "Spill \<notin> set es \<longrightarrow> files m' = files m \<and> s_state s' = s_state s"
    and "untouched es (ph, s, m) (hs, xs, ys) (ph, s', m')"
  shows "sound es (ph, s, m) (hs, xs, ys) (ph, s', m')"
  using assms frame_sender [OF assms(3,4)] online_frame [OF assms(3,4), of ph m' m] file_law [OF assms(6)]
    frame_host [OF assms(5)] host_only_later [OF assms(5)] file_only_later [OF assms(6)]
  by (auto simp: sound_def shipped_def file_fate_def carries_def intro: later_trans)

lemma give_step:
  assumes "owns (ph, s, m) (hs, xs, ys)" and "inv s" and "online v (ph, s, m)"
    and "to_give m s xs ys f zs l" and "set zs \<inter> set hs = {}"
    and "10000 < length (xs @ zs) \<longrightarrow> saved f l s m" and "send_buffers f l s m = Ok (s', m')"
    and "es = Give zs # (if 10000 < length (xs @ zs) then [Spill] else [])"
  shows "\<exists>L'. effects es (hs, xs, ys) = Some L' \<and> owns (ph, s', m') L' \<and>
           sound es (ph, s, m) (hs, xs, ys) (ph, s', m')"
proof -
  note ow = owns_facts [OF assms(1)]
  from give_pushes [OF ow(1) assms(4)] obtain q m1 where
    p: "push_back_chain f l (s_queue s) m = Ok (of_nat (length (xs @ zs)), q, m1)"
      "sender_ok m1 (s\<lparr>s_queue := q\<rparr>) (xs @ zs) ys" "header q = header (s_queue s)"
      "relinked (set (zs @ header (s_queue s) # xs)) m m1" "host_only m m1" by blast
  note rl = relinked_fields [OF p(4)] relinked_view [OF p(4)] and room = queue_room [OF p(2)]
  have zs: "distinct zs" "set zs \<inter> set (xs @ ys) = {}" using assms(4) by (auto simp: to_give_def own_chain_def)
  then have ef: "effect (Give zs) (hs, xs, ys) = Some (hs, xs @ zs, ys)" using assms(5) by auto
  have small: "small_files m1" using ow(2) rl by (simp add: small_files_def)
  have kept: "\<forall>p \<in> set hs. cells m1 p = cells m p \<and> view p m1 = view p m"
  proof
    fix r assume "r \<in> set hs"
    then have "r \<notin> set (zs @ header (s_queue s) # xs)" using ow(7) assms(5) by auto
    then show "cells m1 r = cells m r \<and> view r m1 = view r m"
      using p(4) rl unfolding relinked_def by blast
  qed
  have hs: "set hs \<inter> set ((xs @ zs) @ ys) = {}" using ow(7) assms(5) by auto
  show ?thesis
  proof (cases "10000 < length (xs @ zs)")
    case False
    with assms(7) room have run: "s' = s\<lparr>s_queue := q\<rparr>" "m' = m1"
      by (simp_all add: send_buffers_def p(1) Let_def)
    have "owns (ph, s', m') (hs, xs @ zs, ys)"
      unfolding run by (rule owns_changed [OF assms(1) p(2) small kept _ hs]) (simp add: p(3))
    moreover have "sound es (ph, s, m) (hs, xs, ys) (ph, s', m')"
      unfolding run
      by (rule producer_sound [OF assms(2,3) _ _ p(5)])
         (use rl give_untouched [OF p(4)] p(3) False assms(8) in simp_all)
    ultimately show ?thesis using False ef assms(8) by simp
  next
    case True
    with assms(6) obtain n q' m1' s2 m2 where "push_back_chain f l (s_queue s) m = Ok (n, q', m1')"
      and sv: "save_buffers (s\<lparr>s_queue := q'\<rparr>) m1' = Ok (True, s2, m2)" and h: "honest m2"
      by (blast elim: saved_Ok)
    with p(1) have sv: "save_buffers (s\<lparr>s_queue := q\<rparr>) m1 = Ok (True, s2, m2)" by simp
    with assms(7) room True have run: "s' = s2\<lparr>s_state := Sending_files\<rparr>" "m' = m2"
      by (simp_all add: send_buffers_def p(1) Let_def)
    note sl = saves_ledger [OF p(2) small sv h]
    have s2: "sender_ok m2 s' [] (rev (xs @ zs) @ ys)" using sl(1) by (simp only: run(1) sender_ok_upd)
    have kept2: "\<forall>p \<in> set hs. cells m2 p = cells m p \<and> view p m2 = view p m"
    proof
      fix r assume r: "r \<in> set hs"
      then have "r \<notin> set (header (s_queue (s\<lparr>s_queue := q\<rparr>)) # xs @ zs)" using ow(7) assms(5) p(3) by auto
      then have "cells m2 r = cells m1 r" "view r m2 = view r m1" using sl(5,6) by blast+
      with kept r show "cells m2 r = cells m r \<and> view r m2 = view r m" by simp
    qed
    have hd: "header (s_queue s') = header (s_queue s)" using sl(4) p(3) by (simp add: run(1))
    have un: "untouched es (ph, s, m) (hs, xs, ys) (ph, s', m2)"
      unfolding untouched_def
    proof (intro conjI allI impI)
      fix r
      assume "cells (mach (ph, s, m)) r \<noteq> None \<and> r \<noteq> header (s_queue (obj (ph, s, m))) \<and>
          r \<notin> set (fst (hs, xs, ys) @ fst (snd (hs, xs, ys)) @ snd (snd (hs, xs, ys))) \<and> r \<notin> touched es (ph, s, m)"
      then have r: "r \<notin> set (zs @ header (s_queue s) # xs)" using assms(8) by (auto simp: touched_def)
      then have "cells m1 r = cells m r" "view r m1 = view r m" using p(4) rl unfolding relinked_def by blast+
      moreover have "cells m2 r = cells m1 r" "view r m2 = view r m1" using sl(5,6) r p(3) by auto
      ultimately show "cells (mach (ph, s', m2)) r = cells (mach (ph, s, m)) r"
        "view r (mach (ph, s', m2)) = view r (mach (ph, s, m))" by simp_all
    qed (use hd assms(8) in auto)
    have "owns (ph, s', m2) (hs, [], rev (xs @ zs) @ ys)"
      by (rule owns_changed [OF assms(1) s2 sl(2) kept2 hd]) (use hs in auto)
    moreover have "sound es (ph, s, m) (hs, xs, ys) (ph, s', m2)"
      unfolding run
      by (rule producer_sound [OF assms(2,3) _ _ p(5) sl(3)])
         (use sl(5,7,8) rl stored_keeps [OF sl(10)] True assms(8) un in \<open>simp_all add: run\<close>)
    ultimately show ?thesis using True ef assms(8) by (simp add: run(2))
  qed
qed

end

text \<open>A new free list, and memory that is as it was where the ledger looks.\<close>

lemma sender_ok_cells:
  assumes "sender_ok m s xs ys" and "heap_ok m'" and "brk m' < 2 ^ 64"
    and "\<forall>p \<in> set (header (s_queue s) # xs). cells m' p = cells m p \<and> view p m' = view p m"
    and "free_list m' a ws" and "set (header (s_queue s) # xs) \<inter> set ws = {}"
  shows "sender_ok m' (s\<lparr>s_alloc := a\<rparr>) xs ws"
proof -
  have "queue_list m' (s_queue s) xs"
    by (rule queue_list_cells [of m]) (use assms(1,4) in \<open>auto simp: sender_ok_def\<close>)
  moreover have "sendable m' xs" using assms(1,4) by (auto simp: sender_ok_def sendable_def content_def)
  ultimately show ?thesis using assms(2,3,5,6) by (simp add: sender_ok_def queue_ok_def)
qed

lemma live_below: "heap_ok m \<Longrightarrow> cells m p \<noteq> None \<Longrightarrow> p < brk m"
  using addr_ok_cell heap_okD(1) by blast

lemma view_kept:
  assumes "cells m' p = cells m p" and "blocks m' = blocks m" shows "view p m' = view p m"
  by (simp only: view_def load_def read_block_def assms)

context transport
begin

lemma get_step:
  assumes "owns (ph, s, m) (hs, xs, y # ys)" and "inv s" and "online v (ph, s, m)"
    and "alloc_get (s_alloc s) m = Ok (p, a, m')"
  shows "p = y \<and> owns (ph, s\<lparr>s_alloc := a\<rparr>, m') (hs, xs, ys) \<and>
         sound [Get p] (ph, s, m) (hs, xs, y # ys) (ph, s\<lparr>s_alloc := a\<rparr>, m')"
proof -
  note ow = owns_facts [OF assms(1)]
  have fl: "free_list m (s_alloc s) (y # ys)" using ow(1) by (simp add: sender_ok_def)
  from alloc_get_stock [OF ow(8) fl] assms(4) have g: "p = y" "m' = m" "free_list m a ys" by auto
  have "sender_ok m (s\<lparr>s_alloc := a\<rparr>) xs ys"
    by (rule sender_ok_cells [OF ow(1,8,9) _ g(3)]) (use ow(4) in auto)
  then have "owns (ph, s\<lparr>s_alloc := a\<rparr>, m) (hs, xs, ys)"
    by (rule owns_changed [OF assms(1) _ ow(2)]) (use ow(7) in auto)
  moreover have "sound [Get p] (ph, s, m) (hs, xs, y # ys) (ph, s\<lparr>s_alloc := a\<rparr>, m)"
    by (rule producer_sound [OF assms(2,3), of _ m]) (simp_all add: untouched_same_mem)
  ultimately show ?thesis using g(1,2) by simp
qed

lemma refill_step:
  assumes "owns (ph, s, m) (hs, xs, [])" and "inv s" and "online v (ph, s, m)"
    and "alloc_get (s_alloc s) m = Ok (p, a, m')" and "free_list m' a zs" and "brk m' < 2 ^ 64"
    and "es = (if p = 0 then [] else [Refill (p # zs), Get p])"
  shows "effects es (hs, xs, []) = Some (hs, xs, zs) \<and> owns (ph, s\<lparr>s_alloc := a\<rparr>, m') (hs, xs, zs) \<and>
         sound es (ph, s, m) (hs, xs, []) (ph, s\<lparr>s_alloc := a\<rparr>, m')"
proof -
  note ow = owns_facts [OF assms(1)]
  have fl: "free_list m (s_alloc s) []" using ow(1) by (simp add: sender_ok_def)
  from wp_Ok [OF wp_alloc_get_empty [OF ow(8) fl] assms(4)] obtain ws where
    r: "refilled m ws m'" "case ws of [] \<Rightarrow> p = 0 | y # _ \<Rightarrow> p = y" "free_list m' a (tl ws)" by auto
  have hp: "heap_ok m'" and old: "\<And>q. q < brk m \<Longrightarrow> cells m' q = cells m q" "blocks m' = blocks m"
    and ws: "set ws = {brk m..<brk m'}" "distinct ws"
    using r(1) by (auto simp: refilled_def intro: card_distinct)
  have zs: "zs = tl ws"
    using assms(5) r(3) free_list_distinct(2) [OF hp assms(5)] free_list_distinct(2) [OF hp r(3)] chain_unique
    unfolding free_list_def by metis
  have pos: "0 < brk m" by (rule addr_ok_brk [OF heap_okD(1) [OF ow(8)]])
  have p: "ws = (if p = 0 then [] else p # zs)"
  proof (cases ws)
    case (Cons w us)
    then have "brk m \<le> w" using ws(1) by (metis atLeastLessThan_iff list.set_intros(1))
    with Cons r(2) zs pos show ?thesis by simp
  qed (use r(2) in simp)
  have kept: "cells m' q = cells m q \<and> view q m' = view q m"
    if "q \<in> set (header (s_queue s) # hs @ xs @ [])" for q
  proof -
    have "cells m' q = cells m q" using old(1) live_below [OF ow(8)] ow(10) that by blast
    then show ?thesis using view_kept old(2) by blast
  qed
  have new: "set ws \<inter> set (header (s_queue s) # hs @ xs) = {}"
    using ws(1) live_below [OF ow(8)] ow(10) by fastforce
  have zw: "set zs \<subseteq> set ws" using zs by (cases ws) auto
  have ok: "sender_ok m' (s\<lparr>s_alloc := a\<rparr>) xs zs"
    by (rule sender_ok_cells [OF ow(1) hp assms(6) _ assms(5)]) (use kept new zw in auto)
  have fr: "files m' = files m" "host_only m m'" using alloc_get_frame [OF assms(4)] by simp_all
  have small: "small_files m'" using ow(2) fr(1) by (simp add: small_files_def)
  have "owns (ph, s\<lparr>s_alloc := a\<rparr>, m') (hs, xs, zs)"
    by (rule owns_changed [OF assms(1) ok small]) (use kept new zw ow(7) in auto)
  moreover have "effects es (hs, xs, []) = Some (hs, xs, zs)"
  proof (cases "p = 0")
    case True
    with p zs assms(7) show ?thesis by simp
  next
    case False
    with p have "ws = p # zs" by simp
    with ws(2) new False assms(7) show ?thesis by simp
  qed
  moreover have un: "untouched es (ph, s, m) (hs, xs, []) (ph, s\<lparr>s_alloc := a\<rparr>, m')"
  proof -
    have "cells m' q = cells m q \<and> view q m' = view q m" if "cells m q \<noteq> None" for q
      using old(1) live_below [OF ow(8) that] view_kept [OF _ old(2)] by blast
    moreover have "cells m q = None" if "q \<in> set ws" for q
      using ws(1) that live_below [OF ow(8), of q] by force
    moreover have "set (refilled_by es) \<subseteq> set ws" using p assms(7) by simp
    ultimately show ?thesis by (auto simp: untouched_def)
  qed
  moreover have "sound es (ph, s, m) (hs, xs, []) (ph, s\<lparr>s_alloc := a\<rparr>, m')"
    by (rule producer_sound [OF assms(2,3) _ _ fr(2)]) (use kept fr(1) un in simp_all)
  ultimately show ?thesis by blast
qed

lemma fill_step:
  assumes "owns (ph, s, m) (hs, xs, ys)" and "inv s" and "online v (ph, s, m)"
    and "p \<notin> set (header (s_queue s) # hs @ xs @ ys)" and "cells m p \<noteq> None"
    and "data \<noteq> []" and "length data < 2 ^ 64" and "init p data m = Ok (ok, m')" and "brk m' < 2 ^ 64"
  shows "owns (ph, s, m') (hs, xs, ys) \<and> sound [Fill p] (ph, s, m) (hs, xs, ys) (ph, s, m')"
proof -
  note ow = owns_facts [OF assms(1)]
  from assms(5) obtain b where b: "cells m p = Some b" by auto
  have h: "heap_ok m' \<and> (\<forall>q. q \<noteq> p \<longrightarrow> cells m' q = cells m q \<and> view q m' = view q m)"
  proof (cases ok)
    case True
    with assms(8) have "init p data m = Ok (True, m')" by simp
    from init_True_spec [OF ow(8) b assms(7) this] show ?thesis by blast
  next
    case False
    with assms(8) have "init p data m = Ok (False, m')" by simp
    then have "cells m' = cells m \<and> blocks m' = blocks m \<and> brk m' = brk m"
      by (rule init_False_unchanged [OF ow(8) b assms(6)])
    then have e: "cells m' = cells m" "blocks m' = blocks m" "brk m' = brk m" by simp_all
    have "heap_ok m'" using ow(8) heap_ok_cong [OF e] by blast
    then show ?thesis using e(1) view_kept [OF _ e(2)] by simp
  qed
  have fr: "files m' = files m" "host_only m m'" using init_frame [OF assms(8)] by simp_all
  have small: "small_files m'" using ow(2) fr(1) by (simp add: small_files_def)
  have "free_list m' (s_alloc s) ys"
    by (rule free_list_cells [of m]) (use ow(1) h assms(4) in \<open>auto simp: sender_ok_def\<close>)
  then have "sender_ok m' (s\<lparr>s_alloc := s_alloc s\<rparr>) xs ys"
    by (intro sender_ok_cells [OF ow(1) conjunct1 [OF h] assms(9)]) (use h assms(4) ow(4) in auto)
  then have "sender_ok m' s xs ys" by simp
  then have "owns (ph, s, m') (hs, xs, ys)"
    by (rule owns_changed [OF assms(1) _ small]) (use h assms(4) ow(7) in auto)
  moreover have "untouched [Fill p] (ph, s, m) (hs, xs, ys) (ph, s, m')"
    using h by (simp add: untouched_def touched_def)
  then have "sound [Fill p] (ph, s, m) (hs, xs, ys) (ph, s, m')"
    by (intro producer_sound [OF assms(2,3) _ _ fr(2)]) (use h assms(4) fr(1) in auto)
  ultimately show ?thesis ..
qed

end

section \<open>The system\<close>

text \<open>
  The step that moves no buffer between the places of the ledger, or moves those that the thread
  holds, by the place the thread is at.
\<close>

fun moved :: "thread \<Rightarrow> event list" where
  "moved (Sent f l) = [Release f]"
| "moved (Putback f l) = [Return]"
| "moved _ = []"

text \<open>
  One step of the system with what it does to the ledger: the thread works on; it pops the queue,
  which may mean that it waits for producers; it leaves and saves the queue; \<open>stop\<close> tells it to; a
  producer hands over a chain it owns, and an overfull queue is saved; a producer gets a buffer
  from the allocator, which may have to be refilled, or fills a buffer of its own.
\<close>

inductive sys_step :: "vtable \<Rightarrow> conf \<Rightarrow> event list \<Rightarrow> conf \<Rightarrow> bool" for v where
  work: "thread_step v (ph, s, m) = Ok c \<Longrightarrow> ph \<noteq> Popping \<Longrightarrow> ph \<noteq> Leaving \<Longrightarrow>
    sys_step v (ph, s, m) (moved ph) c"
| pop: "owns (Popping, s, m) ([], xs, ys) \<Longrightarrow> arrives m s xs ys w zs \<Longrightarrow>
    thread_step v (Popping, s, m) = Ok c \<Longrightarrow>
    sys_step v (Popping, s, m) ((if xs = [] then [Give zs] else []) @ (if w then [Take] else [])) c"
| leave: "owns (Leaving, s, m) ([], xs, ys) \<Longrightarrow> saves s m \<Longrightarrow> thread_step v (Leaving, s, m) = Ok c \<Longrightarrow>
    sys_step v (Leaving, s, m) (if xs = [] then [] else [Spill]) c"
| stop: "sys_step v (ph, s, m) [] (ph, s\<lparr>s_running := False\<rparr>, m)"
| give: "owns (ph, s, m) (hs, xs, ys) \<Longrightarrow> to_give m s xs ys f zs l \<Longrightarrow> set zs \<inter> set hs = {} \<Longrightarrow>
    10000 < length (xs @ zs) \<longrightarrow> saved f l s m \<Longrightarrow> send_buffers f l s m = Ok (s', m') \<Longrightarrow>
    sys_step v (ph, s, m) (Give zs # (if 10000 < length (xs @ zs) then [Spill] else [])) (ph, s', m')"
| get: "owns (ph, s, m) (hs, xs, y # ys) \<Longrightarrow> alloc_get (s_alloc s) m = Ok (p, a, m') \<Longrightarrow>
    sys_step v (ph, s, m) [Get p] (ph, s\<lparr>s_alloc := a\<rparr>, m')"
| refill: "owns (ph, s, m) (hs, xs, []) \<Longrightarrow> alloc_get (s_alloc s) m = Ok (p, a, m') \<Longrightarrow>
    free_list m' a zs \<Longrightarrow> brk m' < 2 ^ 64 \<Longrightarrow>
    sys_step v (ph, s, m) (if p = 0 then [] else [Refill (p # zs), Get p]) (ph, s\<lparr>s_alloc := a\<rparr>, m')"
| fill: "owns (ph, s, m) (hs, xs, ys) \<Longrightarrow> p \<notin> set (header (s_queue s) # hs @ xs @ ys) \<Longrightarrow>
    cells m p \<noteq> None \<Longrightarrow> data \<noteq> [] \<Longrightarrow> length data < 2 ^ 64 \<Longrightarrow> init p data m = Ok (ok, m') \<Longrightarrow>
    brk m' < 2 ^ 64 \<Longrightarrow> sys_step v (ph, s, m) [Fill p] (ph, s, m')"

lemma sys_step_no_reuse: "sys_step v c es c' \<Longrightarrow> Reuse \<notin> set es"
proof (induction rule: sys_step.induct)
  case (work ph s m c)
  then show ?case by (cases ph) simp_all
qed (auto split: if_splits)

inductive reaches :: "vtable \<Rightarrow> conf \<Rightarrow> event list \<Rightarrow> conf \<Rightarrow> bool" for v c where
  start: "reaches v c [] c"
| step: "reaches v c es c' \<Longrightarrow> sys_step v c' fs c'' \<Longrightarrow> reaches v c (es @ fs) c''"

inductive_cases sys_stepE: "sys_step v c es c'"

text \<open>Every step keeps the ledger, as its label says, and is sound.\<close>

context transport
begin

lemma sys_step_ok:
  assumes "sys_step v c es c'" and "owns c L" and "inv (obj c)" and "online v c"
  shows "\<exists>L'. effects es L = Some L' \<and> owns c' L' \<and> sound es c L c'"
  using assms(1)
proof cases
  case (work ph s m)
  obtain hs xs ys where L: "L = (hs, xs, ys)" by (cases L)
  have as: "owns (ph, s, m) (hs, xs, ys)" "inv s" "online v (ph, s, m)" using assms(2-4) by (simp_all only: work L snd_conv fst_conv)
  show ?thesis
  proof (cases "\<exists>f l. ph = Sent f l \<or> ph = Putback f l")
    case True
    then obtain f l where "ph = Sent f l \<or> ph = Putback f l" by blast
    then have "\<exists>L' c1. effects es L = Some L' \<and> thread_step v (ph, s, m) = Ok c1 \<and> owns c1 L' \<and>
        sound es (ph, s, m) L c1"
    proof
      assume Sent: "ph = Sent f l"
      from release_step [of f l s m hs xs ys] as show ?thesis
        unfolding work(2) L Sent moved.simps by blast
    next
      assume Putback: "ph = Putback f l"
      from return_step [of f l s m hs xs ys] as show ?thesis
        unfolding work(2) L Putback moved.simps by blast
    qed
    with work(3) show ?thesis unfolding work(1) by (metis res.inject)
  next
    case False
    then have "es = []" using work(2) by (cases ph) simp_all
    have "wp (thread_step v (ph, s, m)) (\<lambda>c. owns c L \<and> sound [] (ph, s, m) L c)"
      by (rule quiet_step) (use as work False in \<open>auto simp: L simp del: owns.simps online.simps\<close>)
    from wp_Ok [OF this work(3)] show ?thesis unfolding work(1) \<open>es = []\<close> by simp
  qed
next
  case (pop s m xs ys w zs)
  have L: "L = ([], xs, ys)" using owns_unique [OF pop(3)] assms(2) pop(1) by simp
  have "inv s" using assms(3) by (simp add: pop(1))
  from take_step [OF pop(3) this pop(4) refl] pop(5) show ?thesis
    unfolding L pop(1,2) by (metis res.inject)
next
  case (leave s m xs ys)
  have L: "L = ([], xs, ys)" using owns_unique [OF leave(3)] assms(2) leave(1) by simp
  have "inv s" using assms(3) by (simp add: leave(1))
  from leave_step [OF leave(3) this leave(4) refl] leave(5) show ?thesis
    unfolding L leave(1,2) by (metis res.inject)
next
  case (stop ph s m)
  let ?s = "s\<lparr>s_running := False\<rparr>"
  obtain hs xs ys where L: "L = (hs, xs, ys)" by (cases L)
  have "sound [] (ph, s, m) (hs, xs, ys) (ph, ?s, m)"
    by (rule producer_sound [of _ _ m _ m]) (use assms(3,4) stop in \<open>simp_all add: untouched_same_mem\<close>)
  moreover have "owns (ph, ?s, m) L"
    by (rule owns_kept [OF assms(2) [unfolded stop(1)] same_mem_refl]) simp_all
  ultimately show ?thesis unfolding stop L by simp
next
  case (give ph s m hs xs ys f zs l s' m')
  have L: "L = (hs, xs, ys)" using owns_unique [OF give(4)] assms(2) give(1) by simp
  have "inv s" "online v (ph, s, m)" using assms(3,4) by (simp_all only: give(1) fst_conv snd_conv)
  note st = give_step [OF give(4) this give(5-8) refl]
  then show ?thesis unfolding L give(1-3) by blast
next
  case (get ph s m hs xs y ys p a m')
  have L: "L = (hs, xs, y # ys)" using owns_unique [OF get(4)] assms(2) get(1) by simp
  have "inv s" "online v (ph, s, m)" using assms(3,4) by (simp_all only: get(1) fst_conv snd_conv)
  note st = get_step [OF get(4) this get(5)]
  then show ?thesis unfolding L get(1-3) by (auto simp del: owns.simps)
next
  case (refill ph s m hs xs p a m' zs)
  have L: "L = (hs, xs, [])" using owns_unique [OF refill(4)] assms(2) refill(1) by simp
  have "inv s" "online v (ph, s, m)" using assms(3,4) by (simp_all only: refill(1) fst_conv snd_conv)
  note st = refill_step [OF refill(4) this refill(5-7) refl]
  then show ?thesis unfolding L refill(1-3) by blast
next
  case (fill ph s m hs xs ys p data ok m')
  have L: "L = (hs, xs, ys)" using owns_unique [OF fill(4)] assms(2) fill(1) by simp
  have "inv s" "online v (ph, s, m)" using assms(3,4) by (simp_all only: fill(1) fst_conv snd_conv)
  note st = fill_step [OF fill(4) this fill(5-10)]
  then show ?thesis using fill(5) unfolding L fill(1-3) by (simp del: owns.simps)
qed

lemma reaches_ok:
  assumes "reaches v c0 es c" and "owns c0 L0" and "inv (obj c0)" and "online v c0"
  shows "\<exists>L. effects es L0 = Some L \<and> owns c L \<and> inv (obj c) \<and> online v c \<and>
           res (obj c) (mach c) = res (obj c0) (mach c0) \<and> later (mach c0) (mach c)"
  using assms(1)
proof induction
  case start
  with assms(2-4) show ?case by simp
next
  case (step es c' fs c'')
  from step.IH obtain L where L: "effects es L0 = Some L" "owns c' L" "inv (obj c')" "online v c'"
    "res (obj c') (mach c') = res (obj c0) (mach c0)" "later (mach c0) (mach c')" by blast
  from sys_step_ok [OF step.hyps(2) L(2-4)]
  obtain L' where "effects fs L = Some L'" "owns c'' L'" "sound fs c' L c''" by blast
  with L show ?case by (auto simp: effects_append sound_def intro: later_trans)
qed

lemma thread_step_safe:
  assumes "owns (ph, s, m) L" and "inv s" and "online v (ph, s, m)"
    and "ph = Popping \<longrightarrow> (\<exists>xs ys w zs. L = ([], xs, ys) \<and> arrives m s xs ys w zs)"
    and "ph = Leaving \<longrightarrow> saves s m"
  shows "thread_step v (ph, s, m) \<noteq> Fault"
proof -
  obtain hs xs ys where L: "L = (hs, xs, ys)" by (cases L)
  show ?thesis
  proof (cases "ph \<noteq> Popping \<and> ph \<noteq> Leaving \<and> (\<forall>f l. ph \<noteq> Sent f l \<and> ph \<noteq> Putback f l)")
    case True
    then show ?thesis using quiet_step [OF assms(1-3)] by (blast dest: wp_not_Fault)
  next
    case False
    then consider "ph = Popping" | "ph = Leaving" | f l where "ph = Sent f l" | f l where "ph = Putback f l" by blast
    then show ?thesis
    proof cases
      case 1
      with assms(4) obtain w zs where "L = ([], xs, ys)" "arrives m s xs ys w zs" by (auto simp: L)
      with take_step [of s m xs ys w zs] assms(1,2) 1 show ?thesis by fastforce
    next
      case 2
      with assms(1) have "hs = []" by (simp add: L)
      with leave_step [of s m xs ys] assms 2 show ?thesis unfolding L by fastforce
    next
      case 3
      with release_step [of f l s m hs xs ys] assms show ?thesis unfolding L by fastforce
    next
      case 4
      with return_step [of f l s m hs xs ys] assms show ?thesis unfolding L by fastforce
    qed
  qed
qed

end

section \<open>What the system guarantees\<close>

text \<open>The buffers released and fetched, in the order of the events.\<close>

fun released :: "event list \<Rightarrow> ptr list" where
  "released [] = []"
| "released (Release p # es) = p # released es"
| "released (_ # es) = released es"

fun got :: "event list \<Rightarrow> ptr list" where
  "got [] = []"
| "got (Get p # es) = p # got es"
| "got (_ # es) = got es"

lemma effects_conserve:
  "effects es (hs0, xs0, ys0) = Some (hs, xs, ys) \<Longrightarrow>
     mset (hs @ xs @ ys) + mset (got es) =
     mset (hs0 @ xs0 @ ys0) + mset (given es) + mset (refilled_by es)"
proof (induction es arbitrary: hs0 xs0 ys0)
  case (Cons e es)
  from Cons.prems obtain hs1 xs1 ys1 where e: "effect e (hs0, xs0, ys0) = Some (hs1, xs1, ys1)"
    "effects es (hs1, xs1, ys1) = Some (hs, xs, ys)"
    by (auto simp: bind_eq_Some_conv simp del: effect.simps)
  note IH = Cons.IH [OF e(2)]
  show ?case
  proof (cases e)
    case (Release p)
    with e(1) obtain hs' where "hs0 = p # hs'" "hs1 = hs'" "xs1 = xs0" "ys1 = p # ys0"
      by (cases hs0) (auto split: if_splits)
    with IH Release show ?thesis by simp
  next
    case (Get p)
    with e(1) obtain ys' where "ys0 = p # ys'" "ys1 = ys'" "xs1 = xs0" "hs1 = hs0"
      by (cases ys0) (auto split: if_splits)
    with IH Get show ?thesis by simp
  qed (use e(1) IH in \<open>auto split: if_splits\<close>)
qed simp

lemma effects_order:
  "effects es (hs0, xs0, ys0) = Some (hs, xs, ys) \<Longrightarrow> Spill \<notin> set es \<Longrightarrow>
     released es @ hs @ xs = hs0 @ xs0 @ given es"
proof (induction es arbitrary: hs0 xs0 ys0)
  case (Cons e es)
  from Cons.prems obtain hs1 xs1 ys1 where e: "effect e (hs0, xs0, ys0) = Some (hs1, xs1, ys1)"
    "effects es (hs1, xs1, ys1) = Some (hs, xs, ys)"
    by (auto simp: bind_eq_Some_conv simp del: effect.simps)
  have IH: "released es @ hs @ xs = hs1 @ xs1 @ given es" using Cons.IH [OF e(2)] Cons.prems(2) by simp
  show ?case
  proof (cases e)
    case (Release p)
    with e(1) obtain hs' where "hs0 = p # hs'" "hs1 = hs'" "xs1 = xs0"
      by (cases hs0) (auto split: if_splits)
    with IH Release show ?thesis by simp
  qed (use e(1) IH Cons.prems(2) in \<open>auto split: if_splits\<close>)
qed simp

end
