(* ===== verification/Savers.thy ===== *)
theory Savers
  imports Interleaving
begin

text \<open>
  The queue is saved in steps: a thread that saves, a producer in \<open>send\<close> or the thread of the sender
  at its end, takes the queue with one lock of its mutex, looks for a name and saves one buffer
  after the other without a lock, and returns each with a lock of the allocator. The steps make
  up \<open>save_buffers\<close> and \<open>send\<close>, and what each does to the ledger.
\<close>

section \<open>The places of a thread that saves\<close>

text \<open>
  Whether \<open>_M_state\<close> is to be set in the end, as \<open>send\<close> does, and the buffers still to be saved, the
  first and the last one.
\<close>

type_synonym task = "bool \<times> ptr \<times> ptr"

text \<open>
  About to take the queue (\<open>Seizing\<close>), at the start of \<open>save_buffer\<close> (\<open>Saving\<close>), about to look whether
  a name is in use (\<open>Probing\<close>), having found one that is not (\<open>Found\<close>), having saved the buffer
  (\<open>Saved\<close>) or not (\<open>Failed\<close>), about to set \<open>_M_state\<close> (\<open>Marking\<close>), finished (\<open>Over\<close>). The numbers
  are \<open>count\<close> and \<open>cnt\<close>.
\<close>

datatype saver =
  Seizing bool | Saving task "32 word" | Probing task tm "32 word" | Found task "32 word" string
| Saved task "32 word" | Failed task "32 word" | Marking bool | Over

fun saver_step :: "saver \<times> sender \<times> machine \<Rightarrow> (saver \<times> sender \<times> machine) res" where
  "saver_step (Seizing b, s, m) =
     andThen (pop_all (s_queue s) m) (\<lambda>(n, first, final, q, m).
       Ok (if 0 < n then Saving (b, first, final) 0 else Marking b, s\<lparr>s_queue := q\<rparr>, m))"
| "saver_step (Saving k cnt, s, m) = Ok (Probing k (tz m (s_now s)) cnt, s, m)"
| "saver_step (Probing k t cnt, s, m) =
     (let filename = spool_name (s_dir s) t cnt; cnt = cnt + 1 in
      andThen (sys_stat filename m) (\<lambda>(node, m).
        Ok (if node \<noteq> None then Probing k t cnt else Found k cnt filename, s, m)))"
| "saver_step (Found (b, first, final) cnt filename, s, m) =
     andThen (save first filename m) (\<lambda>(ok, m).
       Ok (if ok then Saved (b, first, final) cnt else Failed (b, first, final) cnt, s, m))"
| "saver_step (Saved (b, first, final) cnt, s, m) =
     (if first \<noteq> final then
        andThen (get_next first m) (\<lambda>next.
        andThen (sender_put first s m) (\<lambda>(s, m). Ok (Saving (b, next, final) cnt, s, m)))
      else
        andThen (sender_put first s m) (\<lambda>(s, m). Ok (Marking b, s, m)))"
| "saver_step (Failed (b, first, final) cnt, s, m) =
     andThen (sender_put first s m) (\<lambda>(s, m). Ok (Saving (b, first, final) cnt, s, m))"
| "saver_step (Marking b, s, m) = Ok (Over, if b then s\<lparr>s_state := Sending_files\<rparr> else s, m)"
| "saver_step (Over, s, m) = Ok (Over, s, m)"

text \<open>The start of \<open>send\<close>, up to the test of the length of the queue.\<close>

definition send_push :: "ptr \<Rightarrow> ptr \<Rightarrow> sender \<Rightarrow> machine \<Rightarrow> (saver \<times> sender \<times> machine) res" where
  "send_push first final s m =
     andThen (push_back_chain first final (s_queue s) m) (\<lambda>(n, q, m).
       Ok (if max_queued_buffers < n then Seizing True else Over, s\<lparr>s_queue := q\<rparr>, m))"

fun saver_run :: "nat \<Rightarrow> saver \<times> sender \<times> machine \<Rightarrow> (saver \<times> sender \<times> machine) res" where
  "saver_run 0 x = Ok x"
| "saver_run (Suc n) x = andThen (saver_step x) (saver_run n)"

section \<open>The steps make up saving and sending\<close>

lemma saver_run_add: "saver_run i x = Ok y \<Longrightarrow> saver_run (i + j) x = saver_run j y"
  by (induction i arbitrary: x) (auto simp: andThen_Ok_iff)

definition saver_runs :: "saver \<times> sender \<times> machine \<Rightarrow> saver \<times> sender \<times> machine \<Rightarrow> bool" where
  "saver_runs x y \<longleftrightarrow> (\<exists>n. saver_run n x = Ok y)"

lemma saver_runs_refl: "saver_runs x x"
  unfolding saver_runs_def by (rule exI [of _ 0]) simp

lemma saver_runs_step: "saver_step x = Ok y \<Longrightarrow> saver_runs y z \<Longrightarrow> saver_runs x z"
proof -
  assume "saver_step x = Ok y" and "saver_runs y z"
  then obtain n where "saver_run n y = Ok z" by (auto simp: saver_runs_def)
  with \<open>saver_step x = Ok y\<close> have "saver_run (Suc n) x = Ok z" by simp
  then show ?thesis unfolding saver_runs_def by blast
qed

lemma saver_runs_trans: "saver_runs x y \<Longrightarrow> saver_runs y z \<Longrightarrow> saver_runs x z"
  unfolding saver_runs_def using saver_run_add by metis

lemma saver_runs_snoc: "saver_runs x y \<Longrightarrow> saver_step y = Ok z \<Longrightarrow> saver_runs x z"
  using saver_runs_trans saver_runs_step saver_runs_refl by blast

lemma find_name_steps:
  "find_name (s_dir s) t c m = Ok (f, c', m') \<Longrightarrow> saver_runs (Probing k t c, s, m) (Found k c' f, s, m')"
proof (induction "s_dir s" t c m rule: find_name.induct)
  case (1 t c m)
  from 1(2) obtain n m1 where st: "sys_stat (spool_name (s_dir s) t c) m = Ok (n, m1)"
    and r: "(if n \<noteq> None then find_name (s_dir s) t (c + 1) m1 else Ok (spool_name (s_dir s) t c, c + 1, m1)) =
      Ok (f, c', m')" by (auto simp: find_name.simps [of "s_dir s" t c m] andThen_Ok_iff Let_def)
  show ?case
  proof (cases n)
    case None
    then have "saver_step (Probing k t c, s, m) = Ok (Found k c' f, s, m')" using st r by (simp add: Let_def)
    then show ?thesis by (rule saver_runs_step) (rule saver_runs_refl)
  next
    case (Some x)
    then have "saver_step (Probing k t c, s, m) = Ok (Probing k t (c + 1), s, m1)" using st by (simp add: Let_def)
    moreover have "saver_runs (Probing k t (c + 1), s, m1) (Found k c' f, s, m')"
      by (rule 1(1) [OF refl refl st refl]) (use Some r in auto)
    ultimately show ?thesis by (rule saver_runs_step)
  qed
qed

lemma save_buffer_steps:
  assumes "save_buffer f c s m = Ok (ok, c', m')"
  shows "saver_runs (Saving (b, f, l) c, s, m) (if ok then Saved (b, f, l) c' else Failed (b, f, l) c', s, m')"
proof -
  from assms obtain g m1 where fn: "find_name (s_dir s) (tz m (s_now s)) c m = Ok (g, c', m1)"
    and sv: "save f g m1 = Ok (ok, m')" by (auto simp: save_buffer_def andThen_Ok_iff)
  have "saver_step (Saving (b, f, l) c, s, m) = Ok (Probing (b, f, l) (tz m (s_now s)) c, s, m)" by simp
  moreover have "saver_step (Found (b, f, l) c' g, s, m1) =
      Ok (if ok then Saved (b, f, l) c' else Failed (b, f, l) c', s, m')" using sv by simp
  ultimately show ?thesis
    by (rule saver_runs_step [OF _ saver_runs_snoc [OF find_name_steps [OF fn]]])
qed

lemma save_loop_steps:
  "save_buffers_loop ret c f l s m = Ok (ret', s', m') \<Longrightarrow> saver_runs (Saving (b, f, l) c, s, m) (Marking b, s', m')"
proof (induction ret c f l s m rule: save_buffers_loop.induct)
  case (1 ret c f l s m)
  from 1(3) obtain ok c1 m1 where sb: "save_buffer f c s m = Ok (ok, c1, m1)"
    by (auto simp: save_buffers_loop.simps [of ret c f l s m] andThen_Ok_iff)
  from 1(3) sb have run: "(if ok then
         (if f \<noteq> l then
            andThen (get_next f m1) (\<lambda>next.
            andThen (sender_put f s m1) (\<lambda>(s, m). save_buffers_loop ret c1 next l s m))
          else andThen (sender_put f s m1) (\<lambda>(s, m). Ok (ret, s, m)))
       else andThen (sender_put f s m1) (\<lambda>(s, m). save_buffers_loop False c1 f l s m)) = Ok (ret', s', m')"
    by (simp add: save_buffers_loop.simps [of ret c f l s m])
  note first = save_buffer_steps [OF sb, of b l]
  show ?case
  proof (cases ok)
    case True
    note first = first [unfolded if_P [OF True]]
    show ?thesis
    proof (cases "f = l")
      case last: True
      then have "saver_step (Saved (b, f, l) c1, s, m1) = Ok (Marking b, s', m')"
        using run True by (auto simp: andThen_Ok_iff)
      with first show ?thesis by (rule saver_runs_snoc)
    next
      case False
      with run True obtain nx s1 m2 where r: "get_next f m1 = Ok nx" "sender_put f s m1 = Ok (s1, m2)"
        "save_buffers_loop ret c1 nx l s1 m2 = Ok (ret', s', m')" by (auto simp: andThen_Ok_iff)
      have "saver_step (Saved (b, f, l) c1, s, m1) = Ok (Saving (b, nx, l) c1, s1, m2)" using False r by simp
      moreover have "saver_runs (Saving (b, nx, l) c1, s1, m2) (Marking b, s', m')"
        using 1(1) [OF sb refl refl True False r(1,2) refl] r(3) by blast
      ultimately show ?thesis by (rule saver_runs_trans [OF saver_runs_snoc [OF first]])
    qed
  next
    case False
    note first = first [unfolded if_not_P [OF False]]
    from run False obtain s1 m2 where r: "sender_put f s m1 = Ok (s1, m2)"
      "save_buffers_loop False c1 f l s1 m2 = Ok (ret', s', m')" by (auto simp: andThen_Ok_iff)
    have "saver_step (Failed (b, f, l) c1, s, m1) = Ok (Saving (b, f, l) c1, s1, m2)" using r by simp
    moreover have "saver_runs (Saving (b, f, l) c1, s1, m2) (Marking b, s', m')"
      using 1(2) [OF sb refl refl False r(1) refl] r(2) by blast
    ultimately show ?thesis by (rule saver_runs_trans [OF saver_runs_snoc [OF first]])
  qed
qed

lemma save_buffers_steps:
  assumes "save_buffers s m = Ok (ret, s', m')" shows "saver_runs (Seizing b, s, m) (Marking b, s', m')"
proof -
  from assms obtain n f l q m1 where p: "pop_all (s_queue s) m = Ok (n, f, l, q, m1)"
    and r: "(if 0 < n then save_buffers_loop True 0 f l (s\<lparr>s_queue := q\<rparr>) m1 else Ok (True, s\<lparr>s_queue := q\<rparr>, m1)) =
      Ok (ret, s', m')" by (auto simp: save_buffers_def andThen_Ok_iff Let_def)
  have st: "saver_step (Seizing b, s, m) =
      Ok (if 0 < n then Saving (b, f, l) 0 else Marking b, s\<lparr>s_queue := q\<rparr>, m1)" using p by simp
  show ?thesis
  proof (cases "0 < n")
    case True
    with r have "save_buffers_loop True 0 f l (s\<lparr>s_queue := q\<rparr>) m1 = Ok (ret, s', m')" by simp
    from save_loop_steps [OF this] have "saver_runs (Saving (b, f, l) 0, s\<lparr>s_queue := q\<rparr>, m1) (Marking b, s', m')" .
    with st True show ?thesis by (intro saver_runs_step [of "(Seizing b, s, m)"]) simp_all
  next
    case False
    with st r have "saver_step (Seizing b, s, m) = Ok (Marking b, s', m')" by simp
    then show ?thesis by (rule saver_runs_step) (rule saver_runs_refl)
  qed
qed

text \<open>
  C20: \<open>send\<close> and the end of the thread are runs of these steps: whatever they do when nothing comes in
  between, the steps do, one after the other, also when buffers cannot be saved.
\<close>

theorem saving_steps:
  "(send_buffers f l s m = Ok (s', m') \<longrightarrow>
      (\<exists>sv s1 m1 n. send_push f l s m = Ok (sv, s1, m1) \<and> saver_run n (sv, s1, m1) = Ok (Over, s', m'))) \<and>
   (thread_step v (Leaving, s, m) = Ok (ph, s', m') \<longrightarrow>
      (\<exists>n. saver_run n (Seizing False, s, m) = Ok (Over, s', m')))"
proof (intro conjI impI)
  assume "send_buffers f l s m = Ok (s', m')"
  then obtain n q m1 where p: "push_back_chain f l (s_queue s) m = Ok (n, q, m1)"
    and r: "(if max_queued_buffers < n then
         andThen (save_buffers (s\<lparr>s_queue := q\<rparr>) m1) (\<lambda>(ret, s, m). Ok (s\<lparr>s_state := Sending_files\<rparr>, m))
       else Ok (s\<lparr>s_queue := q\<rparr>, m1)) = Ok (s', m')" by (auto simp: send_buffers_def andThen_Ok_iff Let_def)
  have pu: "send_push f l s m = Ok (if max_queued_buffers < n then Seizing True else Over, s\<lparr>s_queue := q\<rparr>, m1)"
    by (simp add: send_push_def p)
  have "saver_runs (if max_queued_buffers < n then Seizing True else Over, s\<lparr>s_queue := q\<rparr>, m1) (Over, s', m')"
  proof (cases "max_queued_buffers < n")
    case True
    with r obtain ret s2 where "save_buffers (s\<lparr>s_queue := q\<rparr>) m1 = Ok (ret, s2, m')"
      "s' = s2\<lparr>s_state := Sending_files\<rparr>" by (auto simp: andThen_Ok_iff)
    then have "saver_runs (Seizing True, s\<lparr>s_queue := q\<rparr>, m1) (Marking True, s2, m')"
      "saver_step (Marking True, s2, m') = Ok (Over, s', m')" using save_buffers_steps by simp_all
    with True show ?thesis by (simp add: saver_runs_snoc)
  qed (use r saver_runs_refl in simp)
  with pu show "\<exists>sv s1 m1 n. send_push f l s m = Ok (sv, s1, m1) \<and> saver_run n (sv, s1, m1) = Ok (Over, s', m')"
    unfolding saver_runs_def by blast
next
  assume "thread_step v (Leaving, s, m) = Ok (ph, s', m')"
  then obtain ret where "save_buffers s m = Ok (ret, s', m')" by (auto simp: andThen_Ok_iff)
  then have "saver_runs (Seizing False, s, m) (Marking False, s', m')" by (rule save_buffers_steps)
  moreover have "saver_step (Marking False, s', m') = Ok (Over, s', m')" by simp
  ultimately show "\<exists>n. saver_run n (Seizing False, s, m) = Ok (Over, s', m')"
    unfolding saver_runs_def [symmetric] by (rule saver_runs_snoc)
qed

text \<open>The thread leaves its loop and saves its queue of two.\<close>

theorem saving_steps_witness:
  "\<exists>n s' m'. saver_run n (Seizing False, sample_online,
       sample\<lparr>replies := [Err ENOENT, Ret 5, Ret 2, Err ENOENT, Ret 5, Ret 1]\<rparr>) = Ok (Over, s', m') \<and>
     thread_step insecure (Leaving, sample_online,
       sample\<lparr>replies := [Err ENOENT, Ret 5, Ret 2, Err ENOENT, Ret 5, Ret 1]\<rparr>) = Ok (Finished, s', m') \<and>
     alloc_first (s_alloc s') = 3"
proof -
  let ?m = "sample\<lparr>replies := [Err ENOENT, Ret 5, Ret 2, Err ENOENT, Ret 5, Ret 1]\<rparr>"
  have reg: "(if b then Some (Reg bs) else None) \<noteq> Some Dir" for b bs by simp
  obtain s' m' where "thread_step insecure (Leaving, sample_online, ?m) = Ok (Finished, s', m')"
    "alloc_first (s_alloc s') = 3"
    by (simp cong: andThen_weak_cong add: reg save_buffers_def save_buffers_loop.simps save_buffer_def find_name.simps
        pop_all_def send_run_simps sample_online_defs Let_def sys_stat_def save_def sys_open_write_def
        save_loop.simps sys_write_def sys_close_file_def append_file_def)
  moreover from this(1) saving_steps obtain n where "saver_run n (Seizing False, sample_online, ?m) = Ok (Over, s', m')"
    by blast
  ultimately show ?thesis by blast
qed

section \<open>What the steps do to the ledger\<close>

text \<open>The buffers a thread that saves holds; the thread of the sender that holds them in the same way.\<close>

fun keeps :: "saver \<Rightarrow> (ptr \<times> ptr) option" where
  "keeps (Saving (b, f, l) c) = Some (f, l)"
| "keeps (Probing (b, f, l) t c) = Some (f, l)"
| "keeps (Found (b, f, l) c g) = Some (f, l)"
| "keeps (Saved (b, f, l) c) = Some (f, l)"
| "keeps (Failed (b, f, l) c) = Some (f, l)"
| "keeps _ = None"

definition place :: "saver \<Rightarrow> thread" where
  "place sv = (case keeps sv of None \<Rightarrow> Finished | Some (f, l) \<Rightarrow> Sent f l)"

lemma held_place [simp]: "held (place sv) = keeps sv"
  by (auto simp: place_def split: option.splits)

lemma place_quiet [simp]: "place sv \<noteq> Popping"
  by (auto simp: place_def split: option.splits)

fun failed :: "saver \<Rightarrow> bool" where
  "failed (Failed k c) = True"
| "failed _ = False"

text \<open>What a step of a thread that saves does to its own ledger, when the queue holds \<open>xs\<close>.\<close>

fun saves_event :: "saver \<Rightarrow> ptr list \<Rightarrow> event list" where
  "saves_event (Seizing b) xs = (if xs = [] then [] else [Take])"
| "saves_event (Saved (b, f, l) c) xs = [Release f]"
| "saves_event _ xs = []"

text \<open>
  A step keeps the connection and everything it does not hold; it changes a file only when it saves
  to it.
\<close>

definition discreet :: "saver \<Rightarrow> sender \<Rightarrow> machine \<Rightarrow> sender \<Rightarrow> machine \<Rightarrow> bool" where
  "discreet sv s m s' m' \<longleftrightarrow>
     s_sock s' = s_sock s \<and> s_ssl s' = s_ssl s \<and> file_only m m' \<and> (\<forall>p. view p m' = view p m) \<and>
     (\<forall>g. files m' g = files m g \<or> (\<exists>k c. sv = Found k c g))"

definition saver_keeps :: "saver \<Rightarrow> sender \<Rightarrow> machine \<Rightarrow> ledger \<Rightarrow> saver \<times> sender \<times> machine \<Rightarrow> bool" where
  "saver_keeps sv s m L = (\<lambda>(sv', s', m').
     \<exists>L'. effects (saves_event sv (fst (snd L))) L = Some L' \<and> owns (place sv', s', m') L' \<and>
       untouched [] (place sv, s, m) L (place sv', s', m') \<and> discreet sv s m s' m')"

lemma saver_same_mem:
  assumes "owns (place sv, s, m) L" and "same_mem m m'" and "small_files m'" and "file_only m m'"
    and "keeps sv' = keeps sv" and "saves_event sv (fst (snd L)) = []"
    and "\<forall>g. files m' g = files m g \<or> (\<exists>k c. sv = Found k c g)"
  shows "saver_keeps sv s m L (sv', s, m')"
proof -
  obtain gs xs ys where L: "L = (gs, xs, ys)" by (cases L)
  have "owns (place sv', s, m') L"
    using assms(1,3,5) unfolding L
    by (cases "keeps sv") (auto simp: sender_ok_same_mem [OF assms(2)] same_mem_views(7) [OF assms(2)])
  then show ?thesis
    using assms view_same_mem [OF assms(2)] untouched_same_mem [OF assms(2)]
    by (simp add: saver_keeps_def discreet_def L)
qed

lemma saver_seizes:
  assumes "owns (place (Seizing b), s, m) (gs, xs, ys)"
  shows "wp (saver_step (Seizing b, s, m)) (saver_keeps (Seizing b) s m (gs, xs, ys))"
proof -
  have gs: "gs = []" and ok: "sender_ok m s xs ys" "small_files m" using assms by (simp_all add: place_def)
  then have ql: "queue_list m (s_queue s) xs" by (simp add: sender_ok_def)
  show ?thesis
  proof (cases "xs = []")
    case True
    have "keeps (Marking b) = keeps (Seizing b)" by simp
    from saver_same_mem [OF assms same_mem_refl ok(2) file_only_refl this] True
    have "saver_keeps (Seizing b) s m (gs, xs, ys) (Marking b, s, m)" by simp
    with pop_all_Nil [of m "s_queue s"] ql True show ?thesis by simp
  next
    case False
    from take_now [OF ok(1) False, of 0] obtain n f l q m1 where
      p: "pop_all_timed 0 (s_queue s) m = Ok (n, f, l, q, m1)" and tk: "taken s xs ys m (n, f, l, q, m1)" by auto
    with timed_pop_immediate [OF ql False] have pop: "pop_all (s_queue s) m = Ok (n, f, l, q, m1)" by simp
    from pop_all_Cons [OF ql False] pop have rl: "relinked {header (s_queue s)} m m1" "header q = header (s_queue s)"
      by auto
    let ?s = "s\<lparr>s_queue := q\<rparr>" and ?sv = "Saving (b, f, l) 0"
    from tk have t: "0 < n" "to_send m1 ?s f xs l [] ys" by (auto simp: taken_def)
    have qo: "queue_ok m1" using ok(1) queue_ok_relinked [OF _ rl(1)] by (simp add: sender_ok_def)
    have fl: "files m1 = files m" "file_only m m1"
      using relinked_fields [OF rl(1)] file_only_same [OF pop_trace(2) [OF pop]] by simp_all
    have "owns (place ?sv, ?s, m1) (xs, [], ys)"
      by (rule owns_held [OF t(2) qo]) (use ok(2) fl in \<open>simp_all add: sendable_def small_files_def\<close>)
    moreover have "untouched [] (place (Seizing b), s, m) (gs, xs, ys) (place ?sv, ?s, m1)"
      by (rule untouched_relinked [OF rl(1)]) (use rl(2) in simp_all)
    moreover have "effects (saves_event (Seizing b) xs) (gs, xs, ys) = Some (xs, [], ys)" using False gs by simp
    ultimately have "saver_keeps (Seizing b) s m (gs, xs, ys) (?sv, ?s, m1)"
      using fl relinked_view [OF rl(1)] by (auto simp: saver_keeps_def discreet_def simp del: owns.simps)
    then show ?thesis by (simp add: pop t(1))
  qed
qed

lemma saver_probes:
  assumes "owns (place (Probing k t c), s, m) L"
  shows "wp (saver_step (Probing k t c, s, m)) (saver_keeps (Probing k t c) s m L)"
proof -
  obtain b f l where k: "k = (b, f, l)" by (cases k)
  have small: "small_files m" using assms by (cases L) simp
  have st: "wp (sys_stat g m) (\<lambda>(node, m1). same_mem m m1 \<and> file_only m m1 \<and> files m1 = files m)" for g
    by (auto simp: sys_stat_def file_step_syscall file_step_def elim!: wp_mono)
  have "saver_keeps (Probing k t c) s m L (sv', s, m1)"
    if "same_mem m m1" "file_only m m1" "files m1 = files m" "keeps sv' = keeps (Probing k t c)" for sv' m1
    using that small by (intro saver_same_mem [OF assms]) (simp_all add: k small_files_def)
  then show ?thesis
    unfolding saver_step.simps Let_def by (intro wp_step [OF st]) (auto simp: k)
qed

lemma saver_saves:
  assumes "owns (place (Found (b, f, l) c g), s, m) L"
  shows "wp (saver_step (Found (b, f, l) c g, s, m)) (saver_keeps (Found (b, f, l) c g) s m L)"
proof -
  let ?sv = "Found (b, f, l) c g"
  obtain gs xs ys where L: "L = (gs, xs, ys)" by (cases L)
  from release_ledger [OF assms [unfolded L]] obtain gs' where gs: "gs = f # gs'" by auto
  have send: "sendable m gs" and small: "small_files m" using assms by (simp_all add: L place_def)
  then have v: "view f m = Ok (content m f)" "length (content m f) < 2 ^ 31" by (simp_all add: sendable_def gs)
  have keep: "saver_keeps ?sv s m L (sv', s, m1)"
    if r: "save_post g (content m f) m ok m1" "file_only m m1" "keeps sv' = keeps ?sv" for ok sv' m1
  proof -
    have g: "\<forall>h. h \<noteq> g \<longrightarrow> files m1 h = files m h" and mem: "same_mem m m1" using r(1) by (auto simp: save_post_def)
    have "length bs < 2 ^ 31" if "files m1 g = Some (Reg bs)" for bs
      using r(1) that small v(2)
      by (auto simp: save_post_def aborted_file_def small_files_def split: if_splits)
    with small g have sm: "small_files m1" unfolding small_files_def by metis
    show ?thesis
    proof (rule saver_same_mem [OF assms mem sm r(2,3)])
      show "\<forall>h. files m1 h = files m h \<or> (\<exists>k c'. ?sv = Found k c' h)" using g by auto
    qed simp
  qed
  show ?thesis
  proof (cases "save f g m")
    case (Ok y)
    obtain ok m1 where y: "y = (ok, m1)" by (cases y)
    have "save_post g (content m f) m ok m1" using wp_Ok [OF wp_save [OF v(1)]] Ok y by blast
    moreover have "file_only m m1" using save_files Ok y by blast
    ultimately show ?thesis using keep by (simp add: Ok y)
  qed (use wp_save [OF v(1), of g] in simp_all)
qed

lemma saver_releases:
  assumes "owns (place (Saved (b, f, l) c), s, m) (gs, xs, ys)"
  shows "wp (saver_step (Saved (b, f, l) c, s, m)) (saver_keeps (Saved (b, f, l) c) s m (gs, xs, ys))"
proof -
  let ?sv = "Saved (b, f, l) c"
  have "held (place ?sv) = Some (f, l)" by simp
  from release_ledger [OF assms this] obtain a m' gs' where r: "gs = f # gs'"
    "sender_put f s m = Ok (s\<lparr>s_alloc := a\<rparr>, m')" "f = l \<longleftrightarrow> gs' = []"
    "gs' \<noteq> [] \<longrightarrow> get_next f m = Ok (hd gs')" "trace m' = trace m" "relinked {f} m m'"
    and ow: "\<And>ph'. held ph' = (if gs' = [] then None else Some (hd gs', l)) \<Longrightarrow>
      owns (ph', s\<lparr>s_alloc := a\<rparr>, m') (gs', xs, f # ys)" by blast
  have "saver_keeps ?sv s m (gs, xs, ys) (sv', s\<lparr>s_alloc := a\<rparr>, m')"
    if "keeps sv' = (if gs' = [] then None else Some (hd gs', l))" for sv'
  proof -
    have "untouched [] (place ?sv, s, m) (gs, xs, ys) (place sv', s\<lparr>s_alloc := a\<rparr>, m')"
      by (rule untouched_relinked [OF r(6)]) (use r(1) in simp_all)
    with ow [of "place sv'"] that r(1) relinked_view [OF r(6)] relinked_fields [OF r(6)] file_only_same [OF r(5)]
    show ?thesis by (simp add: saver_keeps_def discreet_def del: owns.simps)
  qed
  with r show ?thesis by (cases "gs' = []") simp_all
qed

lemma saver_step_ok:
  assumes "owns (place sv, s, m) L" and "\<not> failed sv"
  shows "wp (saver_step (sv, s, m)) (saver_keeps sv s m L)"
proof -
  obtain gs xs ys where L: "L = (gs, xs, ys)" by (cases L)
  have small: "small_files m" using assms(1) by (simp add: L)
  note same = saver_same_mem [OF assms(1) same_mem_refl small file_only_refl]
  show ?thesis
  proof (cases sv)
    case (Seizing b)
    with saver_seizes assms(1) show ?thesis by (simp add: L del: owns.simps saver_step.simps)
  next
    case (Saving k c)
    obtain b f l where "k = (b, f, l)" by (cases k)
    with Saving same [of "Probing k (tz m (s_now s)) c"] show ?thesis by simp
  next
    case (Probing k t c)
    with saver_probes assms(1) show ?thesis by (simp del: owns.simps saver_step.simps)
  next
    case (Found k c g)
    obtain b f l where "k = (b, f, l)" by (cases k)
    with Found saver_saves assms(1) show ?thesis by (simp del: owns.simps saver_step.simps)
  next
    case (Saved k c)
    obtain b f l where "k = (b, f, l)" by (cases k)
    with Saved saver_releases assms(1) show ?thesis by (simp add: L del: owns.simps saver_step.simps)
  next
    case (Marking b)
    let ?s = "if b then s\<lparr>s_state := Sending_files\<rparr> else s"
    have "owns (place Over, ?s, m) L"
      by (rule owns_kept [OF assms(1) same_mem_refl]) (simp_all add: Marking)
    moreover have "untouched [] (place sv, s, m) L (place Over, ?s, m)"
      by (rule untouched_same_mem) simp_all
    ultimately show ?thesis by (simp add: Marking saver_keeps_def discreet_def)
  next
    case Over
    with same [of Over] show ?thesis by simp
  qed (use assms(2) in simp)
qed

end
