(* ===== verification/History.thy ===== *)
theory History
  imports Interleaving
begin

text \<open>
  What a run of the thread and its producers does with bytes: the contents of the buffers that are
  given and sent, in order; and when the thread keeps away from the directory.
\<close>

section \<open>The history of a run\<close>

text \<open>
  \<open>history P v c gs ws c'\<close>: a run from \<open>c\<close> to \<open>c'\<close> through configurations with the property \<open>P\<close>, in
  which no buffer goes to the directory; the buffers given on the way have the contents \<open>gs\<close>, and
  those sent completely the contents \<open>ws\<close>.
\<close>

inductive history ::
    "(conf \<Rightarrow> bool) \<Rightarrow> vtable \<Rightarrow> conf \<Rightarrow> byte list list \<Rightarrow> byte list list \<Rightarrow> conf \<Rightarrow> bool" for P v c where
  start: "P c \<Longrightarrow> history P v c [] [] c"
| step: "history P v c gs ws c' \<Longrightarrow> sys_step v c' es c'' \<Longrightarrow> Spill \<notin> set es \<Longrightarrow> P c'' \<Longrightarrow>
    history P v c (gs @ map (content (mach c'')) (given es)) (ws @ shipped c' c'') c''"

text \<open>
  Of the buffers the thread holds, the first one is sent but not yet released at \<open>Sent\<close>. The
  contents that are still to be sent: those of the other held buffers, and of the queued ones.
\<close>

fun ahead :: "thread \<Rightarrow> ptr list \<Rightarrow> ptr list" where
  "ahead (Sent f l) hs = take 1 hs"
| "ahead _ hs = []"

fun unsent :: "thread \<Rightarrow> ptr list \<Rightarrow> ptr list" where
  "unsent (Sent f l) hs = drop 1 hs"
| "unsent _ hs = hs"

lemma ahead_unsent: "ahead ph hs @ unsent ph hs = hs"
  by (cases ph) simp_all

definition pending :: "conf \<Rightarrow> ledger \<Rightarrow> byte list list" where
  "pending c L = map (content (mach c)) (unsent (fst c) (fst L) @ fst (snd L))"

lemma owns_first:
  assumes "owns (ph, s, m) (hs, xs, ys)" and "held ph = Some (f, l)" shows "\<exists>hs'. hs = f # hs'"
proof -
  from assms have "own_chain m (s_queue s) xs f hs l" by simp
  then obtain r where "hs \<noteq> []" "chain (cells m) f hs r" by (auto simp: own_chain_def split: option.splits)
  then show ?thesis by (cases hs) (auto split: option.splits)
qed

text \<open>The steps that send and release, as the ledger sees them.\<close>

lemma thread_step_ahead:
  assumes "thread_step v (ph, s, m) = Ok (ph', s', m')" and "owns (ph, s, m) (hs, xs, ys)"
    and "owns (ph', s', m') (hs', xs', ys')" and "ph \<noteq> Popping" and "ph \<noteq> Leaving"
  shows "ahead ph hs @ ships ph ph' = released (moved ph) @ ahead ph' hs'"
proof (cases ph)
  case (Holding f l)
  from owns_first [OF assms(2)] Holding obtain gs where hs: "hs = f # gs" by auto
  from assms(1) Holding have "ph' = Sent f l \<or> ph' = Putback f l"
    by (auto simp: andThen_Ok_iff split: if_splits)
  with owns_first [OF assms(3)] show ?thesis using Holding by auto
next
  case (Sent f l)
  from owns_first [OF assms(2)] Sent obtain gs where hs: "hs = f # gs" by auto
  from assms(1) Sent have "ph' = Check False \<or> (\<exists>g. ph' = Holding g l)"
    by (auto simp: andThen_Ok_iff split: if_splits)
  with hs show ?thesis using Sent by auto
next
  case (Taken f l)
  with assms(1) have "ph' = Holding f l \<or> ph' = Putback f l" by (auto simp: andThen_Ok_iff split: if_splits)
  with Taken show ?thesis by auto
qed (use assms(1,4,5) in \<open>auto simp: andThen_Ok_iff split: if_splits option.splits\<close>)

lemma sys_step_ahead:
  assumes "sys_step v c es c'" and "owns c L" and "owns c' L'" and "effects es L = Some L'"
  shows "ahead (fst c) (fst L) @ ships (fst c) (fst c') = released es @ ahead (fst c') (fst L')"
  using assms(1)
proof cases
  case (work ph s m)
  obtain ph' s' m' where c': "c' = (ph', s', m')" by (cases c')
  obtain hs xs ys hs' xs' ys' where L: "L = (hs, xs, ys)" "L' = (hs', xs', ys')" by (metis prod.collapse)
  show ?thesis
    using thread_step_ahead [of v ph s m ph' s' m' hs xs ys hs' xs' ys'] work assms(2,3)
    by (simp add: c' L del: owns.simps thread_step.simps)
next
  case (pop s m xs ys w zs)
  from pop(5) have "\<forall>f l. fst c' \<noteq> Sent f l"
    by (auto simp: andThen_Ok_iff Let_def split: if_splits prod.splits)
  then have "ahead (fst c') (fst L') = []" by (cases "fst c'") auto
  then show ?thesis by (simp add: pop)
next
  case (leave s m xs ys)
  from leave(5) have "fst c' = Finished" by (auto simp: andThen_Ok_iff)
  then show ?thesis by (simp add: leave)
next
  case (give ph s m hs xs ys f zs l s' m')
  have "fst L' = fst L" using assms(4) by (cases L) (auto simp: give split: if_splits)
  then show ?thesis by (simp add: give)
next
  case (get ph s m hs xs y ys p a m')
  have "fst L' = fst L" using assms(4) by (cases L) (auto simp: get split: if_splits)
  then show ?thesis by (simp add: get)
next
  case (refill ph s m hs xs p a m' zs)
  have "fst L' = fst L" using assms(4) by (cases L) (auto simp: refill split: if_splits)
  then show ?thesis by (simp add: refill)
next
  case (fill ph s m hs xs ys p data ok m')
  have "fst L' = fst L" using assms(4) by (cases L) (auto simp: fill split: if_splits)
  then show ?thesis by (simp add: fill)
qed (use assms(4) in auto)

context transport
begin

text \<open>What a step sends and what is pending after it, is what was pending and what it was given.\<close>

lemma sys_step_pending:
  assumes "sys_step v c es c'" and "owns c L" and "owns c' L'" and "effects es L = Some L'"
    and "sound es c L c'" and "Spill \<notin> set es"
  shows "shipped c c' @ pending c' L' = pending c L @ map (content (mach c')) (given es)"
proof -
  obtain hs xs ys hs' xs' ys' where L: "L = (hs, xs, ys)" "L' = (hs', xs', ys')" by (metis prod.collapse)
  let ?ph = "fst c" and ?ph' = "fst c'"
  have "released es @ hs' @ xs' = hs @ xs @ given es" using effects_order assms(4,6) by (simp add: L)
  moreover have "ahead ?ph hs @ ships ?ph ?ph' = released es @ ahead ?ph' hs'"
    using sys_step_ahead [OF assms(1-4)] by (simp add: L)
  moreover have "hs' = ahead ?ph' hs' @ unsent ?ph' hs'" "hs = ahead ?ph hs @ unsent ?ph hs"
    by (simp_all add: ahead_unsent)
  ultimately have e: "ships ?ph ?ph' @ unsent ?ph' hs' @ xs' = unsent ?ph hs @ xs @ given es"
    by (metis append.assoc same_append_eq)
  have same: "content (mach c') p = content (mach c) p" if "p \<in> set (hs @ xs)" for p
    using assms(5) that by (simp add: sound_def L content_def)
  have "set (unsent ?ph hs) \<subseteq> set hs" using ahead_unsent [of ?ph hs] by (metis set_append sup_ge2)
  then have old: "map (content (mach c')) (unsent ?ph hs @ xs) = map (content (mach c)) (unsent ?ph hs @ xs)"
    using same by auto
  have "set (ships ?ph ?ph') \<subseteq> set hs"
  proof (cases "ships ?ph ?ph'")
    case (Cons p ps)
    then obtain f l g k where ph: "?ph = Holding f l" "?ph' = Sent g k" by (cases "(?ph, ?ph')" rule: ships.cases) auto
    then have "owns (Holding f l, obj c, mach c) (hs, xs, ys)" using assms(2) L(1) by (metis prod.collapse)
    from owns_first [OF this] ph show ?thesis by auto
  qed simp
  then have "shipped c c' = map (content (mach c')) (ships ?ph ?ph')" using same by (auto simp: shipped_def)
  then have "shipped c c' @ pending c' L' = map (content (mach c')) (ships ?ph ?ph' @ unsent ?ph' hs' @ xs')"
    by (simp add: pending_def L)
  also have "\<dots> = map (content (mach c')) (unsent ?ph hs @ xs) @ map (content (mach c')) (given es)"
    unfolding e by simp
  finally show ?thesis unfolding old by (simp add: pending_def L)
qed

text \<open>
  The contents sent so far and those that are pending, in this order, are those that were pending
  at first and those given since.
\<close>

lemma history_order:
  assumes "history P v c0 gs ws c" and "owns c0 L0" and "inv (obj c0)" and "online v c0"
  shows "\<exists>L. owns c L \<and> inv (obj c) \<and> online v c \<and> ws @ pending c L = pending c0 L0 @ gs"
  using assms(1)
proof induction
  case start
  with assms(2-4) show ?case by (intro exI [of _ L0]) simp
next
  case (step gs ws c' es c'')
  from step.IH obtain L where L: "owns c' L" "inv (obj c')" "online v c'" "ws @ pending c' L = pending c0 L0 @ gs"
    by blast
  from sys_step_ok [OF step.hyps(2) L(1-3)] obtain L' where L': "effects es L = Some L'" "owns c'' L'"
    "sound es c' L c''" by blast
  from sys_step_pending [OF step.hyps(2) L(1) L'(2,1,3) step.hyps(3)] L(4)
  have "(ws @ shipped c' c'') @ pending c'' L' = pending c0 L0 @ gs @ map (content (mach c'')) (given es)"
    by (metis append.assoc)
  with L'(2) sound_keeps [OF L'(3)] show ?case by (metis append.assoc)
qed

end

text \<open>The connection is there.\<close>

definition connected :: "vtable \<Rightarrow> conf \<Rightarrow> bool" where
  "connected v c \<longleftrightarrow> v_connected v (obj c)"

lemma connected_online: "connected v c \<Longrightarrow> online v c"
  by (cases "(v, c)" rule: online.cases) (auto simp: connected_def)

text \<open>The thread is on its way through the directory.\<close>

fun in_directory :: "thread \<Rightarrow> bool" where
  "in_directory Connecting = True"
| "in_directory Opening = True"
| "in_directory Reading = True"
| "in_directory (Entered d) = True"
| "in_directory Listed = True"
| "in_directory _ = False"

lemma sys_step_stays:
  assumes "sys_step v c es c'" and "s_state (obj c) = Sending_queued_buffers" and "\<not> in_directory (fst c)"
  shows "\<not> in_directory (fst c')"
  using assms(1)
proof cases
  case (work ph s m)
  with assms(2,3) show ?thesis
    by (cases ph) (auto simp: andThen_Ok_iff split: if_splits)
next
  case (pop s m xs ys w zs)
  then show ?thesis by (auto simp: andThen_Ok_iff Let_def split: if_splits prod.splits)
next
  case (leave s m xs ys)
  then show ?thesis by (auto simp: andThen_Ok_iff)
qed (use assms(3) in auto)

context transport
begin

text \<open>As long as no buffer goes to the directory, a thread at the queue does not go there.\<close>

lemma reaches_stays:
  assumes "reaches v c0 es c" and "Spill \<notin> set es" and "owns c0 L0" and "inv (obj c0)" and "online v c0"
    and "s_state (obj c0) = Sending_queued_buffers" and "\<not> in_directory (fst c0)"
  shows "s_state (obj c) = Sending_queued_buffers \<and> \<not> in_directory (fst c) \<and> files (mach c) = files (mach c0)"
  using assms(1,2)
proof induction
  case start
  with assms(6,7) show ?case by simp
next
  case (step es c' fs c'')
  then have ih: "s_state (obj c') = Sending_queued_buffers" "\<not> in_directory (fst c')"
    "files (mach c') = files (mach c0)" by simp_all
  from reaches_ok [OF step.hyps(1) assms(3-5)] obtain L where L: "owns c' L" "inv (obj c')" "online v c'"
    by blast
  from sys_step_ok [OF step.hyps(2) L] obtain L' where so: "sound fs c' L c''" by blast
  moreover have "\<not> at_entry (fst c')" "fst c' \<noteq> Listed" using ih(2) by (cases "fst c'"; simp)+
  ultimately show ?case
    using ih sys_step_stays [OF step.hyps(2)] step.prems by (simp add: sound_def)
qed

end

end
