(* ===== verification/Concurrency.thy ===== *)
theory Concurrency
  imports Savers History "HOL-Library.Sublist"
begin

text \<open>
  The whole system: the thread of the sender, producers that give, get and fill buffers, and any
  number of threads that save the queue at the same time, in \<open>send\<close> or at the end of \<open>run\<close>, each a
  step at a time, in any order.
\<close>

section \<open>Several holders\<close>

text \<open>
  The ledger of the whole system: what the thread holds, what each thread that saves holds, the
  queue, the free list. All of them hold in the same sense, each a chain of its own.
\<close>

type_synonym net = "conf \<times> saver list"
type_synonym accounts = "ptr list \<times> ptr list list \<times> ptr list \<times> ptr list"

definition hold :: "(thread \<times> ptr list) list \<Rightarrow> sender \<Rightarrow> machine \<Rightarrow> ptr list \<Rightarrow> ptr list \<Rightarrow> bool" where
  "hold as s m xs ys \<longleftrightarrow>
     (\<forall>(ph, hs) \<in> set as. owns (ph, s, m) (hs, xs, ys)) \<and> distinct (concat (map snd as))"

fun net_owns :: "net \<Rightarrow> accounts \<Rightarrow> bool" where
  "net_owns ((ph, s, m), svs) (hs, gss, xs, ys) \<longleftrightarrow>
     length gss = length svs \<and> hold ((ph, hs) # zip (map place svs) gss) s m xs ys"

lemma effects_subset:
  assumes "effects es (hs, xs, ys) = Some (hs', xs', ys')"
  shows "set (hs' @ xs' @ ys') \<subseteq> set (hs @ xs @ ys) \<union> set (given es) \<union> set (refilled_by es)"
proof -
  have "set_mset (mset (hs' @ xs' @ ys') + mset (got es)) =
      set_mset (mset (hs @ xs @ ys) + mset (given es) + mset (refilled_by es))"
    by (simp only: effects_conserve [OF assms])
  then show ?thesis by (simp only: set_mset_union set_mset_mset) blast
qed

text \<open>A holder is not disturbed by a step of another one.\<close>

lemma owns_other:
  assumes "owns (ph, s, m) (ks, xs, ys)" and "untouched es (ph0, s, m) (hs, xs, ys) (ph1, s', m')"
    and "sender_ok m' s' xs' ys'" and "small_files m'"
    and "set (hs' @ xs' @ ys') \<subseteq> set (hs @ xs @ ys) \<union> set (given es) \<union> set (refilled_by es)"
    and "set ks \<inter> (set hs \<union> touched es (ph0, s, m)) = {}"
  shows "owns (ph, s', m') (ks, xs', ys') \<and> set ks \<inter> set hs' = {} \<and> (\<forall>p \<in> set ks. view p m' = view p m)"
proof -
  note ow = owns_facts [OF assms(1)]
  have kept: "cells m' p = cells m p \<and> view p m' = view p m" if "p \<in> set ks" for p
  proof -
    have "cells m p \<noteq> None" "p \<noteq> header (s_queue s)" "p \<notin> set (hs @ xs @ ys)" "p \<notin> touched es (ph0, s, m)"
      using ow(7,10) assms(6) that by auto
    with assms(2) show ?thesis by (simp add: untouched_def)
  qed
  have "p \<notin> set (refilled_by es)" if "p \<in> set ks" for p
  proof -
    have "cells m p \<noteq> None" using ow(10) that by simp
    with assms(2) show ?thesis by (auto simp: untouched_def)
  qed
  then have "set ks \<inter> set (refilled_by es) = {}" by blast
  then have "set ks \<inter> set (hs' @ xs' @ ys') = {}" using assms(5,6) ow(7) by (auto simp: touched_def)
  moreover have "header (s_queue s') = header (s_queue s)" using assms(2) by (simp add: untouched_def)
  ultimately have "owns (ph, s', m') (ks, xs', ys')" using kept by (intro owns_changed [OF assms(1,3,4)]) auto
  with kept \<open>set ks \<inter> set (hs' @ xs' @ ys') = {}\<close> show ?thesis by auto
qed

lemma hold_step:
  assumes "hold (as @ (ph, hs) # bs) s m xs ys" and "owns (ph', s', m') (hs', xs', ys')"
    and "untouched es (ph0, s, m) (hs, xs, ys) (ph1, s', m')"
    and "set (hs' @ xs' @ ys') \<subseteq> set (hs @ xs @ ys) \<union> set (given es) \<union> set (refilled_by es)"
    and "touched es (ph0, s, m) \<inter> set (concat (map snd (as @ bs))) = {}"
  shows "hold (as @ (ph', hs') # bs) s' m' xs' ys' \<and>
         (\<forall>p \<in> set (concat (map snd (as @ bs))). view p m' = view p m)"
proof -
  have d: "distinct (concat (map snd (as @ (ph, hs) # bs)))" using assms(1) by (simp add: hold_def)
  have ok: "sender_ok m' s' xs' ys'" "small_files m'" using owns_facts(1,2) [OF assms(2)] .
  have other: "owns (p, s', m') (ks, xs', ys') \<and> set ks \<inter> set hs' = {} \<and> (\<forall>q \<in> set ks. view q m' = view q m)"
    if "(p, ks) \<in> set (as @ bs)" for p ks
  proof (rule owns_other [OF _ assms(3) ok assms(4)])
    show "owns (p, s, m) (ks, xs, ys)" using assms(1) that by (auto simp: hold_def)
    have "set ks \<subseteq> set (concat (map snd (as @ bs)))" using that by force
    moreover have "set (concat (map snd (as @ bs))) \<inter> set hs = {}" using d by auto
    ultimately show "set ks \<inter> (set hs \<union> touched es (ph0, s, m)) = {}" using assms(5) by blast
  qed
  then have "\<forall>(p, ks) \<in> set (as @ (ph', hs') # bs). owns (p, s', m') (ks, xs', ys')"
    using assms(2) by (auto simp del: owns.simps)
  moreover have "set (concat (map snd (as @ bs))) \<inter> set hs' = {}" using other by fastforce
  then have "distinct (concat (map snd (as @ (ph', hs') # bs)))" using d owns_facts(11) [OF assms(2)] by auto
  moreover have "\<forall>q \<in> set (concat (map snd (as @ bs))). view q m' = view q m" using other by fastforce
  ultimately show ?thesis by (simp add: hold_def del: owns.simps)
qed

text \<open>A new holder that holds nothing yet.\<close>

lemma hold_new:
  assumes "hold (a # as) s m xs ys" and "held ph = None"
  shows "hold (a # as @ [(ph, [])]) s m xs ys"
proof -
  obtain ph0 hs0 where a: "a = (ph0, hs0)" by (cases a)
  with assms(1) have "owns (ph0, s, m) (hs0, xs, ys)" by (auto simp: hold_def)
  from owns_facts(1,2) [OF this] assms show ?thesis by (auto simp: hold_def a)
qed

lemma net_owns_main:
  assumes "net_owns ((ph, s, m), svs) (hs, gss, xs, ys)" shows "owns (ph, s, m) (hs, xs, ys)"
  using assms by (auto simp: hold_def simp del: owns.simps)

lemma net_owns_saver:
  assumes "net_owns ((ph, s, m), svs) (hs, gss, xs, ys)" and "i < length svs"
  shows "owns (place (svs ! i), s, m) (gss ! i, xs, ys)"
proof -
  have "(place (svs ! i), gss ! i) \<in> set (zip (map place svs) gss)" using assms by (force simp: in_set_zip)
  with assms(1) show ?thesis by (auto simp: hold_def simp del: owns.simps)
qed

lemma net_owns_distinct:
  assumes "net_owns ((ph, s, m), svs) (hs, gss, xs, ys)" shows "distinct (hs @ concat gss @ xs @ ys)"
proof -
  have len: "length gss = length svs" and d: "distinct (concat (map snd ((ph, hs) # zip (map place svs) gss)))"
    using assms unfolding net_owns.simps hold_def by blast+
  from len have "map snd (zip (map place svs) gss) = gss" by simp
  with d have "distinct (hs @ concat gss)" by (simp only: list.map(2) snd_conv concat.simps(2))
  moreover have "set gs \<inter> set (xs @ ys) = {}" if "gs \<in> set gss" for gs
  proof -
    from that len obtain i where "i < length svs" "gs = gss ! i" by (metis in_set_conv_nth)
    with owns_facts(7) [OF net_owns_saver [OF assms]] show ?thesis by auto
  qed
  ultimately show ?thesis using owns_facts(3-5,7) [OF net_owns_main [OF assms]] by auto
qed

lemma net_owns_unique:
  assumes "net_owns n N" and "net_owns n N'" shows "N' = N"
proof -
  obtain ph s m svs where n: "n = ((ph, s, m), svs)" by (metis prod.collapse)
  obtain hs gss xs ys hs' gss' xs' ys' where N: "N = (hs, gss, xs, ys)" "N' = (hs', gss', xs', ys')"
    by (metis prod.collapse)
  note o = assms [unfolded n N]
  from owns_unique [OF net_owns_main [OF o(1)] net_owns_main [OF o(2)]] have e: "hs' = hs" "xs' = xs" "ys' = ys"
    by simp_all
  have len: "length gss = length svs" "length gss' = length svs" using o by simp_all
  have "gss' ! i = gss ! i" if "i < length svs" for i
    using owns_unique [OF net_owns_saver [OF o(1) that] net_owns_saver [OF o(2) that]] by simp
  with len have "gss' = gss" by (intro nth_equalityI) simp_all
  with e N show ?thesis by simp
qed

section \<open>The system\<close>

text \<open>The label of a step that takes the queue away to save it, or goes on after a save that failed.\<close>

fun seizes :: "saver \<Rightarrow> saver \<Rightarrow> event list" where
  "seizes (Seizing b) (Saving k c) = [Spill]"
| "seizes (Failed k c) sv = [Reuse]"
| "seizes _ _ = []"

text \<open>The buffer a step saves, and the buffers held that are not saved yet.\<close>

fun stows :: "saver \<Rightarrow> saver \<Rightarrow> ptr list" where
  "stows (Found (b, f, l) c g) (Saved k d) = [f]"
| "stows _ _ = []"

fun to_save :: "saver \<Rightarrow> ptr list \<Rightarrow> ptr list" where
  "to_save (Saved k c) gs = drop 1 gs"
| "to_save _ gs = gs"

definition unsaved :: "saver list \<Rightarrow> ptr list list \<Rightarrow> ptr list" where
  "unsaved svs gss = concat (map2 to_save svs gss)"

lemma unsaved_append:
  "length gas = length as \<Longrightarrow> unsaved (as @ sv # bs) (gas @ gs # gbs) = unsaved as gas @ to_save sv gs @ unsaved bs gbs"
  by (simp add: unsaved_def)

lemma unsaved_snoc: "length gss = length svs \<Longrightarrow> unsaved (svs @ [sv]) (gss @ [[]]) = unsaved svs gss"
  by (cases sv) (simp_all add: unsaved_def)

lemma to_save_subset: "set (to_save sv gs) \<subseteq> set gs"
  by (cases sv) (auto dest: in_set_dropD)

lemma unsaved_subset: "set (unsaved svs gss) \<subseteq> set (concat gss)"
  using to_save_subset by (fastforce simp: unsaved_def dest: set_zip_rightD)

text \<open>
  A step of the system with what it does, and the buffer it saves: the thread or a producer
  works as before, without saving; a producer pushes a chain it owns and goes on to save, if the
  queue is overfull; the thread leaves its loop and goes on to save; a thread that saves works on.
  The step of the one that could not save a buffer returns the buffer and goes on with it
  (\<open>save_buffers_retry\<close>); its label is \<open>Reuse\<close>, and it breaks what the others keep.
\<close>

inductive net_step :: "vtable \<Rightarrow> net \<Rightarrow> event list \<Rightarrow> ptr list \<Rightarrow> net \<Rightarrow> bool" for v where
  main: "net_owns (c, svs) (hs, gss, xs, ys) \<Longrightarrow> sys_step v c es c' \<Longrightarrow> Spill \<notin> set es \<Longrightarrow>
    touched es c \<inter> set (concat gss) = {} \<Longrightarrow> net_step v (c, svs) es [] (c', svs)"
| push: "net_owns ((ph, s, m), svs) (hs, gss, xs, ys) \<Longrightarrow> to_give m s xs ys f zs l \<Longrightarrow>
    set zs \<inter> set (hs @ concat gss) = {} \<Longrightarrow> send_push f l s m = Ok (sv, s', m') \<Longrightarrow>
    net_step v ((ph, s, m), svs) [Give zs] [] ((ph, s', m'), svs @ [sv])"
| leave: "net_step v ((Leaving, s, m), svs) [] [] ((Finished, s, m), svs @ [Seizing False])"
| save: "saver_step (sv, s, m) = Ok (sv', s', m') \<Longrightarrow>
    net_step v ((ph, s, m), as @ sv # bs) (seizes sv sv') (stows sv sv') ((ph, s', m'), as @ sv' # bs)"

text \<open>
  What a step does to the buffers and their contents: none is lost; what is sent and still to be
  sent keeps its order; a content is sent, to be sent, being saved or saved.
\<close>

fun accounted_for :: "event list \<Rightarrow> ptr list \<Rightarrow> net \<Rightarrow> accounts \<Rightarrow> net \<Rightarrow> accounts \<Rightarrow> bool" where
  "accounted_for es os (c, svs) (hs, gss, xs, ys) (c', svs') (hs', gss', xs', ys') \<longleftrightarrow>
     mset (hs' @ concat gss' @ xs' @ ys') + mset (got es) =
       mset (hs @ concat gss @ xs @ ys) + mset (given es) + mset (refilled_by es) \<and>
     subseq (shipped c c' @ pending c' (hs', xs', ys'))
       (pending c (hs, xs, ys) @ map (content (mach c')) (given es)) \<and>
     (Spill \<notin> set es \<longrightarrow>
       shipped c c' @ pending c' (hs', xs', ys') = pending c (hs, xs, ys) @ map (content (mach c')) (given es)) \<and>
     mset (shipped c c' @ pending c' (hs', xs', ys')) + mset (map (content (mach c')) (unsaved svs' gss')) +
         mset (map (content (mach c)) os) =
       mset (pending c (hs, xs, ys)) + mset (map (content (mach c)) (unsaved svs gss)) +
         mset (map (content (mach c')) (given es))"

lemma accounted_forI:
  assumes "mset (hs' @ concat gss' @ xs' @ ys') + mset (got es) =
       mset (hs @ concat gss @ xs @ ys) + mset (given es) + mset (refilled_by es)"
    and "shipped c c' @ pending c' (hs', xs', ys') = pending c (hs, xs, ys) @ map (content (mach c')) (given es)"
    and "mset (map (content (mach c')) (unsaved svs' gss')) + mset (map (content (mach c)) os) =
       mset (map (content (mach c)) (unsaved svs gss))"
  shows "accounted_for es os (c, svs) (hs, gss, xs, ys) (c', svs') (hs', gss', xs', ys')"
  using assms(1,3) arg_cong [OF assms(2), of mset] by (simp add: assms(2) ac_simps)

context transport
begin

text \<open>
  A step keeps the connection in order, puts on it just what it sends, and leaves files alone, but
  for one it deals with and one a thread saves to.
\<close>

definition orderly :: "saver list \<Rightarrow> conf \<Rightarrow> conf \<Rightarrow> bool" where
  "orderly svs c c' \<longleftrightarrow>
     inv (obj c') \<and> online v c' \<and> res (obj c') (mach c') = res (obj c) (mach c) \<and> later (mach c) (mach c') \<and>
     (v_connected v (obj c) \<and> v_connected v (obj c') \<and> \<not> at_entry (fst c) \<longrightarrow>
        out (obj c') (mach c') = out (obj c) (mach c) @ concat (shipped c c')) \<and> carries c c' \<and>
     (\<forall>f bs. files (mach c) f = Some (Reg bs) \<longrightarrow> files (mach c') f = Some (Reg bs) \<or>
        at_entry (fst c) \<and> (out (obj c) (mach c') = out (obj c) (mach c) @ bs \<or> unreadable f (mach c')) \<or>
        (\<exists>k n. Found k n f \<in> set svs))"

lemma sound_orderly: "sound es c L c' \<Longrightarrow> orderly svs c c'"
  unfolding sound_def orderly_def file_fate_def by blast

lemma main_ok:
  assumes "net_owns (c, svs) (hs, gss, xs, ys)" and "inv (obj c)" and "online v c"
    and "sys_step v c es c'" and "Spill \<notin> set es" and "touched es c \<inter> set (concat gss) = {}"
  shows "\<exists>N'. net_owns (c', svs) N' \<and> accounted_for es [] (c, svs) (hs, gss, xs, ys) (c', svs) N' \<and> orderly svs c c'"
proof -
  obtain ph s m ph' s' m' where c: "c = (ph, s, m)" "c' = (ph', s', m')" by (metis prod.collapse)
  from assms(1) have len: "length gss = length svs" and ho: "hold ([] @ (ph, hs) # zip (map place svs) gss) s m xs ys"
    by (simp_all add: c)
  then have ow: "owns c (hs, xs, ys)" by (auto simp: hold_def c(1) simp del: owns.simps)
  from sys_step_ok [OF assms(4) ow assms(2,3)] obtain L' where
    L': "effects es (hs, xs, ys) = Some L'" "owns c' L'" "sound es c (hs, xs, ys) c'" by blast
  obtain hs' xs' ys' where l: "L' = (hs', xs', ys')" by (cases L')
  have un: "untouched es (ph, s, m) (hs, xs, ys) (ph', s', m')" using L'(3) by (simp add: sound_def c)
  have g: "map snd (zip (map place svs) gss) = gss" using len by simp
  from hold_step [OF ho L'(2) [unfolded c l] un effects_subset [OF L'(1) [unfolded l]]] assms(6)
  have h: "hold ((ph', hs') # zip (map place svs) gss) s' m' xs' ys'"
    "\<forall>p \<in> set (concat gss). view p m' = view p m" by (simp_all add: c g)
  have "mset (hs' @ xs' @ ys') + mset (got es) = mset (hs @ xs @ ys) + mset (given es) + mset (refilled_by es)"
    using effects_conserve L'(1) by (simp add: l)
  then have "mset (hs' @ concat gss @ xs' @ ys') + mset (got es) =
      mset (hs @ concat gss @ xs @ ys) + mset (given es) + mset (refilled_by es)" by (simp add: ac_simps)
  moreover have "map (content m') (unsaved svs gss) = map (content m) (unsaved svs gss)"
    using h(2) unsaved_subset unfolding content_def by (intro map_cong refl) (metis subsetD)
  then have "mset (map (content (mach c')) (unsaved svs gss)) + mset (map (content (mach c)) []) =
      mset (map (content (mach c)) (unsaved svs gss))"
    by (simp only: c snd_conv list.map(1) mset.simps(1) add_0_right)
  ultimately have "accounted_for es [] (c, svs) (hs, gss, xs, ys) (c', svs) (hs', gss, xs', ys')"
    using sys_step_pending [OF assms(4) ow L'(2,1,3) assms(5)] unfolding l by (intro accounted_forI)
  moreover have "net_owns (c', svs) (hs', gss, xs', ys')" using h(1) len by (simp add: c)
  moreover have "orderly svs c c'" by (rule sound_orderly [OF L'(3)])
  ultimately show ?thesis by blast
qed

lemma push_ok:
  assumes "net_owns ((ph, s, m), svs) (hs, gss, xs, ys)" and "inv s" and "online v (ph, s, m)"
    and "to_give m s xs ys f zs l" and "set zs \<inter> set (hs @ concat gss) = {}"
    and "send_push f l s m = Ok (sv, s', m')"
  shows "\<exists>N'. net_owns ((ph, s', m'), svs @ [sv]) N' \<and>
           accounted_for [Give zs] [] ((ph, s, m), svs) (hs, gss, xs, ys) ((ph, s', m'), svs @ [sv]) N' \<and> orderly svs (ph, s, m) (ph, s', m')"
proof -
  from assms(1) have len: "length gss = length svs" and ho: "hold ([] @ (ph, hs) # zip (map place svs) gss) s m xs ys"
    by simp_all
  note ow = net_owns_main [OF assms(1)]
  note ows = owns_facts [OF ow]
  from give_pushes [OF ows(1) assms(4)] obtain q m1 where
    p: "push_back_chain f l (s_queue s) m = Ok (of_nat (length (xs @ zs)), q, m1)"
      "sender_ok m1 (s\<lparr>s_queue := q\<rparr>) (xs @ zs) ys" "header q = header (s_queue s)"
      "relinked (set (zs @ header (s_queue s) # xs)) m m1" "host_only m m1" by blast
  with assms(6) have run: "s' = s\<lparr>s_queue := q\<rparr>" "m' = m1" "keeps sv = None"
    by (auto simp: send_push_def split: if_splits)
  note rl = relinked_fields [OF p(4)] relinked_view [OF p(4)]
  have small: "small_files m1" using ows(2) rl by (simp add: small_files_def)
  have kept: "\<forall>r \<in> set hs. cells m1 r = cells m r \<and> view r m1 = view r m"
  proof
    fix r assume "r \<in> set hs"
    then have "r \<notin> set (zs @ header (s_queue s) # xs)" using ows(7) assms(5) by auto
    then show "cells m1 r = cells m r \<and> view r m1 = view r m" using p(4) rl unfolding relinked_def by blast
  qed
  have hs: "set hs \<inter> set ((xs @ zs) @ ys) = {}" using ows(7) assms(5) by auto
  have ow': "owns (ph, s', m') (hs, xs @ zs, ys)"
    unfolding run by (rule owns_changed [OF ow p(2) small kept _ hs]) (simp add: p(3))
  have un: "untouched [Give zs] (ph1, s, m) (hs, xs, ys) (ph1, s', m')" for ph1
    unfolding run by (rule give_untouched [OF p(4)]) (simp add: p(3))
  have g: "map snd (zip (map place svs) gss) = gss" using len by simp
  have "hold ([] @ (ph, hs) # zip (map place svs) gss) s' m' (xs @ zs) ys \<and>
      (\<forall>p \<in> set (concat (map snd ([] @ zip (map place svs) gss))). view p m' = view p m)"
    by (rule hold_step [OF ho ow' un [of Finished]]) (use assms(5) in \<open>auto simp: touched_def g\<close>)
  then have "hold ((ph, hs) # zip (map place svs) gss @ [(place sv, [])]) s' m' (xs @ zs) ys"
    using run(3) by (intro hold_new) simp_all
  then have "net_owns ((ph, s', m'), svs @ [sv]) (hs, gss @ [[]], xs @ zs, ys)" using len by simp
  moreover have "content m' = content m" using rl by (intro content_cong) (simp add: run(2))
  then have "accounted_for [Give zs] [] ((ph, s, m), svs) (hs, gss, xs, ys)
      ((ph, s', m'), svs @ [sv]) (hs, gss @ [[]], xs @ zs, ys)"
    by (intro accounted_forI) (simp_all add: shipped_def pending_def unsaved_snoc [OF len])
  moreover have "sound [Give zs] (ph, s, m) (hs, xs, ys) (ph, s', m')"
    by (rule producer_sound [OF assms(2,3) _ _ p(5) _ _ _ _ un]) (use rl in \<open>simp_all add: run\<close>)
  then have "orderly svs (ph, s, m) (ph, s', m')" by (rule sound_orderly)
  ultimately show ?thesis by blast
qed

lemma leave_ok:
  assumes "net_owns ((Leaving, s, m), svs) (hs, gss, xs, ys)" and "inv s"
  shows "net_owns ((Finished, s, m), svs @ [Seizing False]) (hs, gss @ [[]], xs, ys) \<and>
     accounted_for [] [] ((Leaving, s, m), svs) (hs, gss, xs, ys)
       ((Finished, s, m), svs @ [Seizing False]) (hs, gss @ [[]], xs, ys) \<and>
     orderly svs (Leaving, s, m) (Finished, s, m)"
proof (intro conjI)
  from assms(1) have len: "length gss = length svs" and ho: "hold ([] @ (Leaving, hs) # zip (map place svs) gss) s m xs ys"
    by simp_all
  then have "owns (Leaving, s, m) (hs, xs, ys)" by (auto simp: hold_def simp del: owns.simps)
  then have ow: "owns (Finished, s, m) (hs, xs, ys)" and hs: "hs = []" by simp_all
  have un: "untouched [] (Leaving, s, m) (hs, xs, ys) (Finished, s, m)" by (rule untouched_same_mem) simp_all
  have "hold ([] @ (Finished, hs) # zip (map place svs) gss) s m xs ys \<and>
      (\<forall>p \<in> set (concat (map snd ([] @ zip (map place svs) gss))). view p m = view p m)"
    by (rule hold_step [OF ho ow un]) (simp_all add: touched_def)
  then have "hold ((Finished, hs) # zip (map place svs) gss @ [(place (Seizing False), [])]) s m xs ys"
    by (intro hold_new) simp_all
  with len show "net_owns ((Finished, s, m), svs @ [Seizing False]) (hs, gss @ [[]], xs, ys)" by simp
  show "accounted_for [] [] ((Leaving, s, m), svs) (hs, gss, xs, ys)
      ((Finished, s, m), svs @ [Seizing False]) (hs, gss @ [[]], xs, ys)"
    by (rule accounted_forI) (simp_all add: shipped_def pending_def unsaved_snoc [OF len])
  have "sound [] (Leaving, s, m) (hs, xs, ys) (Finished, s, m)"
    by (rule sound_undisturbed) (use assms(2) in \<open>simp_all add: shipped_def\<close>)
  then show "orderly svs (Leaving, s, m) (Finished, s, m)" by (rule sound_orderly)
qed

text \<open>The step of a thread that saves, as the ledger of the whole system sees it.\<close>

lemma save_accounts:
  assumes "saver_step (sv, s, m) = Ok (sv', s', m')" and "owns (place sv, s, m) (gs, xs, ys)"
    and "effects (saves_event sv xs) (gs, xs, ys) = Some (gs', xs', ys')" and "owns (place sv', s', m') (gs', xs', ys')"
    and "\<not> failed sv"
  shows "seizes sv sv' = [] \<and> xs' = xs \<and> stows sv sv' @ to_save sv' gs' = to_save sv gs \<and>
           mset (gs' @ ys') = mset (gs @ ys) \<or>
         seizes sv sv' = [Spill] \<and> stows sv sv' = [] \<and> gs = [] \<and> gs' = xs \<and> to_save sv' gs' = xs \<and>
           to_save sv gs = [] \<and> xs' = [] \<and> ys' = ys"
proof (cases sv)
  case (Seizing b)
  have gs: "gs = []" using assms(2) Seizing by (simp add: place_def)
  have sv': "(\<exists>k c. sv' = Saving k c) \<or> sv' = Marking b"
    using assms(1) Seizing by (auto simp: andThen_Ok_iff split: if_splits)
  show ?thesis
  proof (cases "xs = []")
    case True
    with assms(3,4) gs Seizing have "gs' = []" "xs' = []" "ys' = ys" by simp_all
    moreover from this assms(4) have "keeps sv' = None" by (cases "keeps sv'") (auto simp: own_chain_def)
    ultimately show ?thesis using True gs Seizing sv' by auto
  next
    case False
    with assms(3) gs Seizing have e: "gs' = xs" "xs' = []" "ys' = ys" by (simp_all split: if_splits)
    with assms(4) False have "keeps sv' \<noteq> None" by (cases "keeps sv'") simp_all
    with sv' e gs Seizing show ?thesis by auto
  qed
next
  case (Found k c g)
  obtain b f l where k: "k = (b, f, l)" by (cases k)
  with owns_first [OF assms(2), of f l] Found obtain gs1 where "gs = f # gs1" by auto
  moreover have "(\<exists>d. sv' = Saved k d) \<or> (\<exists>d. sv' = Failed k d)"
    using assms(1) Found k by (auto simp: andThen_Ok_iff split: if_splits)
  ultimately show ?thesis using assms(3) Found k by auto
next
  case (Saved k c)
  obtain b f l where k: "k = (b, f, l)" by (cases k)
  have "(\<exists>k d. sv' = Saving k d) \<or> sv' = Marking b"
    using assms(1) Saved k by (auto simp: andThen_Ok_iff split: if_splits)
  with assms(3) Saved k show ?thesis by (cases gs) (auto split: if_splits)
next
  case (Probing k t c)
  then have "\<forall>k d. sv' \<noteq> Saved k d" using assms(1) by (auto simp: andThen_Ok_iff Let_def split: if_splits)
  then have "to_save sv' gs' = gs'" by (cases sv') simp_all
  with assms(3) Probing show ?thesis by auto
qed (use assms(1,3,5) in \<open>auto simp: andThen_Ok_iff split: if_splits\<close>)

lemma save_ok:
  assumes "net_owns ((ph, s, m), as @ sv # bs) (hs, gss, xs, ys)" and "inv s" and "online v (ph, s, m)"
    and "saver_step (sv, s, m) = Ok (sv', s', m')" and "\<not> failed sv"
  shows "\<exists>N'. net_owns ((ph, s', m'), as @ sv' # bs) N' \<and>
           accounted_for (seizes sv sv') (stows sv sv') ((ph, s, m), as @ sv # bs) (hs, gss, xs, ys)
             ((ph, s', m'), as @ sv' # bs) N' \<and>
           orderly (as @ sv # bs) (ph, s, m) (ph, s', m')"
proof -
  from assms(1) have len: "length gss = length (as @ sv # bs)"
    and ho: "hold ((ph, hs) # zip (map place (as @ sv # bs)) gss) s m xs ys" by simp_all
  define gas where "gas = take (length as) gss"
  obtain gs gbs where g: "gss = gas @ gs # gbs" "length gas = length as" "length gbs = length bs"
    using len id_take_nth_drop [of "length as" gss] by (fastforce simp: gas_def)
  let ?as = "(ph, hs) # zip (map place as) gas" and ?bs = "zip (map place bs) gbs"
  have ho: "hold (?as @ (place sv, gs) # ?bs) s m xs ys" using ho by (simp add: g)
  then have ow: "owns (place sv, s, m) (gs, xs, ys)" by (auto simp: hold_def simp del: owns.simps)
  from wp_Ok [OF saver_step_ok [OF ow assms(5)] assms(4)] obtain gs' xs' ys' where
    st: "effects (saves_event sv xs) (gs, xs, ys) = Some (gs', xs', ys')" "owns (place sv', s', m') (gs', xs', ys')"
      "untouched [] (place sv, s, m) (gs, xs, ys) (place sv', s', m')" and di: "discreet sv s m s' m'"
    by (auto simp: saver_keeps_def)
  note acc = save_accounts [OF assms(4) ow st(1,2) assms(5)]
  have "set (gs' @ xs' @ ys') \<subseteq> set (gs @ xs @ ys) \<union> set (given (saves_event sv xs)) \<union> set (refilled_by (saves_event sv xs))"
    by (rule effects_subset [OF st(1)])
  moreover have "given (saves_event sv xs) = []" "refilled_by (saves_event sv xs) = []"
    by (cases "(sv, xs)" rule: saves_event.cases; simp)+
  ultimately have sub: "set (gs' @ xs' @ ys') \<subseteq> set (gs @ xs @ ys) \<union> set (given []) \<union> set (refilled_by [])" by simp
  have "hold (?as @ (place sv', gs') # ?bs) s' m' xs' ys' \<and>
      (\<forall>p \<in> set (concat (map snd (?as @ ?bs))). view p m' = view p m)"
    by (rule hold_step [OF ho st(2,3) sub]) (simp add: touched_def)
  then have "net_owns ((ph, s', m'), as @ sv' # bs) (hs, gas @ gs' # gbs, xs', ys')" by (simp add: g)
  moreover have "content m' = content m" using di by (intro content_cong) (simp add: discreet_def)
  then have "accounted_for (seizes sv sv') (stows sv sv') ((ph, s, m), as @ sv # bs) (hs, gss, xs, ys)
      ((ph, s', m'), as @ sv' # bs) (hs, gas @ gs' # gbs, xs', ys')"
    using acc
  proof (elim disjE conjE)
    assume a: "seizes sv sv' = []" "xs' = xs" "stows sv sv' @ to_save sv' gs' = to_save sv gs"
      "mset (gs' @ ys') = mset (gs @ ys)"
    have "image_mset (content m) (mset (to_save sv gs)) =
        image_mset (content m) (mset (stows sv sv')) + image_mset (content m) (mset (to_save sv' gs'))"
      unfolding a(3) [symmetric] by simp
    with a(1,2,4) \<open>content m' = content m\<close> show ?thesis
      by (intro accounted_forI) (simp_all add: g unsaved_append shipped_def pending_def ac_simps)
  next
    assume "seizes sv sv' = [Spill]" "stows sv sv' = []" "gs = []" "gs' = xs" "to_save sv' gs' = xs"
      "to_save sv gs = []" "xs' = []" "ys' = ys"
    with \<open>content m' = content m\<close> show ?thesis
      by (simp add: g unsaved_append shipped_def pending_def list_emb_prefix ac_simps)
  qed
  moreover have "orderly (as @ sv # bs) (ph, s, m) (ph, s', m')"
  proof -
    have eq: "s_sock s' = s_sock s" "s_ssl s' = s_ssl s" and fo: "file_only m m'"
      and fl: "\<And>g. files m' g = files m g \<or> (\<exists>k c. sv = Found k c g)" using di by (simp_all add: discreet_def)
    note f = frame_sender [OF eq] online_frame [OF eq, of ph m' m] file_law [OF fo, of s'] file_only_later [OF fo]
    have "\<exists>k n. Found k n g \<in> set (as @ sv # bs)" if "files m' g \<noteq> files m g" for g using fl [of g] that by auto
    then have "\<forall>g bs'. files m g = Some (Reg bs') \<longrightarrow> files m' g = Some (Reg bs') \<or>
        at_entry ph \<and> (out s m' = out s m @ bs' \<or> unreadable g m') \<or> (\<exists>k n. Found k n g \<in> set (as @ sv # bs))"
      by metis
    with f assms(2,3) show ?thesis by (simp add: orderly_def shipped_def carries_def)
  qed
  ultimately show ?thesis by blast
qed

text \<open>What every step of the system keeps, but that after a save that failed.\<close>

lemma net_step_ok:
  assumes "net_step v n es os n'" and "net_owns n N" and "inv (obj (fst n))" and "online v (fst n)"
    and "Reuse \<notin> set es"
  shows "\<exists>N'. net_owns n' N' \<and> accounted_for es os n N n' N' \<and> orderly (snd n) (fst n) (fst n')"
  using assms(1)
proof cases
  case (main c svs hs gss xs ys c')
  have N: "N = (hs, gss, xs, ys)" using net_owns_unique [OF main(4)] assms(2) by (simp only: main(1))
  have as: "inv (obj c)" "online v c" using assms(3,4) by (simp_all only: main(1) fst_conv)
  from main_ok [OF main(4) as main(5-7)] show ?thesis by (simp only: main(1-3) N fst_conv snd_conv)
next
  case (push ph s m svs hs gss xs ys f zs l sv s' m')
  have N: "N = (hs, gss, xs, ys)" using net_owns_unique [OF push(5)] assms(2) by (simp only: push(1))
  have as: "inv s" "online v (ph, s, m)" using assms(3,4) by (simp_all only: push(1) fst_conv snd_conv)
  from push_ok [OF push(5) as push(6-8)] show ?thesis by (simp only: push(1-4) N fst_conv snd_conv)
next
  case (leave s m svs)
  obtain hs gss xs ys where N: "N = (hs, gss, xs, ys)" by (cases N)
  from leave_ok [of s m svs hs gss xs ys] assms(2,3) show ?thesis
    unfolding leave N fst_conv snd_conv by blast
next
  case (save sv s m sv' s' m' ph as bs)
  obtain hs gss xs ys where N: "N = (hs, gss, xs, ys)" by (cases N)
  have "\<not> failed sv" using assms(5) save(2) by (cases sv) auto
  from save_ok [of ph s m as sv bs hs gss xs ys sv' s' m'] assms(2-4) save(5) this show ?thesis
    unfolding save(1-4) N fst_conv snd_conv by blast
qed

end

text \<open>
  After a step with the label \<open>Reuse\<close> the buffers are no longer each in one place: the free list
  holds the buffer that the thread that saves still has.
\<close>

lemma reuse_breaks:
  assumes "net_step v n es os n'" and "net_owns n N" and "Reuse \<in> set es"
  shows "\<not> net_owns n' N'"
proof
  assume o': "net_owns n' N'"
  obtain hs gss xs ys hs' gss' xs' ys' where N: "N = (hs, gss, xs, ys)" "N' = (hs', gss', xs', ys')" by (metis prod.collapse)
  from assms(1) show False
  proof cases
    case (main c svs hs1 gss1 xs1 ys1 c')
    from sys_step_no_reuse [OF main(5)] assms(3) main(2) show False by simp
  next
    case (save sv s m sv' s' m' ph as bs)
    from assms(3) save(2) obtain b f l c where sv: "sv = Failed (b, f, l) c"
      by (cases "(sv, sv')" rule: seizes.cases) auto
    let ?i = "length as"
    have ow: "owns (place sv, s, m) (gss ! ?i, xs, ys)"
      using net_owns_saver [of ph s m "as @ sv # bs" hs gss xs ys ?i] assms(2) by (simp add: save(1) N)
    have "held (place sv) = Some (f, l)" by (simp add: sv)
    from release_ledger [OF ow this] obtain a m1 where
      put: "sender_put f s m = Ok (s\<lparr>s_alloc := a\<rparr>, m1)"
      and own: "\<And>ph'. held ph' = (if tl (gss ! ?i) = [] then None else Some (hd (tl (gss ! ?i)), l)) \<Longrightarrow>
        owns (ph', s\<lparr>s_alloc := a\<rparr>, m1) (tl (gss ! ?i), xs, f # ys)" by fastforce
    from put have sv': "sv' = Saving (b, f, l) c" "s' = s\<lparr>s_alloc := a\<rparr>" "m' = m1" using save(5) by (simp_all add: sv)
    have ow': "owns (place sv', s', m') (gss' ! ?i, xs', ys')"
      using net_owns_saver [of ph s' m' "as @ sv' # bs" hs' gss' xs' ys' ?i] o' by (simp add: save(4) N)
    from owns_first [OF ow'] sv'(1) obtain gs' where gs': "gss' ! ?i = f # gs'" by auto
    have "f \<noteq> 0 \<and> alloc_first a = f"
    proof -
      define ph1 where "ph1 = (if tl (gss ! ?i) = [] then Finished else Sent (hd (tl (gss ! ?i))) l)"
      have "owns (ph1, s\<lparr>s_alloc := a\<rparr>, m1) (tl (gss ! ?i), xs, f # ys)" by (rule own) (simp add: ph1_def)
      from owns_facts(1,6) [OF this] show ?thesis by (auto simp: sender_ok_def free_list_def)
    qed
    moreover have "free_list m' (s_alloc s') ys'" using owns_facts(1) [OF ow'] by (simp add: sender_ok_def)
    ultimately have "f \<in> set ys'" by (cases ys') (auto simp: free_list_def sv')
    with owns_facts(7) [OF ow'] gs' show False by simp
  qed (use assms(3) in auto)
qed

section \<open>Runs\<close>

text \<open>
  \<open>net_history P v n es gs ws ds n'\<close>: a run from \<open>n\<close> to \<open>n'\<close> with the labels \<open>es\<close> through configurations
  with the property \<open>P\<close>; the buffers given on the way have the contents \<open>gs\<close>, those sent completely
  the contents \<open>ws\<close>, and those saved the contents \<open>ds\<close>.
\<close>

inductive net_history ::
    "(conf \<Rightarrow> bool) \<Rightarrow> vtable \<Rightarrow> net \<Rightarrow> event list \<Rightarrow> byte list list \<Rightarrow> byte list list \<Rightarrow> byte list list \<Rightarrow> net \<Rightarrow> bool"
  for P v n where
  start: "P (fst n) \<Longrightarrow> net_history P v n [] [] [] [] n"
| step: "net_history P v n es gs ws ds n1 \<Longrightarrow> net_step v n1 fs os n2 \<Longrightarrow> P (fst n2) \<Longrightarrow>
    net_history P v n (es @ fs) (gs @ map (content (mach (fst n2))) (given fs)) (ws @ shipped (fst n1) (fst n2))
      (ds @ map (content (mach (fst n1))) os) n2"

lemma net_history_holds: "net_history P v n es gs ws ds n' \<Longrightarrow> P (fst n)"
  by (induction rule: net_history.induct)

lemma net_history_any: "net_history P v n es gs ws ds n' \<Longrightarrow> net_history (\<lambda>_. True) v n es gs ws ds n'"
  by (induction rule: net_history.induct) (rule net_history.intros; simp)+

text \<open>
  Where everything is after a run: no buffer is lost; what was sent and is still to be sent are, in
  order, some of what was to be sent and was given, all of it when no queue was saved; the others
  are being saved or saved.
\<close>

fun settled :: "event list \<Rightarrow> byte list list \<Rightarrow> byte list list \<Rightarrow> byte list list \<Rightarrow>
    net \<Rightarrow> accounts \<Rightarrow> net \<Rightarrow> accounts \<Rightarrow> bool" where
  "settled es gs ws ds (c, svs) (hs, gss, xs, ys) (c', svs') (hs', gss', xs', ys') \<longleftrightarrow>
     mset (hs' @ concat gss' @ xs' @ ys') + mset (got es) =
       mset (hs @ concat gss @ xs @ ys) + mset (given es) + mset (refilled_by es) \<and>
     subseq (ws @ pending c' (hs', xs', ys')) (pending c (hs, xs, ys) @ gs) \<and>
     (Spill \<notin> set es \<longrightarrow> ws @ pending c' (hs', xs', ys') = pending c (hs, xs, ys) @ gs) \<and>
     mset (ws @ pending c' (hs', xs', ys')) + mset (map (content (mach c')) (unsaved svs' gss')) + mset ds =
       mset (pending c (hs, xs, ys)) + mset (map (content (mach c)) (unsaved svs gss)) + mset gs"

lemma got_append: "got (es @ fs) = got es @ got fs"
  by (induction es rule: got.induct) simp_all

lemma given_append: "given (es @ fs) = given es @ given fs"
  by (induction es rule: given.induct) simp_all

lemma refilled_append: "refilled_by (es @ fs) = refilled_by es @ refilled_by fs"
  by (induction es rule: refilled_by.induct) simp_all

lemma settled_start: "settled [] [] [] [] n N n N"
  by (cases n; cases N) simp

lemma mset_flow:
  fixes a :: "'a multiset"
  assumes "b + g = a + n" and "c + h = b + k" shows "c + (g + h) = a + (n + k)"
proof -
  have "c + (g + h) = (c + h) + g" by (simp add: ac_simps)
  also have "\<dots> = (b + g) + k" unfolding assms(2) by (simp add: ac_simps)
  finally show ?thesis unfolding assms(1) by (simp add: ac_simps)
qed

lemma settled_step:
  assumes "settled es gs ws ds n0 N0 n N" and "accounted_for fs os n N n' N'"
  shows "settled (es @ fs) (gs @ map (content (mach (fst n'))) (given fs)) (ws @ shipped (fst n) (fst n'))
           (ds @ map (content (mach (fst n))) os) n0 N0 n' N'"
proof -
  obtain hs0 gss0 xs0 ys0 where N0: "N0 = (hs0, gss0, xs0, ys0)" by (cases N0)
  obtain hs gss xs ys where N: "N = (hs, gss, xs, ys)" by (cases N)
  obtain hs' gss' xs' ys' where N': "N' = (hs', gss', xs', ys')" by (cases N')
  obtain c0 svs0 c svs c' svs' where n: "n0 = (c0, svs0)" "n = (c, svs)" "n' = (c', svs')" by (metis prod.collapse)
  define p0 p p' gv sh where d: "p0 = pending c0 (hs0, xs0, ys0)" "p = pending c (hs, xs, ys)"
    "p' = pending c' (hs', xs', ys')" "gv = map (content (mach c')) (given fs)" "sh = shipped c c'"
  note a = assms [unfolded N0 N N' n settled.simps accounted_for.simps, folded d]
  from a(1) have a1: "mset (hs @ concat gss @ xs @ ys) + mset (got es) =
      mset (hs0 @ concat gss0 @ xs0 @ ys0) + (mset (given es) + mset (refilled_by es))"
    "subseq (ws @ p) (p0 @ gs)" "Spill \<notin> set es \<Longrightarrow> ws @ p = p0 @ gs"
    "(mset p + mset (map (content (mach c)) (unsaved svs gss))) + (mset ws + mset ds) =
      (mset p0 + mset (map (content (mach c0)) (unsaved svs0 gss0))) + mset gs" by (simp_all add: ac_simps)
  from a(2) have a2: "mset (hs' @ concat gss' @ xs' @ ys') + mset (got fs) =
      mset (hs @ concat gss @ xs @ ys) + (mset (given fs) + mset (refilled_by fs))"
    "subseq (sh @ p') (p @ gv)" "Spill \<notin> set fs \<Longrightarrow> sh @ p' = p @ gv"
    "(mset sh + mset p' + mset (map (content (mach c')) (unsaved svs' gss'))) + mset (map (content (mach c)) os) =
      (mset p + mset (map (content (mach c)) (unsaved svs gss))) + mset gv" by (simp_all add: ac_simps)
  have "subseq (ws @ sh @ p') (ws @ p @ gv)"
    by (rule list_emb_append_mono [OF subseq_order.order_refl a2(2)])
  also have "subseq (ws @ p @ gv) (p0 @ gs @ gv)"
    using list_emb_append_mono [OF a1(2) subseq_order.order_refl [of gv]] by simp
  finally have "subseq (ws @ sh @ p') (p0 @ gs @ gv)" .
  moreover have "ws @ sh @ p' = p0 @ gs @ gv" if "Spill \<notin> set (es @ fs)"
  proof -
    have "ws @ p = p0 @ gs" "sh @ p' = p @ gv" using that a1(3) a2(3) by simp_all
    then show ?thesis by (metis append.assoc)
  qed
  ultimately show ?thesis
    unfolding N0 N' n settled.simps fst_conv d(1,3-5) [symmetric] given_append got_append refilled_append
    using mset_flow [OF a1(1) a2(1)] mset_flow [OF a1(4) a2(4)] by (simp add: ac_simps)
qed

context transport
begin

lemma net_history_ok:
  assumes "net_history P v n es gs ws ds n'" and "net_owns n N" and "inv (obj (fst n))" and "online v (fst n)"
    and "Reuse \<notin> set es"
  shows "\<exists>N'. net_owns n' N' \<and> settled es gs ws ds n N n' N' \<and> inv (obj (fst n')) \<and> online v (fst n') \<and>
           res (obj (fst n')) (mach (fst n')) = res (obj (fst n)) (mach (fst n)) \<and> later (mach (fst n)) (mach (fst n'))"
  using assms(1,5)
proof induction
  case start
  with assms(2-4) settled_start show ?case by (intro exI [of _ N]) simp
next
  case (step es gs ws ds n1 fs os n2)
  from step.prems have r: "Reuse \<notin> set es" "Reuse \<notin> set fs" by simp_all
  from step.IH [OF r(1)] obtain N1 where N1: "net_owns n1 N1" "settled es gs ws ds n N n1 N1"
    "inv (obj (fst n1))" "online v (fst n1)" "res (obj (fst n1)) (mach (fst n1)) = res (obj (fst n)) (mach (fst n))"
    "later (mach (fst n)) (mach (fst n1))" by blast
  from net_step_ok [OF step.hyps(2) N1(1,3,4) r(2)] obtain N2 where N2: "net_owns n2 N2"
    "accounted_for fs os n1 N1 n2 N2" "orderly (snd n1) (fst n1) (fst n2)" by blast
  from settled_step [OF N1(2) N2(2)] N2 N1 show ?case
    by (intro exI [of _ N2]) (auto simp: orderly_def intro: later_trans)
qed

text \<open>A run of the thread with its producers, in which nothing is saved, is a run of the system.\<close>

lemma history_net:
  assumes "history P v c gs ws c'" and "owns c L" and "inv (obj c)" and "online v c"
  shows "\<exists>es. Spill \<notin> set es \<and> Reuse \<notin> set es \<and> net_history P v (c, []) es gs ws [] (c', [])"
  using assms(1)
proof induction
  case start
  then show ?case using net_history.start [of P "(c, [])"] by force
next
  case (step gs ws c1 fs c2)
  from step.IH obtain es where es: "Spill \<notin> set es" "Reuse \<notin> set es"
    "net_history P v (c, []) es gs ws [] (c1, [])" by blast
  from history_order [OF step.hyps(1) assms(2-4)] obtain L1 where "owns c1 L1" by blast
  moreover obtain ph s m hs xs ys where c1: "c1 = (ph, s, m)" "L1 = (hs, xs, ys)" by (metis prod.collapse)
  ultimately have "net_owns (c1, []) (hs, [], xs, ys)" using owns_facts(11) by (auto simp: hold_def simp del: owns.simps)
  from net_step.main [OF this step.hyps(2,3)] have "net_step v (c1, []) fs [] (c2, [])" by simp
  from net_history.step [OF es(3) this] sys_step_no_reuse [OF step.hyps(2)] step.hyps(3,4) es(1,2) show ?case
    by (intro exI [of _ "es @ fs"]) simp
qed

text \<open>
  While the connection lasts: its log is a list of parts, each the content of a buffer or, with a
  name, of a file. The parts without a name are what is sent; a part with a name is all of a file
  that was there when the thread came to it.
\<close>

definition met :: "net \<Rightarrow> net \<Rightarrow> string \<Rightarrow> byte list \<Rightarrow> bool" where
  "met n n' f bs \<longleftrightarrow>
     (\<exists>n1 es gs ws ds es' gs' ws' ds'. net_history (connected v) v n es gs ws ds n1 \<and>
        net_history (connected v) v n1 es' gs' ws' ds' n' \<and> at_entry (fst (fst n1)) \<and> files (mach (fst n1)) f = Some (Reg bs))"

definition logs :: "net \<Rightarrow> net \<Rightarrow> byte list list \<Rightarrow> bool" where
  "logs n n' ws \<longleftrightarrow>
     (\<exists>ps. out (obj (fst n')) (mach (fst n')) = out (obj (fst n)) (mach (fst n)) @ concat (map snd ps) \<and>
        map snd (filter (\<lambda>p. fst p = None) ps) = ws \<and> (\<forall>f bs. (Some f, bs) \<in> set ps \<longrightarrow> met n n' f bs))"

lemma logs_snoc:
  assumes "logs n n1 ws" and "\<And>f bs. met n n1 f bs \<Longrightarrow> met n n2 f bs"
    and "out (obj (fst n2)) (mach (fst n2)) = out (obj (fst n1)) (mach (fst n1)) @ concat (map snd qs)"
    and "map snd (filter (\<lambda>p. fst p = None) qs) = us" and "\<And>f bs. (Some f, bs) \<in> set qs \<Longrightarrow> met n n2 f bs"
  shows "logs n n2 (ws @ us)"
proof -
  from assms(1) obtain ps where ps: "out (obj (fst n1)) (mach (fst n1)) = out (obj (fst n)) (mach (fst n)) @ concat (map snd ps)"
    "map snd (filter (\<lambda>p. fst p = None) ps) = ws" "\<forall>f bs. (Some f, bs) \<in> set ps \<longrightarrow> met n n1 f bs"
    unfolding logs_def by blast
  show ?thesis unfolding logs_def by (rule exI [of _ "ps @ qs"]) (use ps assms(2-5) in auto)
qed

lemma net_history_logs:
  assumes "net_history (connected v) v n es gs ws ds n'" and "net_owns n N" and "inv (obj (fst n))"
    and "Reuse \<notin> set es"
  shows "logs n n' ws"
  using assms(1,4)
proof induction
  case start
  then show ?case unfolding logs_def by (intro exI [of _ "[]"]) simp
next
  case (step es gs ws ds n1 fs os n2)
  from step.prems have r: "Reuse \<notin> set es" "Reuse \<notin> set fs" by simp_all
  note on = connected_online [OF net_history_holds [OF step.hyps(1)]]
  from net_history_ok [OF step.hyps(1) assms(2,3) on r(1)] obtain N1 where
    "net_owns n1 N1" "inv (obj (fst n1))" "online v (fst n1)" by blast
  from net_step_ok [OF step.hyps(2) this r(2)] have ok: "orderly (snd n1) (fst n1) (fst n2)" by blast
  have con: "connected v (fst n1)" "connected v (fst n2)" using step.hyps(1,3) by (cases, simp_all)
  have more: "met n n2 f bs" if "met n n1 f bs" for f bs
    using that net_history.step [of "connected v" v _ _ _ _ _ n1 fs os n2] step.hyps(2,3) unfolding met_def by blast
  have last: "met n n2 f bs" if "at_entry (fst (fst n1))" "files (mach (fst n1)) f = Some (Reg bs)" for f bs
    using that step.hyps(1) net_history.step [OF net_history.start [where P = "connected v", OF con(1)] step.hyps(2,3)]
    unfolding met_def by blast
  note add = logs_snoc [OF step.IH [OF r(1)] more]
  show ?case
  proof (cases "at_entry (fst (fst n1))")
    case False
    with ok con show ?thesis
      by (intro add [where qs = "map (Pair None) (shipped (fst n1) (fst n2))"]) (auto simp: orderly_def connected_def comp_def)
  next
    case True
    then have sh: "shipped (fst n1) (fst n2) = []" by (simp add: shipped_def)
    from ok True con consider "out (obj (fst n2)) (mach (fst n2)) = out (obj (fst n1)) (mach (fst n1))"
      | f bs where "files (mach (fst n1)) f = Some (Reg bs)"
        "out (obj (fst n2)) (mach (fst n2)) = out (obj (fst n1)) (mach (fst n1)) @ bs"
      unfolding orderly_def carries_def connected_def by blast
    then show ?thesis
    proof cases
      case 1
      then show ?thesis unfolding sh by (intro add [where qs = "[]"]) simp_all
    next
      case (2 f bs)
      then show ?thesis unfolding sh using last [OF True] by (intro add [where qs = "[(Some f, bs)]"]) auto
    qed
  qed
qed

end

section \<open>The files of the directory\<close>

text \<open>A thread is about to write to the file.\<close>

definition aimed :: "saver list \<Rightarrow> string \<Rightarrow> bool" where
  "aimed svs f \<longleftrightarrow> (\<exists>k c. Found k c f \<in> set svs)"

text \<open>If \<open>stat\<close> is honest, no thread that saves comes to aim at a file that is there.\<close>

lemma saver_step_aims:
  assumes "saver_step (sv, s, m) = Ok (Found k c f, s', m')" and "honest m'" shows "files m f = None"
proof (cases sv)
  case (Probing k0 t c0)
  with assms(1) have st: "sys_stat f m = Ok (None, m')" by (auto simp: andThen_Ok_iff Let_def split: if_splits)
  from wp_Ok [OF wp_sys_stat st] obtain r where
    "(File (C_stat f), r) \<in> set (trace m')" "status_of r = 0 \<longrightarrow> files m f = None" by auto
  with assms(2) show ?thesis by (fastforce simp: honest_def stat_call_def)
qed (use assms(1) in \<open>auto simp: andThen_Ok_iff split: if_splits\<close>)

lemma net_step_aims:
  assumes "net_step v n es os n'" and "honest (mach (fst n'))" and "files (mach (fst n)) f \<noteq> None"
    and "\<not> aimed (snd n) f"
  shows "\<not> aimed (snd n') f"
  using assms(1)
proof cases
  case (push ph s m svs hs gss xs ys g zs l sv s' m')
  then have "\<forall>k c. sv \<noteq> Found k c f" by (auto simp: send_push_def andThen_Ok_iff split: if_splits)
  with push assms(4) show ?thesis by (auto simp: aimed_def)
next
  case (save sv s m sv' s' m' ph as bs)
  have "\<forall>k c. sv' \<noteq> Found k c f"
    using saver_step_aims [of sv s m _ _ f s' m'] save assms(2,3) by auto
  with save assms(4) show ?thesis by (auto simp: aimed_def)
qed (use assms(4) in \<open>auto simp: aimed_def\<close>)

context transport
begin

text \<open>
  A file that is there, and that no thread aims at, stays until a step of the thread deals with it:
  it has sent all of it, or could not read it.
\<close>

definition put_on_wire :: "net \<Rightarrow> net \<Rightarrow> byte list \<Rightarrow> bool" where
  "put_on_wire n n' bs \<longleftrightarrow>
     (\<exists>es gs ws ds n1 fs os n2 es' gs' ws' ds'. net_history (\<lambda>_. True) v n es gs ws ds n1 \<and> net_step v n1 fs os n2 \<and>
        net_history (\<lambda>_. True) v n2 es' gs' ws' ds' n' \<and> at_entry (fst (fst n1)) \<and>
        out (obj (fst n1)) (mach (fst n2)) = out (obj (fst n1)) (mach (fst n1)) @ bs)"

lemma net_history_file:
  assumes "net_history P v n es gs ws ds n'" and "net_owns n N" and "inv (obj (fst n))" and "online v (fst n)"
    and "files (mach (fst n)) f = Some (Reg bs)" and "\<not> aimed (snd n) f" and "honest (mach (fst n'))"
    and "Reuse \<notin> set es"
  shows "files (mach (fst n')) f = Some (Reg bs) \<and> \<not> aimed (snd n') f \<or> unreadable f (mach (fst n')) \<or> put_on_wire n n' bs"
  using assms(1,7,8)
proof induction
  case start
  with assms(5,6) show ?case by simp
next
  case (step es gs ws ds n1 fs os n2)
  from step.prems(2) have r: "Reuse \<notin> set es" "Reuse \<notin> set fs" by simp_all
  from net_history_ok [OF step.hyps(1) assms(2-4) r(1)] obtain N1 where
    N1: "net_owns n1 N1" "inv (obj (fst n1))" "online v (fst n1)" by blast
  from net_step_ok [OF step.hyps(2) N1 r(2)] have ok: "orderly (snd n1) (fst n1) (fst n2)" by blast
  then have l: "later (mach (fst n1)) (mach (fst n2))" by (simp add: orderly_def)
  with step.prems(1) have "honest (mach (fst n1))" unfolding honest_def later_def by blast
  from step.IH [OF this r(1)] show ?case
  proof (elim disjE conjE)
    assume f: "files (mach (fst n1)) f = Some (Reg bs)" "\<not> aimed (snd n1) f"
    with ok consider "files (mach (fst n2)) f = Some (Reg bs)" | "unreadable f (mach (fst n2))"
      | "at_entry (fst (fst n1))" "out (obj (fst n1)) (mach (fst n2)) = out (obj (fst n1)) (mach (fst n1)) @ bs"
      unfolding orderly_def aimed_def by blast
    then show ?thesis
    proof cases
      case 1
      with net_step_aims [OF step.hyps(2) step.prems(1) _ f(2)] f(1) show ?thesis by simp
    next
      case 3
      with step.hyps(2) net_history_any [OF step.hyps(1)] net_history.start [of "\<lambda>_. True" n2 v]
      show ?thesis unfolding put_on_wire_def by blast
    qed simp
  next
    assume "unreadable f (mach (fst n1))"
    with l show ?thesis by (auto intro: unreadable_later)
  next
    assume "put_on_wire n n1 bs"
    with net_history.step [OF _ step.hyps(2)] show ?thesis unfolding put_on_wire_def by blast
  qed
qed

text \<open>What a step saves is in a file then.\<close>

lemma net_step_saves:
  assumes "net_step v n es os n'" and "net_owns n N" and "p \<in> set os"
  shows "\<exists>f. files (mach (fst n')) f = Some (Reg (content (mach (fst n)) p))"
  using assms(1)
proof cases
  case (save sv s m sv' s' m' ph as bs)
  from assms(3) save(3) obtain b l c g k d where sv: "sv = Found (b, p, l) c g" "sv' = Saved k d"
    by (cases "(sv, sv')" rule: stows.cases) auto
  with save(5) have run: "save p g m = Ok (True, m')" by (auto simp: andThen_Ok_iff split: if_splits)
  obtain hs gss xs ys where N: "N = (hs, gss, xs, ys)" by (cases N)
  have ow: "owns (place sv, s, m) (gss ! length as, xs, ys)"
    using net_owns_saver [of ph s m "as @ sv # bs" hs gss xs ys "length as"] assms(2) by (simp add: save(1) N)
  from owns_first [OF ow, of p l] obtain gs where "gss ! length as = p # gs" by (auto simp: sv)
  with ow have "view p m = Ok (content m p)" by (simp add: sv place_def sendable_def)
  from wp_Ok [OF wp_save [OF this] run] have "files m' g = Some (Reg (content m p))" by (simp add: save_post_def)
  then show ?thesis by (auto simp: save)
qed (use assms(3) in auto)

text \<open>No step of the system is a fault.\<close>

lemma net_safe:
  assumes "net_owns ((ph, s, m), svs) (hs, gss, xs, ys)" and "inv s" and "online v (ph, s, m)"
  shows "ph \<noteq> Leaving \<Longrightarrow> (ph = Popping \<Longrightarrow> \<exists>w zs. arrives m s xs ys w zs) \<Longrightarrow> thread_step v (ph, s, m) \<noteq> Fault"
    and "alloc_get (s_alloc s) m \<noteq> Fault"
    and "to_give m s xs ys f zs l \<Longrightarrow> send_push f l s m \<noteq> Fault"
    and "sv \<in> set svs \<Longrightarrow> saver_step (sv, s, m) \<noteq> Fault"
proof -
  note ow = net_owns_main [OF assms(1)]
  note ows = owns_facts [OF ow]
  show "thread_step v (ph, s, m) \<noteq> Fault" if "ph \<noteq> Leaving" "ph = Popping \<Longrightarrow> \<exists>w zs. arrives m s xs ys w zs"
  proof (rule thread_step_safe [OF ow assms(2,3)])
    have "ph = Popping \<Longrightarrow> hs = []" using ow by simp
    with that(2) show "ph = Popping \<longrightarrow> (\<exists>xs' ys' w zs. (hs, xs, ys) = ([], xs', ys') \<and> arrives m s xs' ys' w zs)" by auto
  qed (use that in simp)
  have fl: "free_list m (s_alloc s) ys" using ows(1) by (simp add: sender_ok_def)
  show "alloc_get (s_alloc s) m \<noteq> Fault"
  proof (cases ys)
    case Nil
    with wp_alloc_get_empty [OF ows(8)] fl show ?thesis by (blast dest: wp_not_Fault)
  next
    case (Cons y zs)
    with alloc_get_stock [OF ows(8)] fl show ?thesis by fastforce
  qed
  show "send_push f l s m \<noteq> Fault" if "to_give m s xs ys f zs l"
    using give_pushes [OF ows(1) that] by (auto simp: send_push_def)
  show "saver_step (sv, s, m) \<noteq> Fault" if "sv \<in> set svs"
  proof -
    from that obtain i where i: "i < length svs" "sv = svs ! i" by (auto simp: in_set_conv_nth)
    from net_owns_saver [OF assms(1) i(1)] have o: "owns (place sv, s, m) (gss ! i, xs, ys)" by (simp only: i(2))
    show ?thesis
    proof (cases "failed sv")
      case True
      then obtain b f l c where sv: "sv = Failed (b, f, l) c" by (cases sv) auto
      then have "held (place sv) = Some (f, l)" by simp
      from release_ledger [OF o this] show ?thesis by (auto simp: sv)
    qed (use wp_not_Fault [OF saver_step_ok [OF o]] in blast)
  qed
qed

end

end
