(* ===== verification/Handles.thy ===== *)
theory Handles
  imports Concurrency
begin

text \<open>
  What is open on the file system: descriptors of files, directory streams and mappings. Calls on
  sockets, TLS objects, memory and the queue do not touch them; every step of the system closes the
  files that it opens and unmaps what it maps, and the thread holds a directory stream just while
  it goes through the directory.
\<close>

section \<open>What is open\<close>

text \<open>Streams and mappings, counted on the trace, as \<open>fd_balance\<close> counts descriptors of sockets.\<close>

fun dir_delta :: "call \<times> reply \<Rightarrow> int" where
  "dir_delta (File (C_opendir d), r) = of_bool (status_of r = 0)"
| "dir_delta (File C_closedir, r) = -1"
| "dir_delta _ = 0"

definition dir_balance :: "machine \<Rightarrow> int" where
  "dir_balance m = (\<Sum>e\<leftarrow>trace m. dir_delta e)"

fun map_delta :: "call \<times> reply \<Rightarrow> int" where
  "map_delta (File (C_mmap fd n), r) = of_bool (status_of r = 0 \<and> 0 < n)"
| "map_delta (File (C_munmap n), r) = -1"
| "map_delta _ = 0"

definition map_balance :: "machine \<Rightarrow> int" where
  "map_balance m = (\<Sum>e\<leftarrow>trace m. map_delta e)"

section \<open>Steps that make no call on files\<close>

definition still :: "machine \<Rightarrow> machine \<Rightarrow> bool" where
  "still m m' \<longleftrightarrow> ofiles m' = ofiles m \<and> dir_balance m' = dir_balance m \<and> map_balance m' = map_balance m"

lemma still_refl [simp, intro]: "still m m"
  by (simp add: still_def)

lemma still_trans: "still a b \<Longrightarrow> still b c \<Longrightarrow> still a c"
  by (simp add: still_def)

text \<open>The calls on files.\<close>

fun on_files :: "call \<Rightarrow> bool" where
  "on_files (File c) = True"
| "on_files _ = False"

lemma quiet_deltas: "\<not> on_files c \<Longrightarrow> dir_delta (c, r) = 0 \<and> map_delta (c, r) = 0"
  by (cases c) simp_all

lemma still_fields [simp]:
  "still m (m1\<lparr>errno := e\<rparr>) = still m m1" "still (m\<lparr>errno := e\<rparr>) m1 = still m m1"
  "still m (m1\<lparr>cells := c\<rparr>) = still m m1" "still m (m1\<lparr>blocks := b\<rparr>) = still m m1"
  "still m (m1\<lparr>brk := k\<rparr>) = still m m1" "still m (m1\<lparr>files := fs\<rparr>) = still m m1"
  by (simp_all add: still_def dir_balance_def map_balance_def)

lemma still_note [simp]:
  "\<not> on_files c \<Longrightarrow> still m (note_call c m1) = still m m1"
  "\<not> on_files c \<Longrightarrow> still (note_call c m) m1 = still m m1"
  using quiet_deltas by (simp_all add: still_def dir_balance_def map_balance_def)

lemma still_syscall: "syscall c m = Ok (r, m') \<Longrightarrow> \<not> on_files c \<Longrightarrow> still m m'"
  using quiet_deltas by (auto simp: syscall_Ok_iff still_def dir_balance_def map_balance_def)

lemma still_host: "host_only m m' \<Longrightarrow> ofiles m' = ofiles m \<Longrightarrow> still m m'"
proof -
  assume "host_only m m'" and "ofiles m' = ofiles m"
  moreover have "list_all host_event es \<Longrightarrow> (\<Sum>e\<leftarrow>es. dir_delta e) = 0 \<and> (\<Sum>e\<leftarrow>es. map_delta e) = 0" for es
  proof (induction es)
    case (Cons e es)
    then show ?case by (cases e rule: host_event.cases) auto
  qed simp
  ultimately show ?thesis by (auto simp: host_only_def still_def dir_balance_def map_balance_def)
qed

subsection \<open>Sockets\<close>

lemma sys_still:
  "sys_socket fam m = Ok (n, m') \<Longrightarrow> still m m'"
  "sys_status c m = Ok (n, m') \<Longrightarrow> still m m'"
  "sys_getsockopt fd opt m = Ok (v, m') \<Longrightarrow> still m m'"
  "sys_recv fd len m = Ok (d, m') \<Longrightarrow> still m m'"
  "sys_send fd bs m = Ok (n, m') \<Longrightarrow> still m m'"
  "sys_poll fd ev t m = Ok (n, m') \<Longrightarrow> still m m'"
  by (auto simp: sys_defs andThen_Ok_iff intro: still_syscall)

lemma still_close [simp]: "still m (sys_close fd m1) = still m m1"
  by (simp add: sys_close_def)

lemma close_fields [simp]:
  "ofiles (sys_close fd m) = ofiles m" "dir_balance (sys_close fd m) = dir_balance m"
  "map_balance (sys_close fd m) = map_balance m"
  by (simp_all add: sys_close_def dir_balance_def map_balance_def)

lemma sock_close_still: "sock_close s m = (s', m') \<Longrightarrow> still m m'"
  by (auto simp: sock_close_def split: if_splits)

lemma wait_still:
  "wait_for ev t s m = Ok (b, m') \<Longrightarrow> still m m'"
  "wait_readable t s m = Ok (b, m') \<Longrightarrow> still m m'"
  "wait_writable t s m = Ok (b, m') \<Longrightarrow> still m m'"
  by (auto simp: wait_readable_def wait_writable_def wait_for_def andThen_Ok_iff dest!: sys_still split: if_splits)

lemma sock_recv_still: "sock_recv len s m = Ok (d, m') \<Longrightarrow> still m m'"
proof (induction len s m rule: sock_recv.induct)
  case (1 len s m)
  from 1(2) obtain r m1 where r: "sys_recv (sock_fd s) len m = Ok (r, m1)"
    by (auto simp: sock_recv.simps [of len s m] andThen_Ok_iff)
  with 1 sys_still(4) [OF r] show ?case
    by (auto simp: sock_recv.simps [of len s m] split: option.splits if_splits intro: still_trans)
qed

lemma sock_send_still: "sock_send b s m = Ok (n, m') \<Longrightarrow> still m m'"
proof (induction b s m rule: sock_send.induct)
  case (1 b s m)
  from 1(2) obtain r m1 where r: "sys_send (sock_fd s) b m = Ok (r, m1)"
    by (auto simp: sock_send.simps [of b s m] andThen_Ok_iff)
  with 1 sys_still(5) [OF r] show ?case
    by (auto simp: sock_send.simps [of b s m] split: if_splits intro: still_trans)
qed

lemma send_timed_still: "send_timed b t s m = Ok (ok, m') \<Longrightarrow> still m m'"
proof (induction b t s m rule: send_timed.induct)
  case (1 b t s m)
  show ?case
  proof (cases "0 < length b")
    case True
    with 1(3) obtain r m1 where r: "sock_send b s m = Ok (r, m1)"
      by (auto simp: send_timed.simps [of b t s m] andThen_Ok_iff)
    note s1 = sock_send_still [OF r]
    show ?thesis
    proof (cases "0 \<le> r")
      case ge: True
      with 1(1) [OF True r refl ge] 1(3) True r s1 show ?thesis
        by (auto simp: send_timed.simps [of b t s m] intro: still_trans)
    next
      case neg: False
      show ?thesis
      proof (cases "errno m1 = EAGAIN")
        case again: True
        with 1(3) True r neg obtain y m2 where w: "wait_writable t s m1 = Ok (y, m2)"
          by (auto simp: send_timed.simps [of b t s m] andThen_Ok_iff)
        with 1(2) [OF True r refl neg again w refl] 1(3) True r neg again s1 wait_still(3) [OF w] show ?thesis
          by (auto simp: send_timed.simps [of b t s m] split: if_splits intro: still_trans)
      qed (use 1(3) True r neg s1 in \<open>simp add: send_timed.simps [of b t s m]\<close>)
    qed
  qed (use 1(3) in \<open>simp add: send_timed.simps [of "[]"]\<close>)
qed

lemma connect_loop_still: "connect_loop a s m = Ok (ok, s', m') \<Longrightarrow> still m m'"
proof (induction a s m rule: connect_loop.induct)
  case (1 a s m)
  from 1(2) obtain r m1 where r: "sys_status (C_connect (sock_fd s) a) m = Ok (r, m1)"
    by (auto simp: connect_loop.simps [of a s m] andThen_Ok_iff)
  with 1 sys_still(2) [OF r] show ?case
    by (auto simp: connect_loop.simps [of a s m] split: if_splits intro: still_trans)
qed

lemma sock_connect_still: "sock_connect a n s m = Ok (ok, s', m') \<Longrightarrow> still m m'"
  by (auto simp: sock_connect_def andThen_Ok_iff Let_def split: if_splits dest!: sys_still connect_loop_still
      intro: still_trans)

lemma connect_address_still: "connect_address_timed a t s m = Ok (ok, s', m') \<Longrightarrow> still m m'"
  by (auto simp: connect_address_timed_def connect_timed_def andThen_Ok_iff get_socket_error_def still_def
      split: if_splits dest!: sys_still [unfolded still_def] wait_still [unfolded still_def] sock_connect_still [unfolded still_def])

lemma connect_insecure_still: "connect_insecure s m = Ok (ok, s', m') \<Longrightarrow> still m m'"
  by (auto simp: connect_insecure_def andThen_Ok_iff dest: connect_address_still)

subsection \<open>TLS\<close>

lemma ssl_op_still: "ssl_op p c (clear_errors m) = Ok (r, m') \<Longrightarrow> still m m'"
  by (auto simp: ssl_op_def clear_errors_def split: if_splits dest: still_syscall)

lemma ssl_retry_still: "ssl_retry e t s m = Ok (b, m') \<Longrightarrow> still m m'"
  by (auto simp: ssl_retry_def split: ssl_error.splits dest: wait_still)

lemma handshake_loop_still: "handshake_loop t s m = Ok (ok, m') \<Longrightarrow> still m m'"
proof (induction t s m rule: handshake_loop.induct)
  case (1 t s m)
  let ?op = "ssl_op (ssl_ssl s) (C_SSL_do_handshake (ssl_ssl s)) (clear_errors m)"
  from 1(2) obtain r m1 where r: "?op = Ok (r, m1)" by (auto simp: handshake_loop.simps [of t s m] andThen_Ok_iff)
  note s1 = ssl_op_still [OF r]
  show ?case
  proof (cases "ssl_ret r = 1 \<or> ssl_ret r = 0 \<or> ssl_err r = SSL_ERROR_ZERO_RETURN")
    case True
    with 1(2) r s1 show ?thesis by (auto simp: handshake_loop.simps [of t s m] split: if_splits)
  next
    case False
    with 1(2) r obtain y m2 where w: "ssl_retry (ssl_err r) t s m1 = Ok (y, m2)"
      by (auto simp: handshake_loop.simps [of t s m] andThen_Ok_iff)
    with 1 r s1 False ssl_retry_still [OF w] show ?thesis
      by (auto simp: handshake_loop.simps [of t s m] split: if_splits intro: still_trans)
  qed
qed

lemma ssl_send_timed_still: "ssl_send_timed b t s m = Ok (ok, m') \<Longrightarrow> still m m'"
proof (induction b t s m rule: ssl_send_timed.induct)
  case (1 b t s m)
  let ?op = "ssl_op (ssl_ssl s) (C_SSL_write (ssl_ssl s) b (int_of_len (length b))) (clear_errors m)"
  from 1(2) obtain r m1 where r: "?op = Ok (r, m1)" by (auto simp: ssl_send_timed.simps [of b t s m] andThen_Ok_iff)
  note s1 = ssl_op_still [OF r]
  show ?case
  proof (cases "0 < ssl_ret r \<or> ssl_err r = SSL_ERROR_ZERO_RETURN")
    case True
    with 1(2) r s1 show ?thesis by (auto simp: ssl_send_timed.simps [of b t s m] split: if_splits)
  next
    case False
    with 1(2) r obtain y m2 where w: "ssl_retry (ssl_err r) t s m1 = Ok (y, m2)"
      by (auto simp: ssl_send_timed.simps [of b t s m] andThen_Ok_iff)
    with 1 r s1 False ssl_retry_still [OF w] show ?thesis
      by (auto simp: ssl_send_timed.simps [of b t s m] split: if_splits intro: still_trans)
  qed
qed

lemma ssl_recv_still: "ssl_recv len s m = Ok (d, m') \<Longrightarrow> still m m'"
proof (induction len s m rule: ssl_recv.induct)
  case (1 len s m)
  let ?op = "ssl_op (ssl_ssl s) (C_SSL_read (ssl_ssl s) (int_of_len len)) (clear_errors m)"
  from 1(2) obtain r m1 where r: "?op = Ok (r, m1)" by (auto simp: ssl_recv.simps [of len s m] andThen_Ok_iff)
  with 1 ssl_op_still [OF r] show ?case
    by (auto simp: ssl_recv.simps [of len s m] split: option.splits ssl_error.splits if_splits intro: still_trans)
qed

lemma connect_secure_still: "connect_secure ctx s m = Ok (ok, s', m') \<Longrightarrow> still m m'"
proof -
  have h: "ssl_handshake ctx md t s m = Ok (ok, s', m') \<Longrightarrow> still m m'" for md t s m ok s' m'
    by (auto simp: ssl_handshake_def andThen_Ok_iff Let_def ssl_free_def split: if_splits
        dest!: handshake_loop_still still_syscall intro: still_trans)
  have c: "ssl_connect ctx t s m = Ok (ok, s', m') \<Longrightarrow> still m m'" for t s m ok s' m'
    by (auto simp: ssl_connect_def andThen_Ok_iff split: if_splits prod.splits dest!: h sock_close_still
        intro: still_trans)
  assume "connect_secure ctx s m = Ok (ok, s', m')"
  then show ?thesis
    by (auto simp: connect_secure_def ssl_connect_address_def then_ssl_connect_def andThen_Ok_iff Let_def
        split: if_splits dest!: c connect_address_still intro: still_trans)
qed

section \<open>The transports\<close>

text \<open>A connection that makes no call on files.\<close>

locale fileless =
  fixes v :: vtable
  assumes connect_still: "v_connect v s m = Ok (ok, s', m') \<Longrightarrow> still m m'"
    and disconnect_still: "v_disconnect v s m = (s', m') \<Longrightarrow> still m m'"
    and send_still: "v_send v b s m = Ok (ok, m') \<Longrightarrow> still m m'"
    and closed_still: "v_closed v s m = Ok (c, m') \<Longrightarrow> still m m'"
begin

lemma sender_connect_still: "sender_connect v s m = Ok (ok, s', m') \<Longrightarrow> still m m'"
  by (auto simp: sender_connect_def split: if_splits dest: connect_still)

lemma sender_send_still: "sender_send v b s m = Ok (ok, s', m') \<Longrightarrow> still m m'"
  by (auto simp: sender_send_def andThen_Ok_iff Let_def split: if_splits prod.splits
      dest!: closed_still send_still disconnect_still intro: still_trans)

end

interpretation files: fileless "vtable_of ctx enc" for ctx enc
proof unfold_locales
  fix s m ok s' m' assume "v_connect (vtable_of ctx enc) s m = Ok (ok, s', m')"
  then show "still m m'"
    by (cases enc) (auto simp: insecure_def secure_def dest: connect_insecure_still connect_secure_still)
next
  fix s m s' m' assume "v_disconnect (vtable_of ctx enc) s m = (s', m')"
  then show "still m m'"
    by (cases enc) (auto simp: insecure_def secure_def disconnect_insecure_def disconnect_secure_def ssl_close_def
        ssl_free_def Let_def split: prod.splits if_splits dest!: sock_close_still)
next
  fix b s m ok m' assume "v_send (vtable_of ctx enc) b s m = Ok (ok, m')"
  then show "still m m'"
    by (cases enc) (auto simp: insecure_def secure_def send_insecure_def send_secure_def
        dest: send_timed_still ssl_send_timed_still)
next
  fix s m c m' assume "v_closed (vtable_of ctx enc) s m = Ok (c, m')"
  then show "still m m'"
    by (cases enc) (auto simp: insecure_def secure_def closed_insecure_def closed_secure_def andThen_Ok_iff
        dest: sock_recv_still ssl_recv_still)
qed


subsection \<open>Buffers, the queue and the allocator\<close>

lemma links_still:
  "set_next p x m = Ok m' \<Longrightarrow> still m m'"
  "set_prev p x m = Ok m' \<Longrightarrow> still m m'"
  by (auto simp: set_next_def set_prev_def modify_Ok_iff)

lemma unlink_still:
  "unlink_first p q m = Ok (q', m') \<Longrightarrow> still m m'"
  "unlink_all q m = Ok (n, f, l, q', m') \<Longrightarrow> still m m'"
  by (auto simp: unlink_first_def unlink_all_def andThen_Ok_iff dest!: links_still intro: still_trans)

lemma signal_fields [simp]:
  "ofiles (cond_signal m) = ofiles m" "dir_balance (cond_signal m) = dir_balance m"
  "map_balance (cond_signal m) = map_balance m"
  by (simp_all add: cond_signal_def dir_balance_def map_balance_def)

lemma push_still:
  "push_front_chain f l q m = Ok (n, q', m') \<Longrightarrow> still m m'"
  "push_back_chain f l q m = Ok (n, q', m') \<Longrightarrow> still m m'"
  by (auto simp: push_front_chain_def push_back_chain_def andThen_Ok_iff Let_def still_def
      dest!: links_still [unfolded still_def])

lemma pop_still:
  "pop_front q m = Ok (p, q', m') \<Longrightarrow> still m m'"
  "pop_all q m = Ok (n, f, l, q', m') \<Longrightarrow> still m m'"
  by (auto simp: pop_front_def pop_all_def andThen_Ok_iff Let_def split: if_splits dest!: unlink_still)

lemma run_queue_ops_still: "run_queue_ops xs q m = Ok (q', m') \<Longrightarrow> still m m'"
proof (induction xs arbitrary: q m)
  case (Cons x xs)
  have "run_queue_op x q m = Ok (q1, m1) \<Longrightarrow> still m m1" for q1 m1
    by (cases x) (auto simp: push_front_chain_self push_back_chain_self andThen_Ok_iff dest: push_still pop_still)
  with Cons show ?case by (fastforce simp: andThen_Ok_iff intro: still_trans)
qed simp

lemma cond_timedwait_still: "cond_timedwait ts q m = Ok (w, q', m') \<Longrightarrow> still m m'"
  by (auto simp: cond_timedwait_def andThen_Ok_iff Let_def dest!: run_queue_ops_still still_syscall intro: still_trans)

lemma pop_all_wait_still: "pop_all_wait ts q m = Ok (n, f, l, q', m') \<Longrightarrow> still m m'"
proof (induction ts q m rule: pop_all_wait.induct)
  case (1 ts q m)
  from 1(2) obtain w q1 m1 where wait: "cond_timedwait ts q m = Ok (w, q1, m1)"
    by (auto simp: pop_all_wait.simps [of ts q m] andThen_Ok_iff)
  note s1 = cond_timedwait_still [OF wait]
  show ?case
  proof (cases w)
    case True
    with 1(2) wait obtain n1 where nx: "get_next (header q1) m1 = Ok n1"
      by (auto simp: pop_all_wait.simps [of ts q m] andThen_Ok_iff)
    with 1(1) [OF wait refl refl True nx] 1(2) wait True s1 show ?thesis
      by (auto simp: pop_all_wait.simps [of ts q m] andThen_Ok_iff split: if_splits
          dest!: unlink_still intro: still_trans)
  qed (use 1(2) wait s1 in \<open>auto simp: pop_all_wait.simps [of ts q m] andThen_Ok_iff\<close>)
qed

lemma pop_all_timed_still: "pop_all_timed t q m = Ok (n, f, l, q', m') \<Longrightarrow> still m m'"
proof -
  have g: "still m m1" if "sys_gettimeofday m = Ok (tv, m1)" for tv m1
  proof -
    from that obtain r m2 where s: "syscall (Host C_gettimeofday) m = Ok (r, m2)"
      and "(case r of Ret t \<Rightarrow> Ok ((t div 1000000, t mod 1000000), m2) | _ \<Rightarrow> Ok ((0, 0), m2)) = Ok (tv, m1)"
      unfolding sys_gettimeofday_def andThen_Ok_iff by auto
    then have "m2 = m1" by (cases r) simp_all
    with still_syscall [OF s] show ?thesis by simp
  qed
  assume run: "pop_all_timed t q m = Ok (n, f, l, q', m')"
  then obtain k n1 where n1: "mutex_lock (q_locked q) = Ok k" "get_next (header q) m = Ok n1"
    by (auto simp: pop_all_timed_def andThen_Ok_iff Let_def)
  show ?thesis
  proof (cases "n1 = header q")
    case True
    with run n1 obtain tv m1 where "sys_gettimeofday m = Ok (tv, m1)"
      and "pop_all_wait (deadline tv t) (q\<lparr>q_locked := k\<rparr>) m1 = Ok (n, f, l, q', m')"
      by (auto simp: pop_all_timed_def andThen_Ok_iff)
    with g pop_all_wait_still show ?thesis by (blast intro: still_trans)
  next
    case False
    with run n1 show ?thesis by (auto simp: pop_all_timed_def andThen_Ok_iff dest: unlink_still)
  qed
qed

lemma sender_put_still: "sender_put p s m = Ok (s', m') \<Longrightarrow> still m m'"
  by (auto simp: sender_put_def alloc_put_def andThen_Ok_iff Let_def dest: links_still)

lemma new_buffer_still: "new_buffer m = Ok (p, m') \<Longrightarrow> still m m'"
  by (auto simp: new_buffer_def andThen_Ok_iff split: if_splits dest!: still_syscall)

lemma allocate_loop_still: "allocate_loop i a m = Ok (a', m') \<Longrightarrow> still m m'"
proof (induction i arbitrary: a m)
  case (Suc i)
  then show ?case
    by (fastforce simp: andThen_Ok_iff split: if_splits dest: new_buffer_still links_still intro: still_trans)
qed simp

lemma alloc_get_still: "alloc_get a m = Ok (p, a', m') \<Longrightarrow> still m m'"
  by (auto simp: alloc_get_def allocate_def andThen_Ok_iff Let_def split: if_splits dest: allocate_loop_still)

lemma init_still: "init p bs m = Ok (ok, m') \<Longrightarrow> still m m'"
  by (auto simp: init_def c_realloc_def memcpy_def modify_Ok_iff andThen_Ok_iff Let_def
      split: if_splits option.splits dest!: still_syscall)

lemma delete_chain_still: "delete_chain fuel p q m = Ok m' \<Longrightarrow> still m m'"
proof (induction fuel arbitrary: p m)
  case (Suc fuel)
  have "delete_buffer p m = Ok m1 \<Longrightarrow> still m m1" for m1
    by (auto simp: delete_buffer_def clear_def c_free_def modify_Ok_iff andThen_Ok_iff split: if_splits option.splits)
  with Suc show ?case by (fastforce simp: andThen_Ok_iff split: if_splits intro: still_trans)
qed (auto split: if_splits)

lemma destroy_still: "sender_destroy s m = Ok m' \<Longrightarrow> still m m'"
  by (auto simp: sender_destroy_def sender_stop_def buffers_destroy_def andThen_Ok_iff ssl_destroy_def
      socket_destroy_def sock_close_def ssl_close_def ssl_free_def Let_def
      split: if_splits prod.splits dest!: delete_chain_still still_syscall intro: still_trans)


section \<open>Steps that close what they open\<close>

definition tidy :: "machine \<Rightarrow> machine \<Rightarrow> bool" where
  "tidy m m' \<longleftrightarrow>
     dom (ofiles m') \<subseteq> dom (ofiles m) \<and> dir_balance m' = dir_balance m \<and> map_balance m' = map_balance m"

lemma tidy_still: "still m m' \<Longrightarrow> tidy m m'"
  by (simp add: still_def tidy_def)

lemma tidy_refl [simp]: "tidy m m"
  by (simp add: tidy_def)

lemma tidy_trans: "tidy a b \<Longrightarrow> tidy b c \<Longrightarrow> tidy a c"
  unfolding tidy_def by (metis order_trans)

subsection \<open>Saving\<close>

lemma still_file_call:
  "syscall (File c) m = Ok (r, m') \<Longrightarrow> dir_delta (File c, r) = 0 \<Longrightarrow> map_delta (File c, r) = 0 \<Longrightarrow> still m m'"
  by (auto simp: syscall_Ok_iff still_def dir_balance_def map_balance_def)

lemma file_call_still:
  "sys_stat f m = Ok (n, m') \<Longrightarrow> still m m'"
  "sys_readdir m = Ok (e, m') \<Longrightarrow> still m m'"
  "sys_write fd bs m = Ok (k, m') \<Longrightarrow> still m m'"
  by (auto simp: sys_stat_def sys_readdir_def sys_write_def andThen_Ok_iff Let_def dest: still_file_call)

lemma unlink_file_still: "sys_unlink f m = Ok m' \<Longrightarrow> still m m'"
  by (auto simp: sys_unlink_def andThen_Ok_iff split: if_splits dest!: still_file_call)

lemma close_file_fields [simp]:
  "ofiles (sys_close_file fd m) = (ofiles m)(fd := None)" "dir_balance (sys_close_file fd m) = dir_balance m"
  "map_balance (sys_close_file fd m) = map_balance m"
  by (simp_all add: sys_close_file_def dir_balance_def map_balance_def)

lemma save_loop_closes:
  "save_loop fd f data w m = Ok (ok, m') \<Longrightarrow>
     ofiles m' = (ofiles m)(fd := None) \<and> dir_balance m' = dir_balance m \<and> map_balance m' = map_balance m"
proof (induction fd f data w m rule: save_loop.induct)
  case (1 fd f data w m)
  show ?case
  proof (cases "w < length data")
    case False
    with 1(4) show ?thesis by (auto simp: save_loop.simps [of fd f data w m])
  next
    case True
    with 1(4) obtain k m1 where wr: "sys_write fd (drop w data) m = Ok (k, m1)"
      by (auto simp: save_loop.simps [of fd f data w m] andThen_Ok_iff)
    note s1 = file_call_still(3) [OF wr, unfolded still_def]
    have run: "(if 0 < k then save_loop fd f data (w + nat k) m1
          else if k < 0 then
            (if errno m1 \<noteq> EINTR then
               andThen (sys_unlink f (sys_close_file fd m1)) (\<lambda>m. Ok (False, m))
             else save_loop fd f data w m1)
          else save_loop fd f data w m1) = Ok (ok, m')"
      using 1(4) True wr by (simp add: save_loop.simps [of fd f data w m])
    consider "0 < k" | "k < 0" "errno m1 \<noteq> EINTR" | "k < 0" "\<not> errno m1 \<noteq> EINTR" | "k = 0" by linarith
    then show ?thesis
    proof cases
      case 2
      with run s1 show ?thesis by (auto simp: andThen_Ok_iff dest!: unlink_file_still [unfolded still_def])
    qed (use 1(1-3) [OF True wr refl] run s1 in auto)
  qed
qed

lemma save_tidy: "save p f m = Ok (ok, m') \<Longrightarrow> tidy m m'"
proof -
  assume run: "save p f m = Ok (ok, m')"
  then obtain fd m1 where op: "sys_open_write f m = Ok (fd, m1)" by (auto simp: save_def andThen_Ok_iff)
  then obtain a rs where "replies m = a # rs" by (cases "replies m") (auto simp: sys_open_write_def)
  with op have m1: "fd = -1 \<and> still m m1 \<or> fd \<noteq> -1 \<and> ofiles m1 = (ofiles m)(fd \<mapsto> f) \<and> dir_balance m1 = dir_balance m \<and>
      map_balance m1 = map_balance m"
    by (auto simp: sys_open_write_def still_def dir_balance_def map_balance_def split: if_splits)
  show ?thesis
  proof (cases "fd = -1")
    case True
    with run op have "m' = m1" by (simp add: save_def)
    with m1 True show ?thesis by (auto simp: tidy_def still_def)
  next
    case False
    with run op obtain data where "save_loop fd f data 0 m1 = Ok (ok, m')" by (auto simp: save_def andThen_Ok_iff)
    from save_loop_closes [OF this] m1 False show ?thesis by (auto simp: tidy_def)
  qed
qed

lemma find_name_still: "find_name d t c m = Ok (f, c', m') \<Longrightarrow> still m m'"
proof (induction d t c m rule: find_name.induct)
  case (1 d t c m)
  from 1(2) obtain n m1 where st: "sys_stat (spool_name d t c) m = Ok (n, m1)"
    and "(if n \<noteq> None then find_name d t (c + 1) m1 else Ok (spool_name d t c, c + 1, m1)) = Ok (f, c', m')"
    by (auto simp: find_name.simps [of d t c m] andThen_Ok_iff Let_def)
  with file_call_still(1) [OF st] 1(1) [OF refl refl st refl] show ?case by (cases n) (auto intro: still_trans)
qed

lemma save_buffer_tidy: "save_buffer p c s m = Ok (ok, c', m') \<Longrightarrow> tidy m m'"
  by (auto simp: save_buffer_def andThen_Ok_iff dest!: find_name_still save_tidy intro: tidy_trans tidy_still)

lemma save_loop_tidy: "save_buffers_loop ret c f l s m = Ok (ret', s', m') \<Longrightarrow> tidy m m'"
proof (induction ret c f l s m rule: save_buffers_loop.induct)
  case (1 ret c f l s m)
  from 1(3) obtain ok c1 m1 where sb: "save_buffer f c s m = Ok (ok, c1, m1)"
    by (auto simp: save_buffers_loop.simps [of ret c f l s m] andThen_Ok_iff)
  from 1(3) sb have run: "(if ok then
         (if f \<noteq> l then
            andThen (get_next f m1) (\<lambda>next.
            andThen (sender_put f s m1) (\<lambda>(s, m). save_buffers_loop ret c1 next l s m))
          else andThen (sender_put f s m1) (\<lambda>(s, m). Ok (ret, s, m)))
       else andThen (sender_put f s m1) (\<lambda>(s, m). save_buffers_loop False c1 f l s m)) = Ok (ret', s', m')"
    by (simp add: save_buffers_loop.simps [of ret c f l s m])
  then obtain s1 m2 where put: "sender_put f s m1 = Ok (s1, m2)" by (auto simp: andThen_Ok_iff split: if_splits)
  have two: "tidy m m2" using save_buffer_tidy [OF sb] tidy_still [OF sender_put_still [OF put]] by (rule tidy_trans)
  show ?case
  proof (cases ok)
    case False
    with run put have "save_buffers_loop False c1 f l s1 m2 = Ok (ret', s', m')" by simp
    from 1(2) [OF sb refl refl False put refl this] two show ?thesis by (rule tidy_trans [rotated])
  next
    case True
    show ?thesis
    proof (cases "f = l")
      case False
      with run True put obtain nx where nx: "get_next f m1 = Ok nx" "save_buffers_loop ret c1 nx l s1 m2 = Ok (ret', s', m')"
        by (auto simp: andThen_Ok_iff)
      from 1(1) [OF sb refl refl True False nx(1) put refl nx(2)] two show ?thesis by (rule tidy_trans [rotated])
    qed (use run True put two in auto)
  qed
qed

lemma saving_tidy:
  "save_buffers s m = Ok (ret, s', m') \<Longrightarrow> tidy m m'"
  "send_buffers f l s m = Ok (s', m') \<Longrightarrow> tidy m m'"
  "send_push f l s m = Ok (sv, s', m') \<Longrightarrow> tidy m m'"
  "saver_step (sv1, s, m) = Ok (sv, s', m') \<Longrightarrow> tidy m m'"
proof -
  show all: "tidy m m'" if "save_buffers s m = Ok (ret, s', m')" for s m ret s' m'
    using that by (auto simp: save_buffers_def andThen_Ok_iff Let_def split: if_splits
        dest!: pop_still save_loop_tidy intro: tidy_trans tidy_still)
  show "send_buffers f l s m = Ok (s', m') \<Longrightarrow> tidy m m'"
    by (auto simp: send_buffers_def andThen_Ok_iff Let_def split: if_splits
        dest!: push_still all intro: tidy_trans tidy_still)
  show "send_push f l s m = Ok (sv, s', m') \<Longrightarrow> tidy m m'"
    by (auto simp: send_push_def andThen_Ok_iff dest!: push_still intro: tidy_still)
  assume "saver_step (sv1, s, m) = Ok (sv, s', m')"
  then show "tidy m m'"
    by (cases "(sv1, s, m)" rule: saver_step.cases)
       (auto simp: andThen_Ok_iff Let_def split: if_splits
         dest: pop_still file_call_still save_tidy sender_put_still intro: tidy_still)
qed

subsection \<open>The directory\<close>

context fileless
begin

lemma send_file_tidy:
  assumes "send_file v f (length bs) s m = Ok (ok, s', m')" and "files m f = Some (Reg bs)"
  shows "tidy m m'"
proof -
  from assms(1) obtain fd m1 where op: "sys_open_read f m = Ok (fd, m1)" by (auto simp: send_file_def andThen_Ok_iff)
  then obtain a rs where "replies m = a # rs" by (cases "replies m") (auto simp: sys_open_read_def)
  with op have m1: "dir_balance m1 = dir_balance m \<and> map_balance m1 = map_balance m \<and> files m1 = files m \<and>
      (if fd = -1 then ofiles m1 = ofiles m else ofiles m1 = (ofiles m)(fd \<mapsto> f))"
    by (auto simp: sys_open_read_def dir_balance_def map_balance_def split: if_splits)
  show ?thesis
  proof (cases "fd = -1")
    case True
    with assms(1) op have "m' = m1" by (simp add: send_file_def)
    with m1 True show ?thesis by (simp add: tidy_def)
  next
    case False
    with assms(1) op obtain base m2 where mm: "sys_mmap fd (length bs) m1 = Ok (base, m2)"
      and run: "(case base of
             Some bs' \<Rightarrow> andThen (sender_send v bs' s m2) (\<lambda>(ret, s, m).
                 Ok (ret, s, sys_close_file fd (sys_munmap (length bs) m)))
           | None \<Rightarrow> Ok (True, s, sys_close_file fd m2)) = Ok (ok, s', m')"
      by (auto simp: send_file_def andThen_Ok_iff)
    obtain b qs where "replies m1 = b # qs" using mm by (cases "replies m1") (auto simp: sys_mmap_def)
    moreover have "Option.bind (ofiles m1 fd) (files m1) = Some (Reg bs)" using m1 False assms(2) by simp
    ultimately have m2: "ofiles m2 = ofiles m1" "dir_balance m2 = dir_balance m1"
      "map_balance m2 = map_balance m1 + of_bool (base \<noteq> None)"
      using mm by (auto simp: sys_mmap_def dir_balance_def map_balance_def split: if_splits)
    have un: "ofiles (sys_munmap n k) = ofiles k" "dir_balance (sys_munmap n k) = dir_balance k"
      "map_balance (sys_munmap n k) = map_balance k - 1" for n k
      by (simp_all add: sys_munmap_def dir_balance_def map_balance_def)
    show ?thesis
    proof (cases base)
      case None
      with run m1 m2 False show ?thesis by (auto simp: tidy_def split: if_splits)
    next
      case (Some bs')
      with run obtain m3 where "sender_send v bs' s m2 = Ok (ok, s', m3)" "m' = sys_close_file fd (sys_munmap (length bs) m3)"
        by (auto simp: andThen_Ok_iff)
      with sender_send_still m1 m2 un False Some show ?thesis by (fastforce simp: tidy_def still_def)
    qed
  qed
qed

lemma send_entry_tidy: "send_entry v d s m = Ok (ok, s', m') \<Longrightarrow> tidy m m'"
proof -
  assume run: "send_entry v d s m = Ok (ok, s', m')"
  define f where "f = formatted (PATH_MAX + 256) (s_dir s @ ''/'' @ d)"
  show ?thesis
  proof (cases "d \<noteq> ''.'' \<and> d \<noteq> ''..''")
    case False
    with run show ?thesis by (auto simp: send_entry_def)
  next
    case True
    then have "send_entry v d s m = andThen (sys_stat f m) (\<lambda>(node, m). case node of
             Some (Reg bs) \<Rightarrow> andThen (send_file v f (length bs) s m) (\<lambda>(ok, s, m).
                 if ok then andThen (sys_unlink f m) (\<lambda>m. Ok (True, s, m)) else Ok (False, s, m))
           | _ \<Rightarrow> Ok (True, s, m))" by (simp only: send_entry_def if_P Let_def f_def simp_thms if_True)
    with run obtain node m1 where st: "sys_stat f m = Ok (node, m1)"
      and r: "(case node of
             Some (Reg bs) \<Rightarrow> andThen (send_file v f (length bs) s m1) (\<lambda>(ok, s, m).
                 if ok then andThen (sys_unlink f m) (\<lambda>m. Ok (True, s, m)) else Ok (False, s, m))
           | _ \<Rightarrow> Ok (True, s, m1)) = Ok (ok, s', m')"
      by (auto simp: andThen_Ok_iff)
    note s1 = tidy_still [OF file_call_still(1) [OF st]]
    show ?thesis
    proof (cases "\<exists>bs. node = Some (Reg bs)")
      case True
      then obtain bs where bs: "node = Some (Reg bs)" by blast
      with st have "files m1 f = Some (Reg bs)"
        by (auto simp: sys_stat_def andThen_Ok_iff syscall_Ok_iff split: if_splits)
      moreover from r bs obtain ok1 s2 m2 where "send_file v f (length bs) s m1 = Ok (ok1, s2, m2)"
        "m' = m2 \<or> sys_unlink f m2 = Ok m'" by (auto simp: andThen_Ok_iff split: if_splits)
      ultimately show ?thesis using s1 send_file_tidy unlink_file_still by (metis tidy_still tidy_trans)
    next
      case False
      with r s1 show ?thesis by (auto split: option.splits fnode.splits)
    qed
  qed
qed

end

section \<open>The steps of the system\<close>

text \<open>The thread has the directory open.\<close>

fun browsing :: "thread \<Rightarrow> bool" where
  "browsing Reading = True"
| "browsing (Entered d) = True"
| "browsing Listed = True"
| "browsing _ = False"

definition kept_open :: "conf \<Rightarrow> conf \<Rightarrow> bool" where
  "kept_open c c' \<longleftrightarrow>
     dom (ofiles (mach c')) \<subseteq> dom (ofiles (mach c)) \<and> map_balance (mach c') = map_balance (mach c) \<and>
     dir_balance (mach c') - of_bool (browsing (fst c')) = dir_balance (mach c) - of_bool (browsing (fst c))"

lemma kept_open_trans:
  assumes "kept_open a b" and "kept_open b c" shows "kept_open a c"
proof -
  have "dom (ofiles (mach c)) \<subseteq> dom (ofiles (mach a))" using assms unfolding kept_open_def by (blast intro: subset_trans)
  with assms show ?thesis unfolding kept_open_def by simp
qed

lemma kept_open_tidy: "tidy m m' \<Longrightarrow> browsing ph' = browsing ph \<Longrightarrow> kept_open (ph, s, m) (ph', s', m')"
  by (simp add: kept_open_def tidy_def)

lemmas kept_open_still = kept_open_tidy [OF tidy_still]

lemma closedir_balances [simp]:
  "ofiles (sys_closedir m) = ofiles m" "dir_balance (sys_closedir m) = dir_balance m - 1"
  "map_balance (sys_closedir m) = map_balance m"
  by (simp_all add: sys_closedir_def dir_balance_def map_balance_def)

context fileless
begin

lemma reconnect_still: "reconnect v e s m = Ok (e', s', m') \<Longrightarrow> still m m'"
  by (auto simp: reconnect_def sys_time_def usleep_def andThen_Ok_iff Let_def split: if_splits
      dest!: sender_connect_still still_syscall intro: still_trans)

lemma thread_step_opens:
  assumes "thread_step v (ph, s, m) = Ok (ph', s', m')" shows "kept_open (ph, s, m) (ph', s', m')"
proof (cases ph)
  case (Begin e)
  with assms show ?thesis
    by (auto simp: andThen_Ok_iff split: if_splits dest!: reconnect_still intro: kept_open_still)
next
  case Popping
  from assms obtain x where p: "pop_all_timed (of_nat (sleep_interval div 1000)) (s_queue s) m = Ok x"
    unfolding Popping thread_step.simps andThen_Ok_iff by blast
  obtain n f l q m1 where x: "x = (n, f, l, q, m1)" by (metis prod.collapse)
  note p = p [unfolded x]
  from assms p have "still m1 m' \<and> \<not> browsing ph'"
    by (auto simp: Popping Let_def split: if_splits prod.splits dest: disconnect_still)
  with still_trans [OF pop_all_timed_still [OF p]] show ?thesis by (intro kept_open_still) (simp_all add: Popping)
next
  case (Sent f l)
  with assms show ?thesis
    by (auto simp: andThen_Ok_iff split: if_splits dest!: sender_put_still intro: kept_open_still)
next
  case (Opening)
  from assms obtain r where "syscall (File (C_opendir (s_dir s))) m = Ok (r, m')"
    "ph' = (if status_of r = 0 then Reading else Check True)"
    by (auto simp: Opening sys_opendir_def andThen_Ok_iff)
  then show ?thesis
    by (auto simp: Opening kept_open_def syscall_Ok_iff dir_balance_def map_balance_def)
next
  case Reading
  with assms show ?thesis
    by (auto simp: andThen_Ok_iff split: option.splits dest!: file_call_still intro!: kept_open_still)
next
  case (Entered d)
  from assms obtain ok m1 where e: "send_entry v d s m = Ok (ok, s', m1)"
    "(ph', m') = (if ok then (Reading, m1) else (Check True, sys_closedir m1))"
    by (auto simp: Entered andThen_Ok_iff split: if_splits)
  with send_entry_tidy [OF e(1)] show ?thesis
    by (auto simp: Entered kept_open_def tidy_def split: if_splits)
next
  case Listed
  with assms show ?thesis by (auto simp: kept_open_def)
next
  case Leaving
  with assms show ?thesis by (auto simp: andThen_Ok_iff dest: saving_tidy intro: kept_open_tidy)
qed (use assms in \<open>auto simp: andThen_Ok_iff split: if_splits
       dest!: sender_connect_still sender_send_still push_still intro: kept_open_still\<close>)

lemma sys_step_opens: "sys_step v c es c' \<Longrightarrow> kept_open c c'"
proof (induction rule: sys_step.induct)
  case (work ph s m c)
  then show ?case by (cases c) (auto dest: thread_step_opens simp del: thread_step.simps)
next
  case (pop s m xs ys w zs c)
  then show ?case by (cases c) (auto dest: thread_step_opens simp del: thread_step.simps)
next
  case (leave s m xs ys c)
  then show ?case by (cases c) (auto dest: thread_step_opens simp del: thread_step.simps)
qed (auto intro!: kept_open_tidy dest: saving_tidy alloc_get_still init_still intro: tidy_still)

lemma net_step_opens: "net_step v n es os n' \<Longrightarrow> kept_open (fst n) (fst n')"
  by (induction rule: net_step.induct)
     (auto intro: kept_open_tidy sys_step_opens dest: saving_tidy simp del: saver_step.simps)

lemma net_history_opens: "net_history P v n es gs ws ds n' \<Longrightarrow> kept_open (fst n) (fst n')"
proof (induction rule: net_history.induct)
  case start
  then show ?case by (simp add: kept_open_def)
next
  case (step es gs ws ds n1 fs os n2)
  from step.IH net_step_opens [OF step.hyps(2)] show ?case by (rule kept_open_trans)
qed

end

end
