(* ===== verification/Spool_Names.thy ===== *)
theory Spool_Names
  imports Producers
begin

text \<open>
  The names of the saved files: that they are not cut off, that two counts never give the same
  name, that a directory with room takes all the buffers, and what happens when two threads look
  for a name, or one writes a file and another reads it, at the same time.
\<close>

section \<open>The text of a name\<close>

lemma decimal_zeros: "decimal 0 (replicate k (CHR ''0'') @ t) = decimal 0 t"
  by (induction k) simp_all

lemma decimal_padded: "decimal 0 (padded w n) = unat n"
  by (simp add: padded_def Let_def decimal_zeros decimal_utoa)

lemma padded_length: "0 < w \<Longrightarrow> unat n < 10 ^ w \<Longrightarrow> length (padded w n) = w"
  using utoa_length [of "unat n" w] by (simp add: padded_def Let_def)

text \<open>A calendar date of four digits and a time of day, with the leap second.\<close>

definition sane_tm :: "tm \<Rightarrow> bool" where
  "sane_tm t \<longleftrightarrow>
     -1900 \<le> tm_year t \<and> tm_year t < 8100 \<and> 0 \<le> tm_mon t \<and> tm_mon t < 12 \<and> 0 \<le> tm_mday t \<and> tm_mday t < 32 \<and>
     0 \<le> tm_hour t \<and> tm_hour t < 24 \<and> 0 \<le> tm_min t \<and> tm_min t < 60 \<and> 0 \<le> tm_sec t \<and> tm_sec t < 61"

lemma unat_small: "0 \<le> i \<Longrightarrow> i < 2 ^ 32 \<Longrightarrow> unat (word_of_int i :: 32 word) = nat i"
  by (simp add: unat_eq_nat_uint uint_word_of_int)

lemma padded_int: "0 \<le> i \<Longrightarrow> i < 10 ^ w \<Longrightarrow> 0 < w \<Longrightarrow> w \<le> 4 \<Longrightarrow> length (padded w (word_of_int i)) = w"
proof -
  assume a: "0 \<le> i" "i < 10 ^ w" "0 < w" "w \<le> 4"
  have "(10 :: int) ^ w \<le> 10 ^ 4" using a(4) by (intro power_increasing) simp_all
  with a(2) have "i < 2 ^ 32" by simp
  with a show ?thesis by (intro padded_length) (simp_all add: unat_small nat_less_iff)
qed

definition stamp :: "tm \<Rightarrow> string" where
  "stamp t = padded 4 (word_of_int (1900 + tm_year t)) @ padded 2 (word_of_int (1 + tm_mon t)) @
     padded 2 (word_of_int (tm_mday t)) @ ''-'' @ padded 2 (word_of_int (tm_hour t)) @
     padded 2 (word_of_int (tm_min t)) @ padded 2 (word_of_int (tm_sec t)) @ ''_''"

lemma stamp_length:
  assumes "sane_tm t" shows "length (stamp t) = 16"
proof -
  have "length (padded 4 (word_of_int (1900 + tm_year t))) = 4" "length (padded 2 (word_of_int (1 + tm_mon t))) = 2"
    "length (padded 2 (word_of_int (tm_mday t))) = 2" "length (padded 2 (word_of_int (tm_hour t))) = 2"
    "length (padded 2 (word_of_int (tm_min t))) = 2" "length (padded 2 (word_of_int (tm_sec t))) = 2"
    using assms unfolding sane_tm_def by (intro padded_int; simp)+
  then show ?thesis unfolding stamp_def length_append by simp
qed

lemma spool_name_exact:
  assumes "length dir < PATH_MAX" and "sane_tm t" and "unat c < 10 ^ 6"
  shows "spool_name dir t c = dir @ ''/'' @ stamp t @ padded 6 c \<and>
         length (spool_name dir t c) = length dir + 23 \<and>
         (\<forall>c'. unat c' < 10 ^ 6 \<and> spool_name dir t c' = spool_name dir t c \<longrightarrow> c' = c)"
proof -
  have full: "spool_name dir t k = dir @ ''/'' @ stamp t @ padded 6 k" if "unat k < 10 ^ 6" for k
  proof -
    have "length (padded 6 k) = 6" using that by (intro padded_length) simp_all
    then have "length (dir @ ''/'' @ stamp t @ padded 6 k) \<le> PATH_MAX + 22"
      using assms(1,2) by (simp add: stamp_length)
    then show ?thesis by (simp add: spool_name_def formatted_def stamp_def)
  qed
  have "length (padded 6 c) = 6" using assms(3) by (intro padded_length) simp_all
  moreover have "c' = c" if "unat c' < 10 ^ 6" "spool_name dir t c' = spool_name dir t c" for c'
  proof -
    from that full [of c'] full [OF assms(3)] have "padded 6 c' = padded 6 c" by simp
    then have "unat c' = unat c" by (metis decimal_padded)
    then show ?thesis by (simp add: word_unat_eq_iff)
  qed
  ultimately show ?thesis using full [OF assms(3)] assms(2) by (simp add: stamp_length)
qed

lemma spool_name_split: "spool_name dir t n = formatted (PATH_MAX + 23) (dir @ ''/'' @ stamp t @ padded 6 n)"
  by (simp add: spool_name_def stamp_def)

text \<open>The longest directory, and the first two counts of seven digits.\<close>

lemma spool_name_cut:
  assumes "length dir = PATH_MAX - 1" and "sane_tm t" and "n = 10 ^ 6 \<or> n = 10 ^ 6 + 1"
  shows "spool_name dir t n = dir @ ''/'' @ stamp t @ ''100000''"
proof -
  have "padded 6 n = ''1000000'' \<or> padded 6 n = ''1000001''"
    using assms(3) by (elim disjE) (simp_all add: padded_def utoa.simps char_of_def bit_0)
  then have "take 6 (padded 6 n) = ''100000''" by auto
  moreover have "length dir = 4095" using assms(1) by (simp add: PATH_MAX_def)
  ultimately show ?thesis
    using stamp_length [OF assms(2)] by (simp add: spool_name_split formatted_def PATH_MAX_def)
qed

text \<open>
  C15: the array for the name of a saved file is just long enough: with a directory that \<open>start\<close>
  accepts, a year of four digits and a count below a million, nothing is cut off; and two
  counts below a million never give the same name. The bound is sharp: in a directory with the
  longest name, the counts 1,000,000 and 1,000,001 are cut off to the same name.
\<close>

theorem spool_name_fits:
  assumes "length dir < PATH_MAX" and "sane_tm t" and "unat c < 10 ^ 6"
  shows "spool_name dir t c = dir @ ''/'' @ stamp t @ padded 6 c \<and>
         length (spool_name dir t c) = length dir + 23 \<and>
         (\<forall>c'. unat c' < 10 ^ 6 \<and> spool_name dir t c' = spool_name dir t c \<longrightarrow> c' = c) \<and>
         (length dir = PATH_MAX - 1 \<longrightarrow> spool_name dir t 1000000 = spool_name dir t 1000001)"
  using spool_name_exact [OF assms] spool_name_cut [OF _ assms(2), of dir "10 ^ 6"]
    spool_name_cut [OF _ assms(2), of dir "10 ^ 6 + 1"] by (intro conjI impI) (blast | simp)+

theorem spool_name_fits_witness:
  "spool_name ''spool'' (tz sample 0) 7 \<noteq> spool_name ''spool'' (tz sample 0) 8 \<and>
   length (spool_name ''spool'' (tz sample 0) 7) = 28"
proof -
  have c: "length ''spool'' < PATH_MAX" "sane_tm (tz sample 0)" "unat (7 :: 32 word) < 10 ^ 6"
    by (simp_all add: PATH_MAX_def sane_tm_def sample_def)
  note fits = spool_name_fits [OF c]
  from fits have "spool_name ''spool'' (tz sample 0) 8 = spool_name ''spool'' (tz sample 0) 7 \<longrightarrow> (8 :: 32 word) = 7"
    by (elim conjE allE [of _ 8]) simp
  moreover have "length (spool_name ''spool'' (tz sample 0) 7) = length ''spool'' + 23" using fits by blast
  ultimately show ?thesis by auto
qed

section \<open>Saving succeeds\<close>

text \<open>The answers to the calls of saving a buffer: a free name, a descriptor, and all bytes taken.\<close>

definition accepts :: "machine \<Rightarrow> ptr \<Rightarrow> reply list" where
  "accepts m p = [Ret 0, Ret 5] @ (if content m p = [] then [] else [Ret (int (length (content m p)))])"

lemma honest_more:
  "honest m \<Longrightarrow> trace m' = trace m @ es \<Longrightarrow> \<forall>(c, r) \<in> set es. status_of r = 0 \<Longrightarrow> honest m'"
  unfolding honest_def by fastforce

lemma find_name_free:
  assumes "replies m = Ret 0 # rs" and "files m (spool_name d t c) = None" and "honest m"
  shows "\<exists>m'. find_name d t c m = Ok (spool_name d t c, c + 1, m') \<and> replies m' = rs \<and>
           same_mem m m' \<and> files m' = files m \<and> honest m'"
proof -
  let ?m = "m\<lparr>replies := rs, trace := trace m @ [(File (C_stat (spool_name d t c)), Ret 0)]\<rparr>"
  have "find_name d t c m = Ok (spool_name d t c, c + 1, ?m)"
    using assms(1,2) by (simp add: find_name.simps [of d t c m] sys_stat_def Let_def)
  moreover have "honest ?m" by (rule honest_more [OF assms(3)]) auto
  ultimately show ?thesis by (simp add: same_mem_def)
qed

lemma save_accepted:
  assumes "view p m = Ok data" and "replies m = [Ret 5] @ (if data = [] then [] else [Ret (int (length data))]) @ rs"
    and "files m f = None" and "honest m"
  shows "\<exists>m'. save p f m = Ok (True, m') \<and> replies m' = rs \<and> same_mem m m' \<and>
           files m' = (files m)(f \<mapsto> Reg data) \<and> honest m'"
proof -
  have v: "view p (m\<lparr>replies := a, trace := b\<rparr>) = Ok data" for a b
    using assms(1) view_eq [of "m\<lparr>replies := a, trace := b\<rparr>" m p] by simp
  have "\<exists>m'. save p f m = Ok (True, m') \<and> replies m' = rs \<and> same_mem m m' \<and>
           files m' = (files m)(f \<mapsto> Reg data) \<and> (\<exists>es. trace m' = trace m @ es \<and> (\<forall>(c, r) \<in> set es. status_of r = 0))"
    using assms(2,3)
    by (cases "data = []")
       (auto simp: save_def sys_open_write_def v save_loop.simps sys_write_def append_file_def Let_def
         sys_close_file_def same_mem_def)
  with honest_more [OF assms(4)] show ?thesis by blast
qed

lemma save_buffer_accepted:
  assumes "view p m = Ok (content m p)" and "replies m = accepts m p @ rs"
    and "files m (spool_name (s_dir s) (tz m (s_now s)) c) = None" and "honest m"
  shows "\<exists>m'. save_buffer p c s m = Ok (True, c + 1, m') \<and> replies m' = rs \<and> same_mem m m' \<and>
           files m' = (files m)(spool_name (s_dir s) (tz m (s_now s)) c \<mapsto> Reg (content m p)) \<and> honest m'"
proof -
  let ?f = "spool_name (s_dir s) (tz m (s_now s)) c"
  from find_name_free [OF _ assms(3,4)] assms(2) obtain m1 where
    m1: "find_name (s_dir s) (tz m (s_now s)) c m = Ok (?f, c + 1, m1)" "same_mem m m1" "files m1 = files m" "honest m1"
      "replies m1 = [Ret 5] @ (if content m p = [] then [] else [Ret (int (length (content m p)))]) @ rs"
    by (auto simp: accepts_def)
  have "view p m1 = Ok (content m p)" using assms(1) same_mem_views(5) [OF m1(2)] by simp
  from save_accepted [OF this m1(5) _ m1(4), of ?f] assms(3) m1(3) obtain m2 where
    "save p ?f m1 = Ok (True, m2)" "replies m2 = rs" "same_mem m1 m2"
    "files m2 = (files m1)(?f \<mapsto> Reg (content m p))" "honest m2" by auto
  with m1 show ?thesis by (auto simp: save_buffer_def intro: same_mem_trans)
qed

text \<open>The queue in the hands of the loop stays so when only files change.\<close>

lemma to_send_same_mem:
  assumes "same_mem m m'" shows "to_send m' s f xs l ws ys = to_send m s f xs l ws ys"
proof -
  note mem = same_mem_views [OF assms]
  have "sendable m' xs = sendable m xs" by (rule sendable_cong) (simp add: mem)
  then show ?thesis by (simp add: to_send_def mem)
qed

lemma accepts_cong: "content m' = content m \<Longrightarrow> accepts m' = accepts m"
  by (simp add: accepts_def fun_eq_iff)

lemma save_buffers_loop_accepted:
  assumes "to_send m s first xs final ws ys" and "replies m = concat (map (accepts m) xs) @ rs" and "honest m"
    and "length (s_dir s) < PATH_MAX" and "sane_tm (tz m (s_now s))" and "unat c + length xs \<le> 10 ^ 6"
    and "\<forall>k. unat c \<le> unat k \<and> unat k < 10 ^ 6 \<longrightarrow> files m (spool_name (s_dir s) (tz m (s_now s)) k) = None"
  shows "\<exists>s' m'. save_buffers_loop r c first final s m = Ok (r, s', m') \<and> honest m'"
  using assms
proof (induction xs arbitrary: first c s m ys)
  case (Cons x xs)
  let ?name = "spool_name (s_dir s) (tz m (s_now s))"
  from to_send_put [OF Cons.prems(1)] have first: "first = x" by blast
  have v: "view x m = Ok (content m x)" using Cons.prems(1) by (simp add: to_send_def sendable_def)
  have rp: "replies m = accepts m x @ concat (map (accepts m) xs) @ rs" using Cons.prems(2) by simp
  have "files m (?name c) = None" using Cons.prems(6,7) by simp
  from save_buffer_accepted [OF v rp this Cons.prems(3)] obtain m1 where
    m1: "save_buffer x c s m = Ok (True, c + 1, m1)" "replies m1 = concat (map (accepts m) xs) @ rs"
      "same_mem m m1" "files m1 = (files m)(?name c \<mapsto> Reg (content m x))" "honest m1" by blast
  have "to_send m1 s first (x # xs) final ws ys" using Cons.prems(1) to_send_same_mem [OF m1(3)] by simp
  from to_send_put [OF this] obtain a m2 where
    put: "sender_put first s m1 = Ok (s\<lparr>s_alloc := a\<rparr>, m2)" "relinked {x} m1 m2" "trace m2 = trace m1"
      "x = final \<longleftrightarrow> xs = []"
    and more: "xs \<noteq> [] \<longrightarrow> get_next first m1 = Ok (hd xs) \<and>
      to_send m2 (s\<lparr>s_alloc := a\<rparr>) (hd xs) xs final ws (x # ys)" by blast
  have h2: "honest m2" using m1(5) put(3) by (simp add: honest_def)
  note unf = save_buffers_loop.simps [of r c _ final s m]
  show ?case
  proof (cases "xs = []")
    case True
    with m1(1) put(1,4) first h2 show ?thesis by (simp add: unf)
  next
    case False
    note rl = relinked_fields [OF put(2)]
    let ?s = "s\<lparr>s_alloc := a\<rparr>"
    have tz: "tz m2 = tz m" using m1(3) rl by (simp add: same_mem_def)
    have "view p m2 = view p m" for p using relinked_view [OF put(2)] view_same_mem [OF m1(3)] by simp
    then have con: "content m2 = content m" by (intro content_cong) simp
    have c1: "unat (c + 1) = unat c + 1"
      using Cons.prems(6) by (simp add: unat_word_ariths)
    have "replies m2 = concat (map (accepts m2) xs) @ rs"
      using m1(2) rl accepts_cong [OF con] by simp
    moreover have "files m2 (?name k) = None" if "unat (c + 1) \<le> unat k" "unat k < 10 ^ 6" for k
    proof -
      have "unat c < 10 ^ 6" "k \<noteq> c" using Cons.prems(6) that c1 by auto
      with spool_name_exact [OF Cons.prems(4,5)] that(2) have "?name k \<noteq> ?name c" by metis
      with m1(4) rl Cons.prems(7) that c1 show ?thesis by simp
    qed
    ultimately obtain s' m' where "save_buffers_loop r (c + 1) (hd xs) final ?s m2 = Ok (r, s', m')" "honest m'"
      using Cons.IH [of m2 ?s "hd xs" "x # ys" "c + 1"] more False h2 Cons.prems(4-6) c1 tz by auto
    with m1(1) put(1,4) more False first show ?thesis by (auto simp: unf)
  qed
qed (simp add: to_send_def own_chain_def)

lemma save_buffers_accepted:
  assumes "sender_ok m s xs ys" and "replies m = concat (map (accepts m) xs) @ rs" and "honest m"
    and "length (s_dir s) < PATH_MAX" and "sane_tm (tz m (s_now s))" and "length xs \<le> 10 ^ 6"
    and "\<forall>k. files m (spool_name (s_dir s) (tz m (s_now s)) k) = None"
  shows "\<exists>s' m'. save_buffers s m = Ok (True, s', m') \<and> honest m' \<and>
           stored (s_dir s) (tz m (s_now s)) xs m m' \<and> sender_ok m' s' [] (rev xs @ ys)"
proof -
  have "\<exists>s' m'. save_buffers s m = Ok (True, s', m') \<and> honest m'"
  proof (cases "xs = []")
    case True
    with assms(1,3) pop_all_Nil [of m "s_queue s"] show ?thesis
      by (simp add: save_buffers_def sender_ok_def)
  next
    case False
    from take_now [OF assms(1) False, of 0] obtain n f l q m1 where
      p: "pop_all_timed 0 (s_queue s) m = Ok (n, f, l, q, m1)" and tk: "taken s xs ys m (n, f, l, q, m1)" by auto
    have ql: "queue_list m (s_queue s) xs" using assms(1) by (simp add: sender_ok_def)
    from timed_pop_immediate [OF ql False] p have pop: "pop_all (s_queue s) m = Ok (n, f, l, q, m1)" by simp
    let ?s = "s\<lparr>s_queue := q\<rparr>"
    from tk obtain A where t: "0 < n" "to_send m1 ?s f xs l [] ys" "shuffled A m m1" by (auto simp: taken_def)
    have fr: "trace m1 = trace m" by (rule pop_trace(2) [OF pop])
    have rp: "replies m1 = replies m" "tz m1 = tz m" "files m1 = files m"
      using t(3) pop_all_Cons [OF ql False] pop relinked_fields by (auto simp: shuffled_def)
    have "content m1 = content m" by (rule content_cong) (use shuffled_view [OF t(3)] in simp)
    then have "replies m1 = concat (map (accepts m1) xs) @ rs" using assms(2) rp accepts_cong by metis
    moreover have "honest m1" using assms(3) fr by (simp add: honest_def)
    ultimately obtain s' m' where "save_buffers_loop True 0 f l ?s m1 = Ok (True, s', m')" "honest m'"
      using save_buffers_loop_accepted [OF t(2), of rs 0 True] assms(4-7) rp by auto
    with pop t(1) show ?thesis by (simp add: save_buffers_def Let_def)
  qed
  then show ?thesis using save_buffers_ok [OF assms(1)] by blast
qed

text \<open>
  C14: saving the queue succeeds when the directory has no files of this second yet and the kernel
  opens a new file for each buffer and takes its bytes: \<open>save_buffers\<close> returns true, all the
  buffers are in files of their own and back in the free list, and the queue is empty.
\<close>

theorem save_buffers_succeeds:
  assumes "sender_ok m s xs ys" and "replies m = concat (map (accepts m) xs) @ rs" and "honest m"
    and "length (s_dir s) < PATH_MAX" and "sane_tm (tz m (s_now s))" and "length xs \<le> 10 ^ 6"
    and "\<forall>k. files m (spool_name (s_dir s) (tz m (s_now s)) k) = None"
  shows "\<exists>s' m'. save_buffers s m = Ok (True, s', m') \<and> honest m' \<and>
           stored (s_dir s) (tz m (s_now s)) xs m m' \<and> sender_ok m' s' [] (rev xs @ ys)"
  by (rule save_buffers_accepted [OF assms])

theorem save_buffers_succeeds_witness:
  "\<exists>s' m'. save_buffers sample_online (sample\<lparr>replies := [Ret 0, Ret 5, Ret 2, Ret 0, Ret 5, Ret 1]\<rparr>) = Ok (True, s', m') \<and>
     sender_ok m' s' [] [3, 2, 4, 5]"
proof -
  let ?m = "sample\<lparr>replies := [Ret 0, Ret 5, Ret 2, Ret 0, Ret 5, Ret 1]\<rparr>"
  have ok: "sender_ok ?m sample_online [2, 3] [4, 5]"
    using sample_online_ok [where rs = "replies ?m" and fs = "files ?m"] by (simp add: sample_def)
  have "replies ?m = concat (map (accepts ?m) [2, 3]) @ []"
    by (simp add: accepts_def content_def sample_views)
  moreover have "honest ?m" by (simp add: honest_def sample_def)
  moreover have "length (s_dir sample_online) < PATH_MAX" "sane_tm (tz ?m (s_now sample_online))"
    "\<forall>f. files ?m f = None"
    by (simp_all add: PATH_MAX_def sane_tm_def sample_def sample_online_def sample_sender_def new_sender_def)
  ultimately show ?thesis using save_buffers_succeeds [OF ok] by fastforce
qed

section \<open>Two threads that save at the same time\<close>

text \<open>The name that is found depends only on the files there are.\<close>

lemma sys_stat_honest:
  assumes "sys_stat f m = Ok (n, m1)" and "honest m1" shows "n = files m f \<and> files m1 = files m"
proof (cases "replies m")
  case (Cons r rs)
  with assms(1) have m1: "n = (if status_of r = 0 then files m f else None)" "files m1 = files m"
    "(File (C_stat f), r) \<in> set (trace m1)" by (auto simp: sys_stat_def)
  have "stat_call (File (C_stat f), r)" by (simp add: stat_call_def)
  with assms(2) m1(3) have "status_of r = 0" unfolding honest_def by (metis snd_conv)
  with m1(1,2) show ?thesis by simp
qed (use assms(1) in \<open>simp add: sys_stat_def\<close>)

lemma find_name_file_only: "find_name d t c m = Ok (f, c', m') \<Longrightarrow> file_only m m' \<and> files m' = files m \<and> same_mem m m'"
  using wp_Ok [OF wp_find_name] by (auto simp: found_def)

lemma find_name_cases:
  assumes "find_name d t c m = Ok (f, c', m')" and "honest m'"
  obtains (free) "files m (spool_name d t c) = None" "f = spool_name d t c" "c' = c + 1"
  | (taken) m1 n where "files m (spool_name d t c) \<noteq> None" "sys_stat (spool_name d t c) m = Ok (n, m1)" "n \<noteq> None"
      "find_name d t (c + 1) m1 = Ok (f, c', m')" "files m1 = files m"
proof -
  from assms(1) obtain n m1 where st: "sys_stat (spool_name d t c) m = Ok (n, m1)"
    and r: "(if n \<noteq> None then find_name d t (c + 1) m1 else Ok (spool_name d t c, c + 1, m1)) = Ok (f, c', m')"
    by (auto simp: find_name.simps [of d t c m] andThen_Ok_iff Let_def)
  have "file_only m1 m'" using r find_name_file_only by (cases n) auto
  then have "honest m1" using assms(2) honest_before by blast
  note n = sys_stat_honest [OF st this]
  show ?thesis
  proof (cases n)
    case None
    with r n free show ?thesis by simp
  next
    case (Some a)
    with n have "files m (spool_name d t c) \<noteq> None" by (metis option.distinct(1))
    moreover have "find_name d t (c + 1) m1 = Ok (f, c', m')" using r Some by simp
    ultimately show ?thesis using taken [OF _ st] n Some by blast
  qed
qed

lemma find_name_same:
  "find_name d t c m = Ok (f, c1, m1) \<Longrightarrow> honest m1 \<Longrightarrow> find_name d t c m' = Ok (g, c2, m2) \<Longrightarrow> honest m2 \<Longrightarrow>
     files m' = files m \<Longrightarrow> g = f"
proof (induction d t c m arbitrary: m' rule: find_name.induct)
  case (1 d t c m)
  from 1(2,3) show ?case
  proof (cases rule: find_name_cases)
    case free
    from 1(4,5) show ?thesis by (cases rule: find_name_cases) (use free 1(6) in auto)
  next
    case (taken m3 n)
    from 1(4,5) show ?thesis
    proof (cases rule: find_name_cases)
      case free
      with taken 1(6) show ?thesis by simp
    next
      case again: (taken m4 n')
      have "files m4 = files m3" using again(5) taken(5) 1(6) by simp
      with 1(1) [OF refl refl taken(2) refl] taken(3,4) 1(3,5) again(4) show ?thesis by simp
    qed
  qed
qed

text \<open>
  C26: two threads that save buffers in the same second lose one of them: the second looks for a
  name before the first has opened its file, finds the same one, and truncates the file the
  first has written. Both saves return true, and the first buffer is in no file.
\<close>

theorem spool_name_race:
  assumes "find_name d t c m = Ok (f, c1, m1)" and "find_name d t c m1 = Ok (g, c2, m2)" and "honest m2"
    and "view p m = Ok ps" and "view q m = Ok qs"
    and "save p f m2 = Ok (True, m3)" and "save q g m3 = Ok (True, m4)"
  shows "g = f \<and> files m f = None \<and> files m4 = (files m)(f \<mapsto> Reg qs)"
proof -
  note f1 = find_name_file_only [OF assms(1)] and f2 = find_name_file_only [OF assms(2)]
  have h1: "honest m1" using honest_before [OF assms(3)] f2 by blast
  have g: "g = f" by (rule find_name_same [OF assms(1) h1 assms(2,3)]) (use f1 in simp)
  from wp_Ok [OF wp_find_name assms(1)] obtain r where r: "(File (C_stat f), r) \<in> set (trace m1)"
    "status_of r = 0 \<longrightarrow> files m f = None" by (auto simp: found_def)
  have "stat_call (File (C_stat f), r)" by (simp add: stat_call_def)
  with h1 r(1) have "status_of r = 0" unfolding honest_def by (metis snd_conv)
  with r(2) have "files m f = None" by simp
  moreover have "same_mem m m2" using f1 f2 by (auto intro: same_mem_trans)
  then have "view p m2 = Ok ps" using assms(4) view_same_mem by metis
  note s3 = save_written [OF this assms(6)]
  have "view q m3 = Ok qs" using assms(5) s3 \<open>same_mem m m2\<close> view_same_mem by metis
  note s4 = save_written [OF this assms(7)]
  have "files m4 h = ((files m)(f \<mapsto> Reg qs)) h" for h
    using s3 s4 f1 f2 g by (cases "h = f") simp_all
  then have "files m4 = (files m)(f \<mapsto> Reg qs)" by blast
  ultimately show ?thesis using g by simp
qed

text \<open>The buffers 2 and 3, whose bytes are 1 and 2, and 3.\<close>

theorem spool_name_race_witness:
  "\<exists>f c1 m1 c2 m2 m3 m4. find_name [] (tz sample 0) 0 (sample\<lparr>replies := [Ret 0, Ret 0, Ret 5, Ret 2, Ret 6, Ret 1]\<rparr>) =
       Ok (f, c1, m1) \<and>
     find_name [] (tz sample 0) 0 m1 = Ok (f, c2, m2) \<and> save 2 f m2 = Ok (True, m3) \<and>
     save 3 f m3 = Ok (True, m4) \<and> files m4 = [f \<mapsto> Reg [3]]"
proof -
  let ?m = "sample\<lparr>replies := [Ret 0, Ret 0, Ret 5, Ret 2, Ret 6, Ret 1]\<rparr>"
  obtain f c1 m1 g c2 m2 m3 m4 where
    n: "find_name [] (tz sample 0) 0 ?m = Ok (f, c1, m1)" "find_name [] (tz sample 0) 0 m1 = Ok (g, c2, m2)"
    and s: "save 2 f m2 = Ok (True, m3)" "save 3 g m3 = Ok (True, m4)"
    and t: "trace m2 = [(File (C_stat f), Ret 0), (File (C_stat g), Ret 0)]"
    by (simp add: find_name.simps sys_stat_def Let_def save_def sys_open_write_def view_Some read_block_def
        save_loop.simps sys_write_def sys_close_file_def append_file_def sample_def)
  have h: "honest m2" unfolding honest_def t by (auto simp: stat_call_def)
  have v: "view 2 ?m = Ok [1, 2]" "view 3 ?m = Ok [3]" by (simp_all add: sample_views)
  from spool_name_race [OF n h v s] n s show ?thesis by (auto simp: sample_def)
qed

section \<open>Reading a file that is being written\<close>

text \<open>Writes to a file that has lost its name do not bring it back.\<close>

lemma save_loop_unlinked:
  "save_loop fd f data w m = Ok (ok, m') \<Longrightarrow> ofiles m fd = Some f \<Longrightarrow> files m f = None \<Longrightarrow> files m' = files m"
proof (induction fd f data w m rule: save_loop.induct)
  case (1 fd f data w m)
  show ?case
  proof (cases "w < length data")
    case False
    with 1(4) show ?thesis by (auto simp: save_loop.simps [of fd f data w m] sys_close_file_def)
  next
    case True
    with 1(4) obtain k m1 where wr: "sys_write fd (drop w data) m = Ok (k, m1)"
      by (auto simp: save_loop.simps [of fd f data w m] andThen_Ok_iff)
    then have m1: "ofiles m1 fd = Some f" "files m1 f = None" "files m1 = files m"
      using 1(5,6) by (auto simp: sys_write_def andThen_Ok_iff syscall_Ok_iff Let_def append_file_def)
    have un: "files m2 = files m1" if "sys_unlink f (sys_close_file fd m1) = Ok m2" for m2
    proof (cases "replies m1")
      case (Cons r rs)
      with that m1(2) show ?thesis
        by (cases "status_of r = 0") (auto simp: sys_unlink_def sys_close_file_def fun_upd_idem)
    qed (use that in \<open>simp add: sys_unlink_def sys_close_file_def\<close>)
    have run: "(if 0 < k then save_loop fd f data (w + nat k) m1
          else if k < 0 then
            (if errno m1 \<noteq> EINTR then
               andThen (sys_unlink f (sys_close_file fd m1)) (\<lambda>m. Ok (False, m))
             else save_loop fd f data w m1)
          else save_loop fd f data w m1) = Ok (ok, m')"
      using 1(4) True wr by (simp add: save_loop.simps [of fd f data w m])
    consider "0 < k" | "k < 0" "errno m1 \<noteq> EINTR" | "k < 0" "\<not> errno m1 \<noteq> EINTR" | "k = 0" by linarith
    then show ?thesis
    proof cases
      case 2
      with run un m1(3) show ?thesis by (auto simp: andThen_Ok_iff)
    qed (use 1(1-3) [OF True wr refl] run m1 in auto)
  qed
qed

text \<open>
  C27: a file that is being written when the thread reads the directory is lost: \<open>save\<close> has opened it
  and written nothing yet, so \<open>mmap\<close> refuses it, \<open>send_file\<close> takes it for one to ignore, and
  \<open>send_files\<close> removes it. Nothing has been sent, \<open>save\<close> still returns true, and the bytes it
  writes are in no file.
\<close>

theorem spool_read_race:
  assumes "sys_open_write (spool_path s d) m = Ok (fd, m1)" and "fd \<noteq> -1" and "d \<noteq> ''.''" and "d \<noteq> ''..''"
    and "replies m1 = [Ret a, Ret fd2, r, Ret b] @ rs" and "0 \<le> fd2" and "fd2 \<noteq> fd"
  shows "\<exists>m2. send_entry v d s m1 = Ok (True, s, m2) \<and> file_only m1 m2 \<and> files m2 = (files m)(spool_path s d := None) \<and>
           (\<forall>m3 data. save_loop fd (spool_path s d) data 0 m2 = Ok (True, m3) \<longrightarrow> files m3 = files m2)"
proof -
  let ?f = "spool_path s d"
  have m1: "files m1 = (files m)(?f \<mapsto> Reg [])" "ofiles m1 fd = Some ?f"
    using assms(1,2) by (auto simp: sys_open_write_def andThen_Ok_iff syscall_Ok_iff split: if_splits)
  have path: "formatted (PATH_MAX + 256) (s_dir s @ CHR ''/'' # d) = ?f" by (simp add: spool_path_def)
  obtain m2 where m2: "send_entry v d s m1 = Ok (True, s, m2)" "files m2 = (files m1)(?f := None)"
    "ofiles m2 = (ofiles m1)(fd2 := None)" "file_only m1 m2"
    using assms(3-7) m1
    by (simp add: path Let_def send_entry_def sys_stat_def send_file_def sys_open_read_def sys_mmap_def sys_unlink_def
        sys_close_file_def max_def file_only_def)
  have "files m3 = files m2" if "save_loop fd ?f data 0 m2 = Ok (True, m3)" for m3 data
    by (rule save_loop_unlinked [OF that]) (use m1(2) m2 assms(7) in simp_all)
  with m1(1) m2 show ?thesis by auto
qed

text \<open>The buffer 2 is saved in one go after the thread has been there.\<close>

theorem spool_read_race_witness:
  "\<exists>m1 m2 m3. sys_open_write ''/f'' (sample\<lparr>replies := [Ret 5, Ret 0, Ret 6, Err EINVAL, Ret 0, Ret 2]\<rparr>) = Ok (5, m1) \<and>
     send_entry insecure ''f'' sample_sender m1 = Ok (True, sample_sender, m2) \<and>
     save_loop 5 ''/f'' [1, 2] 0 m2 = Ok (True, m3) \<and> files m3 = Map.empty"
proof -
  let ?m = "sample\<lparr>replies := [Ret 5, Ret 0, Ret 6, Err EINVAL, Ret 0, Ret 2]\<rparr>"
  have p: "spool_path sample_sender ''f'' = ''/f''"
    by (simp add: spool_path_def sample_sender_def new_sender_def formatted_def PATH_MAX_def)
  obtain m1 where op: "sys_open_write (spool_path sample_sender ''f'') ?m = Ok (5, m1)"
    and rp: "replies m1 = [Ret 0, Ret 6, Err EINVAL, Ret 0] @ [Ret 2]"
    unfolding p by (simp add: sys_open_write_def sample_def)
  from spool_read_race [OF op _ _ _ rp, of insecure] obtain m2 where
    m2: "send_entry insecure ''f'' sample_sender m1 = Ok (True, sample_sender, m2)" "files m2 = Map.empty"
      "\<forall>m3 data. save_loop 5 ''/f'' data 0 m2 = Ok (True, m3) \<longrightarrow> files m3 = files m2"
    unfolding p by (auto simp: sample_def)
  moreover have "\<exists>m3. save_loop 5 ''/f'' [1, 2] 0 m2 = Ok (True, m3)"
    using op rp m2(1)
    by (auto simp: p sys_open_write_def sample_def send_entry_def sys_stat_def send_file_def sys_open_read_def
        sys_mmap_def sys_unlink_def sys_close_file_def save_loop.simps sys_write_def sample_sender_def
        new_sender_def formatted_def PATH_MAX_def append_file_def spool_path_def Let_def)
  ultimately show ?thesis using op unfolding p by metis
qed

end
