(* ===== verification/Overflow.thy ===== *)
theory Overflow
  imports History Spool_Names
begin

text \<open>
  A producer overfills the queue while the thread is at the end of the directory: the change of
  \<open>_M_state\<close> is lost. The run exists, with 10,001 empty buffers.
\<close>

section \<open>The lost change of state\<close>

context transport
begin

lemma overflow_lost:
  assumes "owns (Listed, s, m) ([], xs, ys)" and "inv s" and "to_give m s xs ys f zs l"
    and "10000 < length (xs @ zs)" and "saved f l s m"
  shows "\<exists>s1 m1 c. sys_step v (Listed, s, m) [Give zs, Spill] (Listed, s1, m1) \<and> s_state s1 = Sending_files \<and>
           stored (s_dir s) (tz m (s_now s)) (xs @ zs) m m1 \<and> sys_step v (Listed, s1, m1) [] c \<and>
           fst c = Check False \<and> s_state (obj c) = Sending_queued_buffers \<and> files (mach c) = files m1 \<and>
           (\<forall>es c'. reaches v c es c' \<and> Spill \<notin> set es \<longrightarrow>
              s_state (obj c') = Sending_queued_buffers \<and> \<not> in_directory (fst c') \<and> files (mach c') = files m1)"
proof -
  note ow = owns_facts [OF assms(1)]
  from give_pushes [OF ow(1) assms(3)] obtain q m0 where
    p: "push_back_chain f l (s_queue s) m = Ok (of_nat (length (xs @ zs)), q, m0)"
      "sender_ok m0 (s\<lparr>s_queue := q\<rparr>) (xs @ zs) ys" "relinked (set (zs @ header (s_queue s) # xs)) m m0" by blast
  note rl = relinked_fields [OF p(3)] relinked_view [OF p(3)]
  have small: "small_files m0" using ow(2) rl by (simp add: small_files_def)
  from assms(5) p(1) obtain s2 m1 where sv: "save_buffers (s\<lparr>s_queue := q\<rparr>) m0 = Ok (True, s2, m1)" "honest m1"
    by (auto elim!: saved_Ok)
  note sl = saves_ledger [OF p(2) small sv]
  let ?s1 = "s2\<lparr>s_state := Sending_files\<rparr>"
  have "send_buffers f l s m = Ok (?s1, m1)"
    using assms(4) queue_room [OF p(2)] p(1) sv(1) by (simp add: send_buffers_def Let_def)
  from sys_step.give [OF assms(1,3) _ _ this] assms(4,5)
  have give: "sys_step v (Listed, s, m) [Give zs, Spill] (Listed, ?s1, m1)" by simp
  have st: "stored (s_dir s) (tz m (s_now s)) (xs @ zs) m m1"
    using sl(10) stored_env [of m0 m "s_dir s" "tz m (s_now s)" "xs @ zs" m1] rl by simp
  let ?c = "(Check False, ?s1\<lparr>s_state := Sending_queued_buffers\<rparr>, sys_closedir m1)"
  have work: "sys_step v (Listed, ?s1, m1) [] ?c"
    using sys_step.work [of v Listed ?s1 m1] by simp
  have fl: "files (sys_closedir m1) = files m1" by (simp add: sys_closedir_def)
  from sys_step_ok [OF give assms(1)] assms(2) obtain L1 where
    1: "owns (Listed, ?s1, m1) L1" "sound [Give zs, Spill] (Listed, s, m) ([], xs, ys) (Listed, ?s1, m1)" by (auto simp del: owns.simps)
  note k1 = sound_keeps [OF 1(2), simplified]
  then have k: "inv (obj (Listed, ?s1, m1))" "online v (Listed, ?s1, m1)" by simp_all
  from sys_step_ok [OF work 1(1) k] obtain L2 where 2: "owns ?c L2" "sound [] (Listed, ?s1, m1) L1 ?c" by blast
  have "s_state (obj c') = Sending_queued_buffers \<and> \<not> in_directory (fst c') \<and> files (mach c') = files m1"
    if "reaches v ?c es c'" "Spill \<notin> set es" for es c'
    using reaches_stays [OF that 2(1)] sound_keeps [OF 2(2)] fl by simp
  then have "\<forall>es c'. reaches v ?c es c' \<and> Spill \<notin> set es \<longrightarrow>
      s_state (obj c') = Sending_queued_buffers \<and> \<not> in_directory (fst c') \<and> files (mach c') = files m1" by blast
  with give work st fl show ?thesis by (intro exI [of _ ?s1] exI [of _ m1] exI [of _ ?c]) simp
qed

end

text \<open>
  C16: the change of \<open>_M_state\<close> that \<open>send\<close> makes is lost when the thread has read the whole directory
  but not yet noted that it is done: the buffers of a full queue are in files, \<open>_M_state\<close> says
  \<open>sending_files\<close>, and the next step of the thread sets it back to \<open>sending_queued_buffers\<close>. From
  then on, whatever the thread and the producers do, nothing is sent from the directory
  until the queue overflows again or is saved at the end.
\<close>

theorem state_change_lost:
  assumes "owns (Listed, s, m) ([], xs, ys)" and "conn_inv enc s" and "to_give m s xs ys f zs l"
    and "10000 < length (xs @ zs)" and "saved f l s m"
  shows "\<exists>s1 m1 c. sys_step (vtable_of ctx enc) (Listed, s, m) [Give zs, Spill] (Listed, s1, m1) \<and>
           s_state s1 = Sending_files \<and> stored (s_dir s) (tz m (s_now s)) (xs @ zs) m m1 \<and>
           sys_step (vtable_of ctx enc) (Listed, s1, m1) [] c \<and>
           fst c = Check False \<and> s_state (obj c) = Sending_queued_buffers \<and> files (mach c) = files m1 \<and>
           (\<forall>es c'. reaches (vtable_of ctx enc) c es c' \<and> Spill \<notin> set es \<longrightarrow>
              s_state (obj c') = Sending_queued_buffers \<and> \<not> in_directory (fst c') \<and> files (mach c') = files m1)"
  by (rule conn.overflow_lost [OF assms])

section \<open>A queue of any length\<close>

text \<open>
  A ring of \<open>n\<close> buffers without data around the header 1, the address after them an unlinked one,
  and a file system that takes everything.
\<close>

definition big :: "nat \<Rightarrow> machine" where
  "big n = sample\<lparr>
     cells := (\<lambda>p. if 0 < p \<and> p \<le> n + 1
                 then Some \<lparr>buf_data = 0, buf_length = 0, buf_prev = (if p = 1 then n + 1 else p - 1),
                            buf_next = (if p = n + 1 then 1 else p + 1)\<rparr>
                 else if p = n + 2 then Some \<lparr>buf_data = 0, buf_length = 0, buf_prev = 0, buf_next = 0\<rparr>
                 else None),
     blocks := Map.empty, brk := n + 3, replies := concat (replicate (n + 1) [Ret 0, Ret 5])\<rparr>"

definition big_sender :: "nat \<Rightarrow> sender" where
  "big_sender n = new_sender new_allocator \<lparr>header = 1, count = of_nat n, q_locked = False\<rparr> [] Enc_no [] 0"

lemma big_chain:
  assumes "0 < k" and "k \<le> n + 1" shows "chain (cells (big n)) k [k..<n + 2] 1"
  using assms
proof (induction "n + 1 - k" arbitrary: k)
  case 0
  then have "k = n + 1" by simp
  then show ?case by (simp add: big_def)
next
  case (Suc i)
  then have k: "k \<le> n" "0 < k" by simp_all
  have "chain (cells (big n)) (k + 1) [k + 1..<n + 2] 1" by (rule Suc.hyps(1)) (use Suc.hyps(2) k in simp_all)
  moreover have "[k..<n + 2] = k # [k + 1..<n + 2]" using k by (simp add: upt_conv_Cons)
  moreover have "cells (big n) k = Some \<lparr>buf_data = 0, buf_length = 0,
      buf_prev = (if k = 1 then n + 1 else k - 1), buf_next = k + 1\<rparr>" using k by (simp add: big_def)
  ultimately show ?case by simp
qed

lemma big_view: "cells (big n) p \<noteq> None \<Longrightarrow> view p (big n) = Ok []"
  by (auto simp: big_def view_def load_def read_block_def split: if_splits)

lemma big_ok:
  assumes "n + 3 < 2 ^ 64"
  shows "sender_ok (big n) (big_sender n) [2..<n + 2] []" and "small_files (big n)"
    and "to_give (big n) (big_sender n) [2..<n + 2] [] (n + 2) [n + 2] (n + 2)"
proof -
  have hp: "heap_ok (big n)"
    by (auto simp: heap_ok_def addr_ok_def data_ok_def owner_ok_def big_def split: if_splits)
  have up: "1 # [2..<n + 2] = [1..<n + 2]" by (simp add: upt_conv_Cons numeral_2_eq_2)
  have live: "cells (big n) p \<noteq> None" if "p \<in> set [2..<n + 3]" for p using that by (auto simp: big_def)
  have "last [1..<n + 2] = n + 1" by simp
  moreover have "prevof (cells (big n)) 1 = Some (n + 1)" by (simp add: prevof_def big_def)
  ultimately have "ring (cells (big n)) 1 [2..<n + 2]"
    using big_chain [of 1 n] unfolding ring_def up by simp
  then have ql: "queue_list (big n) (s_queue (big_sender n)) [2..<n + 2]"
    by (simp add: queue_list_def big_sender_def new_sender_def del: upt_Suc)
  have send: "sendable (big n) xs" if "set xs \<subseteq> set [2..<n + 3]" for xs
    using big_view live that by (auto simp: sendable_def content_def)
  have "free_list (big n) (s_alloc (big_sender n)) []" "brk (big n) = n + 3"
    by (simp_all add: free_list_def big_sender_def new_sender_def new_allocator_def big_def)
  then show "sender_ok (big n) (big_sender n) [2..<n + 2] []"
    using hp assms ql send [of "[2..<n + 2]"] by (simp add: sender_ok_def queue_ok_def del: upt_Suc)
  show "small_files (big n)" by (simp add: small_files_def big_def sample_def)
  show "to_give (big n) (big_sender n) [2..<n + 2] [] (n + 2) [n + 2] (n + 2)"
    using send [of "[n + 2]"]
    by (auto simp: to_give_def own_chain_def nextof_def big_sender_def new_sender_def)
       (simp_all add: big_def)
qed

lemma big_saved:
  assumes "n < 10 ^ 6" shows "saved (n + 2) (n + 2) (big_sender n) (big n)"
proof -
  have n: "n + 3 < 2 ^ 64" using assms by simp
  note ok = big_ok [OF n]
  let ?xs = "[2..<n + 2] @ [n + 2]"
  from give_pushes [OF ok(1,3)] obtain q m where
    p: "push_back_chain (n + 2) (n + 2) (s_queue (big_sender n)) (big n) = Ok (of_nat (length ?xs), q, m)"
      "sender_ok m ((big_sender n)\<lparr>s_queue := q\<rparr>) ?xs []"
      "relinked (set ([n + 2] @ header (s_queue (big_sender n)) # [2..<n + 2])) (big n) m" "host_only (big n) m" by blast
  note rl = relinked_fields [OF p(3)] relinked_view [OF p(3)]
  have "content m r = []" if "r \<in> set ?xs" for r
  proof -
    have "cells (big n) r \<noteq> None" using that by (auto simp: big_def)
    with big_view rl show ?thesis by (simp add: content_def)
  qed
  then have "map (accepts m) ?xs = map (\<lambda>_. [Ret 0, Ret 5]) ?xs"
    unfolding accepts_def by (intro map_cong) simp_all
  also have "\<dots> = replicate (n + 1) [Ret 0, Ret 5]" by (simp add: map_replicate_const del: upt_Suc)
  finally have "replies m = concat (map (accepts m) ?xs) @ []" using rl by (simp add: big_def)
  moreover from p(4) obtain es where es: "trace m = es" "list_all host_event es"
    by (auto simp: host_only_def big_def sample_def)
  have "\<not> stat_call e" if "host_event e" for e using that by (cases e rule: host_event.cases) (simp_all add: stat_call_def)
  then have "honest m" using es by (auto simp: honest_def list_all_iff)
  moreover have "length (s_dir ((big_sender n)\<lparr>s_queue := q\<rparr>)) < PATH_MAX" "sane_tm (tz m (s_now ((big_sender n)\<lparr>s_queue := q\<rparr>)))"
    "\<forall>f. files m f = None"
    using rl by (simp_all add: big_sender_def new_sender_def PATH_MAX_def sane_tm_def big_def sample_def)
  moreover have "length ?xs \<le> 10 ^ 6" using assms by (simp del: upt_Suc)
  ultimately show ?thesis
    using save_buffers_accepted [OF p(2), of "[]"] p(1) by (auto simp: saved_def saves_def simp del: upt_Suc)
qed

text \<open>
  Two buffers go into a queue that has room for them; one more buffer overfills a queue of
  10,000, and 10,001 files are written.
\<close>

theorem send_buffers_correct_witness:
  "(\<exists>q m1. send_buffers 4 5 (sample_online\<lparr>s_alloc := new_allocator\<rparr>) sample =
       Ok (sample_online\<lparr>s_alloc := new_allocator, s_queue := q\<rparr>, m1) \<and>
     sender_ok m1 (sample_online\<lparr>s_alloc := new_allocator, s_queue := q\<rparr>) [2, 3, 4, 5] []) \<and>
   (\<exists>s2 m2. send_buffers 10002 10002 (big_sender 10000) (big 10000) = Ok (s2, m2) \<and> s_state s2 = Sending_files \<and>
     stored [] (tz (big 10000) 0) ([2..<10002] @ [10002]) (big 10000) m2 \<and>
     sender_ok m2 s2 [] (rev ([2..<10002] @ [10002])))"
proof
  show "\<exists>q m1. send_buffers 4 5 (sample_online\<lparr>s_alloc := new_allocator\<rparr>) sample =
       Ok (sample_online\<lparr>s_alloc := new_allocator, s_queue := q\<rparr>, m1) \<and>
     sender_ok m1 (sample_online\<lparr>s_alloc := new_allocator, s_queue := q\<rparr>) [2, 3, 4, 5] []"
    using send_buffers_correct [OF sample_to_give] by auto
  define n :: nat where "n = 10000"
  then have n: "\<not> n + 1 \<le> 10000" "n < 10 ^ 6" "n + 3 < 2 ^ 64" by simp_all
  let ?s = "big_sender n" and ?m = "big n" and ?xs = "[2..<n + 2] @ [n + 2]"
  note ok = big_ok [OF n(3)]
  have len: "length ?xs = n + 1" by (simp del: upt_Suc)
  from send_buffers_correct [OF ok(1,3), unfolded len if_not_P [OF n(1)]] obtain q m1 where
    p: "push_back_chain (n + 2) (n + 2) (s_queue ?s) ?m = Ok (of_nat (n + 1), q, m1)"
    and all: "\<And>s2 m2. save_buffers (?s\<lparr>s_queue := q\<rparr>) m1 = Ok (True, s2, m2) \<and> honest m2 \<Longrightarrow>
        send_buffers (n + 2) (n + 2) ?s ?m = Ok (s2\<lparr>s_state := Sending_files\<rparr>, m2) \<and>
        stored (s_dir ?s) (tz ?m (s_now ?s)) ?xs ?m m2 \<and>
        sender_ok m2 (s2\<lparr>s_state := Sending_files\<rparr>) [] (rev ?xs @ [])" by blast
  from big_saved [OF n(2)] p obtain s2 m2 where
    "save_buffers (?s\<lparr>s_queue := q\<rparr>) m1 = Ok (True, s2, m2) \<and> honest m2" by (auto elim!: saved_Ok)
  from all [OF this] have "\<exists>s2 m2. send_buffers (n + 2) (n + 2) ?s ?m = Ok (s2, m2) \<and> s_state s2 = Sending_files \<and>
      stored [] (tz ?m 0) ?xs ?m m2 \<and> sender_ok m2 s2 [] (rev ?xs)"
    by (intro exI [of _ "s2\<lparr>s_state := Sending_files\<rparr>"] exI [of _ m2])
       (simp add: big_sender_def new_sender_def del: upt_Suc)
  moreover have "n + 2 = 10002" by (simp add: n_def)
  ultimately show "\<exists>s2 m2. send_buffers 10002 10002 (big_sender 10000) (big 10000) = Ok (s2, m2) \<and> s_state s2 = Sending_files \<and>
     stored [] (tz (big 10000) 0) ([2..<10002] @ [10002]) (big 10000) m2 \<and>
     sender_ok m2 s2 [] (rev ([2..<10002] @ [10002]))" unfolding n_def [symmetric] by metis
qed

theorem state_change_lost_witness:
  "\<exists>s1 m1 c. sys_step insecure (Listed, big_sender 10000, big 10000) [Give [10002], Spill] (Listed, s1, m1) \<and>
     s_state s1 = Sending_files \<and> sys_step insecure (Listed, s1, m1) [] c \<and>
     s_state (obj c) = Sending_queued_buffers \<and> card {f. files (mach c) f \<noteq> None} = 10001"
proof -
  define n :: nat where "n = 10000"
  then have n: "10000 \<le> n" "n < 10 ^ 6" "n + 3 < 2 ^ 64" by simp_all
  note ok = big_ok [OF n(3)]
  let ?s = "big_sender n" and ?m = "big n" and ?xs = "[2..<n + 2] @ [n + 2]"
  have "owns (Listed, ?s, ?m) ([], [2..<n + 2], [])" using ok(1,2) by (simp del: upt_Suc)
  moreover have "conn_inv Enc_no ?s" by (simp add: plain_inv_def)
  moreover have "10000 < length ?xs" using n(1) by (simp del: upt_Suc)
  moreover have "saved (n + 2) (n + 2) ?s ?m" using big_saved n(2) by simp
  ultimately obtain s1 m1 c where
    r: "sys_step insecure (Listed, ?s, ?m) [Give [n + 2], Spill] (Listed, s1, m1)"
      "s_state s1 = Sending_files" "sys_step insecure (Listed, s1, m1) [] c"
      "s_state (obj c) = Sending_queued_buffers" "files (mach c) = files m1"
    and st: "stored (s_dir ?s) (tz ?m (s_now ?s)) ?xs ?m m1"
    using state_change_lost [OF _ _ ok(3), of Enc_no 0] unfolding vtable_of.simps by blast
  from st obtain fs where fs: "distinct fs" "list_all2 (\<lambda>p f. files ?m f = None \<and>
        (\<exists>data. view p ?m = Ok data \<and> files m1 f = Some (Reg data))) ?xs fs"
    "\<forall>g. g \<notin> set fs \<longrightarrow> files m1 g = files ?m g" unfolding stored_def by blast
  have "(files m1 f \<noteq> None) = (f \<in> set fs)" for f
  proof (cases "f \<in> set fs")
    case True
    then obtain i where "i < length fs" "f = fs ! i" by (auto simp: in_set_conv_nth)
    with list_all2_nthD2 [OF fs(2)] True show ?thesis by fastforce
  next
    case False
    with fs(3) show ?thesis by (simp add: big_def sample_def)
  qed
  then have "{f. files (mach c) f \<noteq> None} = set fs" unfolding r(5) by simp
  moreover have "length fs = n + 1" using list_all2_lengthD [OF fs(2)] by (simp del: upt_Suc)
  ultimately have "card {f. files (mach c) f \<noteq> None} = n + 1" using fs(1) distinct_card by metis
  moreover have "n + 1 = 10001" "n + 2 = 10002" by (simp_all add: n_def)
  ultimately show ?thesis using r unfolding n_def [symmetric] by metis
qed

end
