(* ===== verification/Stopping.thy ===== *)
theory Stopping
  imports Interleaving
begin

text \<open>
  The end of a sender's thread: once \<open>stop\<close> has cleared \<open>_M_running\<close>, the thread finishes the round
  it is in and comes to the final save of the queue, after finitely many steps.
\<close>

section \<open>A measure of the steps to the end\<close>

fun rank :: "thread \<Rightarrow> nat" where
  "rank (Begin e) = 8"
| "rank Ready = 7"
| "rank Popping = 6"
| "rank (Taken f l) = 5"
| "rank Connecting = 5"
| "rank Opening = 4"
| "rank (Holding f l) = 3"
| "rank (Sent f l) = 3"
| "rank Reading = 3"
| "rank (Entered d) = 3"
| "rank (Putback f l) = 2"
| "rank Listed = 2"
| "rank (Check e) = 1"
| "rank _ = 0"

text \<open>Within a place: the buffers that are still held, the answers that are left for the directory.\<close>

fun weight :: "conf \<Rightarrow> ledger \<Rightarrow> nat" where
  "weight (Holding f l, s, m) L = 2 * length (fst L) + 1"
| "weight (Sent f l, s, m) L = 2 * length (fst L)"
| "weight (Reading, s, m) L = 2 * length (replies m)"
| "weight (Entered d, s, m) L = 2 * length (replies m) + 1"
| "weight c L = 0"

definition closer :: "((conf \<times> ledger) \<times> (conf \<times> ledger)) set" where
  "closer = inv_image (less_than <*lex*> less_than) (\<lambda>(c, L). (rank (fst c), weight c L))"

lemma closer_iff:
  "((c', L'), (c, L)) \<in> closer \<longleftrightarrow>
     rank (fst c') < rank (fst c) \<or> rank (fst c') = rank (fst c) \<and> weight c' L' < weight c L"
  by (auto simp: closer_def)

lemma wf_closer: "wf closer"
  by (simp add: closer_def wf_lex_prod)

lemma sys_readdir_shorter: "sys_readdir m = Ok (e, m') \<Longrightarrow> length (replies m') < length (replies m)"
  by (auto simp: sys_readdir_def andThen_Ok_iff syscall_Ok_iff)

context transport
begin

text \<open>Every step of the thread comes closer to the end, unless it starts another round.\<close>

lemma step_closer:
  assumes "thread_step v (ph, s, m) = Ok (ph', s', m')" and "owns (ph, s, m) L" and "inv s"
    and "online v (ph, s, m)" and "ph \<noteq> Popping \<longrightarrow> effects (moved ph) L = Some L'" and "\<not> s_running s"
    and "ph \<noteq> Leaving" and "ph \<noteq> Finished"
  shows "(((ph', s', m'), L'), ((ph, s, m), L)) \<in> closer"
proof (cases ph)
  case Popping
  from assms(1) have "(\<exists>f l. ph' = Taken f l) \<or> ph' = Check False"
    by (auto simp: Popping andThen_Ok_iff Let_def split: if_splits prod.splits)
  with Popping show ?thesis by (auto simp: closer_iff)
next
  case (Sent f l)
  from assms(5) Sent obtain gs where "fst L = f # gs" "fst L' = gs" by (cases L; cases "fst L") (auto split: if_splits)
  moreover from assms(1) Sent have "ph' = Check False \<or> (\<exists>g. ph' = Holding g l)"
    by (auto simp: andThen_Ok_iff split: if_splits)
  ultimately show ?thesis using Sent by (auto simp: closer_iff)
next
  case (Holding f l)
  from assms(1) Holding have "ph' = Sent f l \<or> ph' = Putback f l" by (auto simp: andThen_Ok_iff split: if_splits)
  with Holding assms(5) show ?thesis by (auto simp: closer_iff)
next
  case Reading
  from assms(1) obtain e where "sys_readdir m = Ok (e, m')" "ph' = (case e of None \<Rightarrow> Listed | Some d \<Rightarrow> Entered d)"
    by (auto simp: Reading andThen_Ok_iff)
  with sys_readdir_shorter Reading show ?thesis by (fastforce simp: closer_iff split: option.splits)
next
  case (Entered d)
  have con: "v_connected v s" using assms(4) by (simp add: Entered)
  have "small_files m" using assms(2) by (cases L) simp
  note sp = send_entry_spec [OF assms(3) con this, of d]
  from assms(1) obtain ok m1 where "send_entry v d s m = Ok (ok, s', m1)"
    "(ph', m') = (if ok then (Reading, m1) else (Check True, sys_closedir m1))"
    by (auto simp: Entered andThen_Ok_iff split: if_splits)
  with wp_Ok [OF sp] Entered show ?thesis by (auto simp: closer_iff split: if_splits)
qed (use assms in \<open>auto simp: closer_iff andThen_Ok_iff split: if_splits\<close>)

end

section \<open>Stopping\<close>

text \<open>The thread is at the start of a round.\<close>

fun begins :: "thread \<Rightarrow> bool" where
  "begins (Begin e) = True"
| "begins _ = False"

lemma step_no_begin:
  "thread_step v (ph, s, m) = Ok (ph', s', m') \<Longrightarrow> \<not> s_running s \<Longrightarrow> \<not> begins ph'"
  by (cases ph) (auto simp: andThen_Ok_iff Let_def split: if_splits option.splits prod.splits)

text \<open>
  C10: \<open>stop\<close> is heard: when \<open>_M_running\<close> is clear, the thread finishes the round it is in and begins
  no other: after finitely many steps, none of which comes to the start of a round, it comes to the
  final save, from wherever it is in its round and whatever the peer, the kernel and the
  directory do, unless a call within this round never returns. No step on the way is undefined
  behaviour, provided that producers push only buffers of their own while the thread waits.
\<close>

theorem stop_heard:
  assumes "owns (ph, s, m) L" and "conn_inv enc s" and "online (vtable_of ctx enc) (ph, s, m)"
    and "\<not> s_running s" and "ph \<noteq> Finished"
    and "\<forall>n s' m'. thread_run n (vtable_of ctx enc) (ph, s, m) = Ok (Popping, s', m') \<longrightarrow>
           (\<exists>xs ys w zs. owns (Popping, s', m') ([], xs, ys) \<and> arrives m' s' xs ys w zs)"
  shows "\<exists>n. (\<forall>k < n. \<exists>ph' s' m'. thread_run k (vtable_of ctx enc) (ph, s, m) = Ok (ph', s', m') \<and>
                (0 < k \<longrightarrow> \<not> begins ph') \<and> ph' \<noteq> Leaving) \<and>
           (thread_run n (vtable_of ctx enc) (ph, s, m) = Blocked \<or>
            (\<exists>s' m' xs ys. thread_run n (vtable_of ctx enc) (ph, s, m) = Ok (Leaving, s', m') \<and>
               owns (Leaving, s', m') ([], xs, ys)))"
  using assms
proof (induction "((ph, s, m), L)" arbitrary: ph s m L rule: wf_induct_rule [OF wf_closer])
  case (1 ph s m L)
  let ?v = "vtable_of ctx enc" and ?c = "(ph, s, m)"
  show ?case
  proof (cases "ph = Leaving")
    case True
    obtain hs xs ys where "L = (hs, xs, ys)" by (cases L)
    with True 1(2) have "owns (Leaving, s, m) ([], xs, ys)" by simp
    moreover have "thread_run 0 ?v ?c = Ok (Leaving, s, m)" using True by simp
    ultimately show ?thesis by (intro exI [of _ 0]) blast
  next
    case False
    have pop: "\<exists>xs ys w zs. L = ([], xs, ys) \<and> arrives m s xs ys w zs" if "ph = Popping"
    proof -
      have "thread_run 0 ?v ?c = Ok (Popping, s, m)" using that by simp
      with 1(7) obtain xs ys w zs where "owns (Popping, s, m) ([], xs, ys)" "arrives m s xs ys w zs" by blast
      with 1(2) that owns_unique show ?thesis by blast
    qed
    have "thread_step ?v ?c \<noteq> Fault"
      by (rule conn.thread_step_safe [OF 1(2-4)]) (use pop False in auto)
    then consider "thread_step ?v ?c = Blocked" | c' where "thread_step ?v ?c = Ok c'"
      by (cases "thread_step ?v ?c") auto
    then show ?thesis
    proof cases
      case 1
      then have "thread_run (Suc 0) ?v ?c = Blocked" by simp
      then show ?thesis using False by (intro exI [of _ "Suc 0"]) auto
    next
      case (2 c')
      obtain ph' s' m' where c': "c' = (ph', s', m')" by (cases c')
      note st = 2 [unfolded c']
      have "\<exists>es. sys_step ?v ?c es c' \<and> (ph \<noteq> Popping \<longrightarrow> es = moved ph)"
      proof (cases "ph = Popping")
        case True
        with pop 1(2) 2 sys_step.pop show ?thesis by blast
      next
        case queue: False
        with sys_step.work [OF 2 queue False] show ?thesis by blast
      qed
      then obtain es where sy: "sys_step ?v ?c es c'" "ph \<noteq> Popping \<longrightarrow> es = moved ph" by blast
      have "conn_inv enc (obj ?c)" using 1(3) by simp
      from conn.sys_step_ok [OF sy(1) 1(2) this 1(4)] obtain L' where
        L': "effects es L = Some L'" "owns c' L'" "conn_inv enc s'" "online ?v c'"
        by (metis c' conn.sound_keeps(1,2) fst_conv snd_conv)
      have "((c', L'), (?c, L)) \<in> closer"
        unfolding c'
        by (rule conn.step_closer [OF st 1(2-4) _ 1(5) False 1(6)]) (use sy(2) L'(1) in blast)
      moreover have "\<not> s_running s'" using thread_step_running [OF st False] 1(5) by simp
      moreover have "ph' \<noteq> Finished"
        using st False 1(6) by (cases ph) (auto simp: andThen_Ok_iff Let_def split: if_splits option.splits prod.splits)
      moreover have "\<exists>xs ys w zs. owns (Popping, s2, m2) ([], xs, ys) \<and> arrives m2 s2 xs ys w zs"
        if "thread_run n ?v c' = Ok (Popping, s2, m2)" for n s2 m2
      proof -
        have "thread_run (Suc n) ?v ?c = Ok (Popping, s2, m2)" using that 2 by simp
        with 1(7) show ?thesis by blast
      qed
      ultimately obtain n where n: "\<forall>k < n. \<exists>ph' s' m'. thread_run k ?v c' = Ok (ph', s', m') \<and>
            (0 < k \<longrightarrow> \<not> begins ph') \<and> ph' \<noteq> Leaving"
          "thread_run n ?v c' = Blocked \<or>
            (\<exists>s' m' xs ys. thread_run n ?v c' = Ok (Leaving, s', m') \<and> owns (Leaving, s', m') ([], xs, ys))"
        using 1(1) [of ph' s' m' L'] L'(2-4) unfolding c' by blast
      have "\<exists>ph1 s1 m1. thread_run k ?v ?c = Ok (ph1, s1, m1) \<and> (0 < k \<longrightarrow> \<not> begins ph1) \<and> ph1 \<noteq> Leaving"
        if "k < Suc n" for k
      proof (cases k)
        case (Suc j)
        with that n(1) obtain ph1 s1 m1 where j: "thread_run j ?v c' = Ok (ph1, s1, m1)"
          "0 < j \<longrightarrow> \<not> begins ph1" "ph1 \<noteq> Leaving" by auto
        have "\<not> begins ph1"
          using j step_no_begin [OF st 1(5)] c' by (cases j) auto
        with j Suc 2 show ?thesis by simp
      qed (use False in simp)
      moreover have "thread_run (Suc n) ?v ?c = Blocked \<or> (\<exists>s' m' xs ys.
          thread_run (Suc n) ?v ?c = Ok (Leaving, s', m') \<and> owns (Leaving, s', m') ([], xs, ys))" using n(2) 2 by simp
      ultimately show ?thesis by blast
    qed
  qed
qed

text \<open>Past the pop, a thread that is told to stop does not come back to it.\<close>

fun late :: "thread \<Rightarrow> bool" where
  "late (Begin e) = False"
| "late Ready = False"
| "late Popping = False"
| "late _ = True"

lemma late_run:
  "thread_run n (vtable_of ctx enc) (ph, s, m) = Ok (ph', s', m') \<Longrightarrow>
     late ph \<and> (\<not> s_running s \<or> ph = Leaving \<or> ph = Finished) \<Longrightarrow> late ph'"
proof (induction n arbitrary: ph s m)
  case (Suc n)
  then obtain ph1 s1 m1 where st: "thread_step (vtable_of ctx enc) (ph, s, m) = Ok (ph1, s1, m1)"
    and rn: "thread_run n (vtable_of ctx enc) (ph1, s1, m1) = Ok (ph', s', m')"
    by (auto simp: andThen_Ok_iff)
  have "late ph1 \<and> (\<not> s_running s1 \<or> ph1 = Leaving \<or> ph1 = Finished)"
  proof (cases "ph = Leaving \<or> ph = Finished")
    case True
    with st have "ph1 = Finished" by (auto simp: andThen_Ok_iff)
    then show ?thesis by simp
  next
    case False
    with Suc.prems(2) have off: "\<not> s_running s" "late ph" by simp_all
    have "late ph1"
      using st off False by (cases ph) (auto simp: andThen_Ok_iff split: if_splits option.splits)
    moreover have "\<not> s_running s1" using thread_step_running [OF st] False off(1) by simp
    ultimately show ?thesis by blast
  qed
  with Suc.IH [OF rn] show ?case by blast
qed simp

text \<open>\<open>stop\<close> comes while the thread is about to send the first of two buffers.\<close>

lemma sample_holding:
  "owns (Holding 4 5, sample_online\<lparr>s_alloc := new_allocator\<rparr>, sample\<lparr>replies := rs\<rparr>) ([4, 5], [2, 3], [])"
proof -
  let ?s = "sample_online\<lparr>s_alloc := new_allocator\<rparr>" and ?m = "sample\<lparr>replies := rs\<rparr>"
  have "same_mem sample ?m" by (simp add: same_mem_def)
  note mem = same_mem_views(1,3,5,6,7) [OF this]
  have "view 5 ?m = Ok []" by (simp add: view_def load_def read_block_def sample_def)
  then have send: "sendable ?m [4, 5]" "sendable ?m [2, 3]" by (simp_all add: sendable_def content_def sample_views)
  have small: "small_files ?m" by (simp add: small_files_def sample_def)
  show ?thesis
    using sample_own_chain sample_queue_list sample_no_free_list send small sample_queue_ok
    by (simp add: mem sender_ok_def queue_ok_def)
qed

theorem stop_heard_witness:
  "\<exists>s' m' xs ys. thread_run 3 insecure (Holding 4 5, sample_online\<lparr>s_alloc := new_allocator\<rparr>,
         sample\<lparr>replies := [Bytes []]\<rparr>) = Ok (Leaving, s', m') \<and> owns (Leaving, s', m') ([], xs, ys)"
proof -
  let ?s = "sample_online\<lparr>s_alloc := new_allocator\<rparr>" and ?m = "sample\<lparr>replies := [Bytes []]\<rparr>"
  let ?run = "\<lambda>n. thread_run n insecure (Holding 4 5, ?s, ?m)"
  have off: "\<not> s_running ?s" by (simp add: sample_online_defs)
  have "conn_inv Enc_no ?s" "online (vtable_of 0 Enc_no) (Holding 4 5, ?s, ?m)"
    by (simp_all add: plain_inv_def)
  moreover have "ph \<noteq> Popping" if "thread_run n (vtable_of 0 Enc_no) (Holding 4 5, ?s, ?m) = Ok (ph, s', m')" for n ph s' m'
    using late_run [OF that] off by auto
  ultimately have "\<exists>n. (\<forall>k < n. \<exists>ph' s' m'. thread_run k (vtable_of 0 Enc_no) (Holding 4 5, ?s, ?m) = Ok (ph', s', m') \<and>
        (0 < k \<longrightarrow> \<not> begins ph') \<and> ph' \<noteq> Leaving) \<and>
      (thread_run n (vtable_of 0 Enc_no) (Holding 4 5, ?s, ?m) = Blocked \<or>
       (\<exists>s' m' xs ys. thread_run n (vtable_of 0 Enc_no) (Holding 4 5, ?s, ?m) = Ok (Leaving, s', m') \<and>
          owns (Leaving, s', m') ([], xs, ys)))"
    by (intro stop_heard [OF sample_holding _ _ off]) (blast | simp)+
  then obtain n where n: "\<And>k. k < n \<Longrightarrow> \<exists>ph' s' m'. ?run k = Ok (ph', s', m') \<and> ph' \<noteq> Leaving"
    "?run n = Blocked \<or> (\<exists>s' m' xs ys. ?run n = Ok (Leaving, s', m') \<and> owns (Leaving, s', m') ([], xs, ys))"
    unfolding vtable_of.simps by blast
  have loop: "distance_loop (numeral k) a b c m = (if a \<noteq> b then
      andThen (get_next a m) (\<lambda>a. distance_loop (pred_numeral k) a b (c + 1) m) else Ok c)" for k a b c m
    by (simp add: numeral_eq_Suc)
  obtain s1 m1 s2 m2 where
    st: "thread_step insecure (Holding 4 5, ?s, ?m) = Ok (Putback 4 5, s1, m1)"
      "thread_step insecure (Putback 4 5, s1, m1) = Ok (Check True, s2, m2)" and off2: "\<not> s_running s2"
    by (simp cong: andThen_weak_cong add: send_run_simps sample_online_defs new_allocator_def disconnect_insecure_def
        sock_close_def sys_close_def push_front_chain_def distance_def loop Let_def cond_signal_def)
  have run: "?run 1 = Ok (Putback 4 5, s1, m1)" "?run 2 = Ok (Check True, s2, m2)" "?run 3 = Ok (Leaving, s2, m2)"
    using st off2 by (simp_all add: numeral_2_eq_2 numeral_3_eq_3 del: thread_step.simps)
       (simp_all add: thread_step.simps)
  have "n = 3"
  proof (rule ccontr)
    assume "n \<noteq> 3"
    then consider "n = 0" | "n = 1" | "n = 2" | "3 < n" by linarith
    then show False
    proof cases
      case 4
      from n(1) [OF this] run show False by auto
    qed (use n(2) run in auto)
  qed
  with n(2) run show ?thesis by auto
qed

end
