(* ===== verification/Delivery.thy ===== *)
theory Delivery
  imports Producers Spool_Names
begin

text \<open>
  Progress: a peer that takes what it is sent gets the whole queue, and the whole directory, in one
  round. The answers of such a peer are parameters of a locale, instantiated for plain and TLS
  connections.
\<close>

section \<open>A peer that takes everything\<close>

text \<open>The entries of a directory that are neither the directory itself nor its parent.\<close>

definition real_entry :: "string \<Rightarrow> bool" where
  "real_entry d \<longleftrightarrow> d \<noteq> ''.'' \<and> d \<noteq> ''..''"

text \<open>
  An entry of the directory that the kernel lets the sender read and remove: \<open>stat\<close>, \<open>open\<close> and
  \<open>mmap\<close> succeed, the peer takes the bytes, and \<open>unlink\<close> succeeds. An empty file is not mapped.
\<close>

definition entry_answers :: "reply list \<Rightarrow> (byte list \<Rightarrow> reply list) \<Rightarrow> byte list \<Rightarrow> reply list" where
  "entry_answers opens sends bs = [Ret 0, Ret 5, Ret 0] @ (if bs = [] then [] else opens @ sends bs) @ [Ret 0]"

text \<open>The answers to \<open>readdir\<close> and to what the thread does with an entry.\<close>

definition dir_answers ::
    "reply list \<Rightarrow> (byte list \<Rightarrow> reply list) \<Rightarrow> sender \<Rightarrow> machine \<Rightarrow> string \<Rightarrow> reply list" where
  "dir_answers opens sends s m d =
     Entry d # (if real_entry d then entry_answers opens sends (spool_bytes m (spool_path s d)) else [])"

text \<open>
  A transport with the answers of a peer that takes what it is sent: those to the question
  whether it has closed the connection, and those to a send of some bytes.
\<close>

locale taker = transport +
  fixes open_answers :: "reply list" and send_answers :: "byte list \<Rightarrow> reply list"
    and can_send :: "byte list \<Rightarrow> bool"
  assumes closed_taken:
      "inv s \<Longrightarrow> v_connected v s \<Longrightarrow> replies m = open_answers @ rs \<Longrightarrow>
         \<exists>m'. v_closed v s m = Ok (False, m') \<and> replies m' = rs"
    and send_taken:
      "inv s \<Longrightarrow> v_connected v s \<Longrightarrow> can_send b \<Longrightarrow> length b < 2 ^ 31 \<Longrightarrow> replies m = send_answers b @ rs \<Longrightarrow>
         \<exists>m'. v_send v b s m = Ok (True, m') \<and> replies m' = rs"
begin

definition takes :: "machine \<Rightarrow> ptr \<Rightarrow> reply list" where
  "takes m p = open_answers @ send_answers (content m p)"

lemma takes_cong: "content m' = content m \<Longrightarrow> takes m' = takes m"
  by (simp add: takes_def fun_eq_iff)

lemma sender_send_taken:
  assumes "inv s" and "v_connected v s" and "can_send b" and "length b < 2 ^ 31"
    and "replies m = (open_answers @ send_answers b) @ rs"
  shows "\<exists>m'. sender_send v b s m = Ok (True, s\<lparr>s_last := s_now s\<rparr>, m') \<and> replies m' = rs"
proof -
  let ?s = "s\<lparr>s_last := s_now s\<rparr>"
  have s: "inv ?s" "v_connected v ?s" using assms(1,2) by simp_all
  from closed_taken [OF s, of m "send_answers b @ rs"] assms(5) obtain m1 where
    1: "v_closed v ?s m = Ok (False, m1)" "replies m1 = send_answers b @ rs" by auto
  from send_taken [OF s assms(3,4) 1(2)] obtain m' where "v_send v b ?s m1 = Ok (True, m')" "replies m' = rs"
    by blast
  with 1(1) show ?thesis by (simp add: sender_send_def Let_def)
qed

lemma send_queue_loop_taken:
  assumes "to_send m s first xs final ws ys" and "inv s" and "v_connected v s" and "\<forall>p \<in> set xs. can_send (content m p)"
    and "replies m = concat (map (takes m) xs) @ rs"
  shows "\<exists>s' m'. send_queue_loop (length xs) v first final s m = Ok (False, s', m') \<and> replies m' = rs"
  using assms
proof (induction xs arbitrary: first s m ys)
  case (Cons x xs)
  from to_send_put [OF Cons.prems(1)] have first: "first = x" by blast
  have v: "view x m = Ok (content m x)" "length (content m x) < 2 ^ 31"
    using Cons.prems(1) by (simp_all add: to_send_def sendable_def)
  let ?s = "s\<lparr>s_last := s_now s\<rparr>"
  have "replies m = (open_answers @ send_answers (content m x)) @ concat (map (takes m) xs) @ rs"
    using Cons.prems(5) by (simp add: takes_def [of m x])
  from sender_send_taken [OF Cons.prems(2,3) _ v(2) this] Cons.prems(4) obtain m1 where m1: "sender_send v (content m x) s m = Ok (True, ?s, m1)"
    "replies m1 = concat (map (takes m) xs) @ rs" by auto
  from wp_Ok [OF send_spec [OF Cons.prems(2,3) v(2)] m1(1)] have und: "undisturbed m m1" "conn_only s ?s"
    by simp_all
  note ts = to_send_undisturbed [OF Cons.prems(1) und]
  from to_send_put [OF ts] obtain a m2 where
    put: "sender_put first ?s m1 = Ok (?s\<lparr>s_alloc := a\<rparr>, m2)" "relinked {x} m1 m2" "x = final \<longleftrightarrow> xs = []"
    and more: "xs \<noteq> [] \<longrightarrow> get_next first m1 = Ok (hd xs) \<and>
      to_send m2 (?s\<lparr>s_alloc := a\<rparr>) (hd xs) xs final ws (x # ys)" by blast
  note rl = relinked_fields [OF put(2)]
  show ?case
  proof (cases "xs = []")
    case True
    with put v(1) m1 first rl show ?thesis by simp
  next
    case False
    have "view p m2 = view p m" for p
      using relinked_view [OF put(2)] und(1) view_same_mem [of m m1] by (simp add: undisturbed_def)
    then have same: "content m2 = content m" by (intro content_cong) simp
    then have "takes m2 = takes m" by (rule takes_cong)
    then have rp: "replies m2 = concat (map (takes m2) xs) @ rs"
      using m1(2) relinked_fields [OF put(2)] by presburger
    have con: "inv (?s\<lparr>s_alloc := a\<rparr>)" "v_connected v (?s\<lparr>s_alloc := a\<rparr>)" using Cons.prems(2,3) by simp_all
    have can: "\<forall>p \<in> set xs. can_send (content m2 p)" using Cons.prems(4) same by simp
    from more False have "to_send m2 (?s\<lparr>s_alloc := a\<rparr>) (hd xs) xs final ws (x # ys)" by blast
    from Cons.IH [OF this con can rp] obtain s' m' where
      "send_queue_loop (length xs) v (hd xs) final (?s\<lparr>s_alloc := a\<rparr>) m2 = Ok (False, s', m')" "replies m' = rs"
      by blast
    moreover from more False have "get_next first m1 = Ok (hd xs)" by blast
    moreover have "first \<noteq> final" using put(3) False first by blast
    ultimately show ?thesis using put(1) v(1) m1(1) by (simp add: first [symmetric])
  qed
qed (simp add: to_send_def own_chain_def)

lemma queue_taken:
  assumes "sender_ok m s xs ys" and "xs \<noteq> []" and "inv s" and "v_connected v s"
    and "\<forall>p \<in> set xs. can_send (content m p)" and "replies m = concat (map (takes m) xs) @ rs"
  shows "\<exists>s' m'. send_queued v s m = Ok (False, s', m') \<and> replies m' = rs \<and>
           sender_ok m' s' [] (rev xs @ ys) \<and> v_connected v s' \<and> files m' = files m \<and> s_state s' = s_state s \<and>
           out s m' = out s m @ concat (map (content m) xs)"
proof -
  have ar: "arrives m s xs ys True xs" using assms(2) by (simp add: arrives_def)
  from arrives_taken [OF assms(1) ar] obtain n f l q m1 where
    pop: "pop_all_timed (of_nat (sleep_interval div 1000)) (s_queue s) m = Ok (n, f, l, q, m1)"
    and tk: "taken s xs ys m (n, f, l, q, m1)" by (metis prod_cases5)
  let ?s = "s\<lparr>s_queue := q\<rparr>"
  from tk obtain A where t: "0 < n" "to_send m1 ?s f xs l [] ys" "shuffled A m m1" by (auto simp: taken_def)
  have same: "content m1 = content m" by (rule content_cong) (use shuffled_view [OF t(3)] in simp)
  have ql: "queue_list m (s_queue s) xs" using assms(1) by (simp add: sender_ok_def)
  moreover have "replies m1 = replies m"
    using pop timed_pop_immediate [OF ql assms(2)] pop_all_Cons [OF ql assms(2)] relinked_fields by auto
  ultimately have rp: "replies m1 = concat (map (takes m1) xs) @ rs" using assms(6) takes_cong [OF same] by simp
  have con: "inv ?s" "v_connected v ?s" using assms(3,4) by simp_all
  have can: "\<forall>p \<in> set xs. can_send (content m1 p)" using assms(5) same by simp
  from send_queue_loop_taken [OF t(2) con can rp] obtain s' m' where
    lp: "send_queue_loop (length xs) v f l ?s m1 = Ok (False, s', m')" "replies m' = rs" by blast
  have len: "length xs \<le> brk m1"
  proof -
    have own: "own_chain m1 (s_queue ?s) [] f xs l" and ok: "heap_ok m1" using t(2) by (simp_all add: to_send_def)
    obtain zs r where "xs = zs @ [l]" "chain (cells m1) f (zs @ [l]) r" "distinct (zs @ [l])"
      using own_chain_split [OF own] by metis
    with chain_length [OF ok] show ?thesis by (metis less_imp_le)
  qed
  have "send_queue_loop (brk m1) v f l ?s m1 = Ok (False, s', m')"
    using send_queue_loop_fuel [OF con t(2) len] lp(1) by simp
  with pop t(1) con have run: "send_queued v s m = Ok (False, s', m')"
    by (simp add: send_queued_def Let_def sender_connect_def)
  have "queue_ok m" using assms(1) by (simp add: sender_ok_def)
  then have "wp (send_queued v s m) (\<lambda>(err, s', m'). \<exists>k \<le> length xs.
      sender_ok m' s' (drop k xs) (rev (take k xs) @ ys) \<and> (err \<longleftrightarrow> k < length xs) \<and>
      v_connected v s' = (\<not> err) \<and> files m' = files m \<and> s_state s' = s_state s \<and>
      handed_over m xs k (out s m) (out s m'))"
    using assms(4)
    by (intro wp_mono [OF send_queued_taken [OF assms(3) _ tk pop]]) (auto 0 4)
  from wp_Ok [OF this run] obtain k where
    "k \<le> length xs" "\<not> k < length xs" "sender_ok m' s' (drop k xs) (rev (take k xs) @ ys)"
    "v_connected v s'" "files m' = files m" "s_state s' = s_state s" "handed_over m xs k (out s m) (out s m')" by auto
  then show ?thesis using run lp(2) by (auto simp: handed_over_def)
qed

lemma send_entry_taken:
  assumes "inv s" and "v_connected v s" and "d \<noteq> ''.''" and "d \<noteq> ''..''" and "files m (spool_path s d) = Some (Reg bs)"
    and "length bs < 2 ^ 31" and "bs \<noteq> [] \<longrightarrow> can_send bs" and "replies m = entry_answers open_answers send_answers bs @ rs"
  shows "\<exists>t m'. send_entry v d s m = Ok (True, s\<lparr>s_last := t\<rparr>, m') \<and> replies m' = rs \<and>
           files m' = (files m)(spool_path s d := None) \<and> out s m' = out s m @ bs"
proof -
  let ?f = "spool_path s d"
  let ?fd = "\<lambda>c r m. m\<lparr>replies := tl (replies m), trace := trace m @ [(File c, r)]\<rparr>"
  define m1 where "m1 = ?fd (C_stat ?f) (Ret 0) m"
  define m2 where "m2 = (?fd (C_open_read ?f) (Ret 5) m1)\<lparr>ofiles := (ofiles m1)(5 \<mapsto> ?f)\<rparr>"
  define m3 where "m3 = ?fd (C_mmap 5 (length bs)) (Ret 0) m2"
  have 1: "sys_stat ?f m = Ok (Some (Reg bs), m1)"
    using assms(5,8) by (simp add: sys_stat_def m1_def entry_answers_def)
  have 2: "sys_open_read ?f m1 = Ok (5, m2)"
    using assms(5,8) by (simp add: sys_open_read_def m1_def m2_def entry_answers_def max_def)
  have 3: "sys_mmap 5 (length bs) m2 = Ok (if bs = [] then None else Some bs, m3)"
    using assms(5,8) by (simp add: sys_mmap_def m1_def m2_def m3_def entry_answers_def)
  have fo: "file_only m m3" by (simp add: m1_def m2_def m3_def file_only_def)
  have m3: "files m3 = files m" "replies m3 = (if bs = [] then [] else open_answers @ send_answers bs) @ Ret 0 # rs"
    using assms(8) by (simp_all add: m1_def m2_def m3_def entry_answers_def)
  have path: "formatted (PATH_MAX + 256) (s_dir s @ CHR ''/'' # d) = ?f" by (simp add: spool_path_def)
  note run = send_entry_def send_file_def Let_def path 1 2 3
  show ?thesis
  proof (cases "bs = []")
    case True
    let ?m4 = "sys_close_file 5 m3"
    let ?m5 = "(?fd (C_unlink ?f) (Ret 0) ?m4)\<lparr>files := (files ?m4)(?f := None)\<rparr>"
    have "sys_unlink ?f ?m4 = Ok ?m5" using m3 True by (simp add: sys_unlink_def sys_close_file_def)
    moreover have "sys_mmap 5 0 m2 = Ok (None, m3)" using 3 True by simp
    ultimately have "send_entry v d s m = Ok (True, s\<lparr>s_last := s_last s\<rparr>, ?m5)"
      using assms(3,4) True by (simp add: run)
    moreover have "file_only m3 ?m5" by (simp add: file_only_def sys_close_file_def)
    ultimately show ?thesis
      using file_law [OF fo] file_law [of m3 ?m5] True m3
      by (intro exI [of _ "s_last s"] exI [of _ ?m5]) (simp add: sys_close_file_def)
  next
    case False
    let ?s = "s\<lparr>s_last := s_now s\<rparr>"
    from sender_send_taken [OF assms(1,2) _ assms(6), of m3 "Ret 0 # rs"] assms(7) m3(2) False
    obtain m4 where 4: "sender_send v bs s m3 = Ok (True, ?s, m4)" "replies m4 = Ret 0 # rs" by auto
    from wp_Ok [OF send_spec [OF assms(1,2,6)] 4(1)] have o: "out s m4 = out s m3 @ bs" "files m4 = files m3"
      by (auto simp: undisturbed_def)
    let ?m5 = "sys_close_file 5 (sys_munmap (length bs) m4)"
    let ?m6 = "(?fd (C_unlink ?f) (Ret 0) ?m5)\<lparr>files := (files ?m5)(?f := None)\<rparr>"
    have "sys_unlink ?f ?m5 = Ok ?m6" using 4(2) by (simp add: sys_unlink_def sys_close_file_def sys_munmap_def)
    then have "send_entry v d s m = Ok (True, ?s, ?m6)" using assms(3,4) False 4(1) by (simp add: run)
    moreover have "file_only m4 ?m6" by (simp add: file_only_def sys_close_file_def sys_munmap_def)
    ultimately show ?thesis
      using file_law [OF fo] file_law [of m4 ?m6] m3 o 4(2)
      by (intro exI [of _ "s_now s"] exI [of _ ?m6]) (simp add: sys_close_file_def sys_munmap_def)
  qed
qed

abbreviation answers :: "sender \<Rightarrow> machine \<Rightarrow> string \<Rightarrow> reply list" where
  "answers \<equiv> dir_answers open_answers send_answers"

lemma send_files_loop_taken:
  assumes "inv s" and "v_connected v s" and "small_files m" and "length ds < fuel"
    and "\<forall>d \<in> set (filter real_entry ds). \<exists>bs. files m (spool_path s d) = Some (Reg bs) \<and> (bs \<noteq> [] \<longrightarrow> can_send bs)"
    and "distinct (map (spool_path s) (filter real_entry ds))"
    and "replies m = concat (map (answers s m) ds) @ Ret 0 # rs"
  shows "\<exists>t m'. send_files_loop fuel v s m = Ok (True, s\<lparr>s_last := t, s_state := Sending_queued_buffers\<rparr>, m') \<and>
           replies m' = rs \<and> files m' = files m |` (- set (map (spool_path s) (filter real_entry ds))) \<and>
           out s m' = out s m @ concat (map (\<lambda>d. spool_bytes m (spool_path s d)) (filter real_entry ds))"
  using assms
proof (induction ds arbitrary: s m fuel)
  case Nil
  then obtain k where "fuel = Suc k" by (cases fuel) auto
  let ?m = "m\<lparr>replies := rs, trace := trace m @ [(File C_readdir, Ret 0)]\<rparr>"
  have "sys_readdir m = Ok (None, ?m)" using Nil by (simp add: sys_readdir_def)
  moreover have "file_only m (sys_closedir ?m)" by (simp add: file_only_def sys_closedir_def)
  from file_law [OF this] have "out s (sys_closedir ?m) = out s m" by blast
  ultimately show ?case
    using \<open>fuel = Suc k\<close> by (intro exI [of _ "s_last s"] exI [of _ "sys_closedir ?m"]) (simp add: sys_closedir_def)
next
  case (Cons d ds)
  then obtain k where k: "fuel = Suc k" "length ds < k" by (cases fuel) auto
  define rest where "rest = concat (map (answers s m) ds) @ Ret 0 # rs"
  let ?bs = "spool_bytes m (spool_path s d)"
  define m1 where "m1 = m\<lparr>replies := (if real_entry d then entry_answers open_answers send_answers ?bs else []) @ rest,
    trace := trace m @ [(File C_readdir, Entry d)]\<rparr>"
  have rd: "sys_readdir m = Ok (Some d, m1)"
    using Cons.prems(7) by (simp add: sys_readdir_def m1_def rest_def dir_answers_def [of _ _ s m d])
  have "file_only m m1" by (simp add: file_only_def m1_def)
  from file_law [OF this] have o1: "out s m1 = out s m" by blast
  have f1: "files m1 = files m" by (simp add: m1_def)
  obtain t m2 where e: "send_entry v d s m1 = Ok (True, s\<lparr>s_last := t\<rparr>, m2)" "replies m2 = rest"
    "files m2 = (if real_entry d then (files m)(spool_path s d := None) else files m)"
    "out s m2 = out s m @ (if real_entry d then ?bs else [])"
  proof (cases "real_entry d")
    case True
    with Cons.prems(5) obtain bs where bs: "files m1 (spool_path s d) = Some (Reg bs)" "bs \<noteq> [] \<longrightarrow> can_send bs"
      by (auto simp: f1)
    then have b: "?bs = bs" by (simp add: spool_bytes_def f1)
    have d: "d \<noteq> ''.''" "d \<noteq> ''..''" using True by (simp_all add: real_entry_def)
    have "length bs < 2 ^ 31" using Cons.prems(3) bs(1) by (auto simp: small_files_def f1)
    moreover have "replies m1 = entry_answers open_answers send_answers bs @ rest" using True by (simp add: m1_def b)
    ultimately obtain t m2 where "send_entry v d s m1 = Ok (True, s\<lparr>s_last := t\<rparr>, m2)" "replies m2 = rest"
      "files m2 = (files m1)(spool_path s d := None)" "out s m2 = out s m1 @ bs"
      using send_entry_taken [OF Cons.prems(1,2) d bs(1) _ bs(2)] by blast
    with True show ?thesis by (intro that) (simp_all add: b f1 o1)
  next
    case False
    then have "send_entry v d s m1 = Ok (True, s\<lparr>s_last := s_last s\<rparr>, m1)"
      by (auto simp: send_entry_def real_entry_def)
    with False o1 f1 show ?thesis by (intro that [of "s_last s" m1]) (simp_all add: m1_def)
  qed
  let ?s = "s\<lparr>s_last := t\<rparr>"
  have path: "spool_path ?s = spool_path s" by (simp add: spool_path_def fun_eq_iff)
  have same: "files m2 (spool_path ?s c) = files m (spool_path s c)" if "c \<in> set (filter real_entry ds)" for c
  proof -
    have "real_entry d \<longrightarrow> spool_path s d \<notin> spool_path s ` set (filter real_entry ds)" using Cons.prems(6)
      by (cases "real_entry d") auto
    with that have "real_entry d \<longrightarrow> spool_path s c \<noteq> spool_path s d" by (metis imageI)
    then show ?thesis by (simp add: e(3) path)
  qed
  then have bytes: "spool_bytes m2 (spool_path ?s c) = spool_bytes m (spool_path s c)"
    if "c \<in> set (filter real_entry ds)" for c using that by (simp add: spool_bytes_def)
  have "answers ?s m2 c = answers s m c" if "c \<in> set ds" for c
    using bytes [of c] that by (simp add: dir_answers_def)
  then have "map (answers ?s m2) ds = map (answers s m) ds"
    by (intro map_cong refl)
  then have rp: "replies m2 = concat (map (answers ?s m2) ds) @ Ret 0 # rs" using e(2) unfolding rest_def by metis
  have small: "small_files m2" using Cons.prems(3) e(3) by (auto simp: small_files_def split: if_splits)
  have reg: "\<forall>c \<in> set (filter real_entry ds). \<exists>bs. files m2 (spool_path ?s c) = Some (Reg bs) \<and> (bs \<noteq> [] \<longrightarrow> can_send bs)"
    using same Cons.prems(5) by auto
  have "distinct (map (spool_path ?s) (filter real_entry ds))"
    using Cons.prems(6) by (auto simp: path split: if_splits)
  from Cons.IH [OF _ _ small k(2) reg this rp] Cons.prems(1,2) obtain t' m' where
    l: "send_files_loop k v ?s m2 = Ok (True, ?s\<lparr>s_last := t', s_state := Sending_queued_buffers\<rparr>, m')"
      "replies m' = rs" "files m' = files m2 |` (- set (map (spool_path s) (filter real_entry ds)))"
      "out s m' = out s m2 @ concat (map (\<lambda>c. spool_bytes m2 (spool_path ?s c)) (filter real_entry ds))"
    by (auto simp: path)
  have "map (\<lambda>c. spool_bytes m2 (spool_path ?s c)) (filter real_entry ds) =
      map (\<lambda>c. spool_bytes m (spool_path s c)) (filter real_entry ds)" using bytes by (intro map_cong refl)
  from l(4) [unfolded this] have "out s m' = out s m @ concat (map (\<lambda>c. spool_bytes m (spool_path s c)) (filter real_entry (d # ds)))"
    using e(4) by simp
  moreover have "files m' = files m |` (- set (map (spool_path s) (filter real_entry (d # ds))))"
    using l(3) e(3) by (auto simp: restrict_map_def fun_eq_iff)
  ultimately show ?case
    using rd e(1) l(1,2) k(1) by (intro exI [of _ t'] exI [of _ m']) simp
qed

lemma send_files_taken:
  assumes "inv s" and "v_connected v s" and "small_files m"
    and "\<forall>d \<in> set (filter real_entry ds). \<exists>bs. files m (spool_path s d) = Some (Reg bs) \<and> (bs \<noteq> [] \<longrightarrow> can_send bs)"
    and "distinct (map (spool_path s) (filter real_entry ds))"
    and "replies m = Ret 0 # concat (map (answers s m) ds) @ Ret 0 # rs"
  shows "\<exists>t m'. send_files v s m = Ok (True, s\<lparr>s_last := t, s_state := Sending_queued_buffers\<rparr>, m') \<and>
           replies m' = rs \<and> files m' = files m |` (- set (map (spool_path s) (filter real_entry ds))) \<and>
           out s m' = out s m @ concat (map (\<lambda>d. spool_bytes m (spool_path s d)) (filter real_entry ds))"
proof -
  define m1 where "m1 = m\<lparr>replies := tl (replies m), trace := trace m @ [(File (C_opendir (s_dir s)), Ret 0)]\<rparr>"
  have op: "sys_opendir (s_dir s) m = Ok (True, m1)" using assms(6) by (simp add: sys_opendir_def m1_def)
  have "file_only m m1" by (simp add: file_only_def m1_def)
  from file_law [OF this] have o: "out s m1 = out s m" by blast
  have fl: "files m1 = files m" by (simp add: m1_def)
  then have same: "spool_bytes m1 = spool_bytes m" by (simp add: spool_bytes_def fun_eq_iff)
  then have "answers s m1 = answers s m" by (simp add: dir_answers_def fun_eq_iff)
  then have rp: "replies m1 = concat (map (answers s m1) ds) @ Ret 0 # rs" using assms(6) by (simp add: m1_def)
  have "length (concat (map (answers s m1) ds)) \<ge> length ds"
    by (induction ds) (simp_all add: dir_answers_def)
  then have fuel: "length ds < length (replies m1) + 1" using rp by simp
  have "small_files m1" using assms(3) by (simp add: small_files_def fl)
  from send_files_loop_taken [OF assms(1,2) this fuel _ assms(5) rp] assms(4) obtain t m' where
    "send_files_loop (length (replies m1) + 1) v s m1 =
       Ok (True, s\<lparr>s_last := t, s_state := Sending_queued_buffers\<rparr>, m')"
    "replies m' = rs" "files m' = files m |` (- set (map (spool_path s) (filter real_entry ds)))"
    "out s m' = out s m @ concat (map (\<lambda>d. spool_bytes m (spool_path s d)) (filter real_entry ds))"
    unfolding fl same o by blast
  with op assms(2) show ?thesis
    by (intro exI [of _ t] exI [of _ m']) (simp add: send_files_def sender_connect_def del: send_files_loop.simps)
qed

text \<open>A round that starts without an error reads the clock first.\<close>

lemma run_round_clock:
  assumes "replies m = Ret t # rs"
  shows "run_round v False s m =
     (let s = s\<lparr>s_now := t\<rparr>; m = m\<lparr>replies := rs, trace := trace m @ [(Host C_time, Ret t)]\<rparr> in
      if s_state s = Sending_queued_buffers then send_queued v s m
      else andThen (send_files v s m) (\<lambda>(ok, s, m). Ok (\<not> ok, s, m)))"
  using assms by (simp add: run_round_def reconnect_def sys_time_def Let_def)

text \<open>The thread sends the directory, then the queue, and ends when it is told to stop.\<close>

lemma run_taken:
  assumes "sender_ok m s xs ys" and "xs \<noteq> []" and "inv s" and "v_connected v s" and "s_state s = Sending_files"
    and "small_files m" and "\<forall>p \<in> set xs. can_send (content m p)"
    and "\<forall>d \<in> set (filter real_entry ds). \<exists>bs. files m (spool_path s d) = Some (Reg bs) \<and> (bs \<noteq> [] \<longrightarrow> can_send bs)"
    and "distinct (map (spool_path s) (filter real_entry ds))"
    and "replies m = Ret t1 # Ret 0 # concat (map (answers s m) ds) @ Ret 0 # Ret t2 # concat (map (takes m) xs) @ rs"
  shows "\<exists>s' m'. sender_run [True, False] v s m = Ok (s', m') \<and> replies m' = rs \<and>
           sender_ok m' s' [] (rev xs @ ys) \<and>
           files m' = files m |` (- set (map (spool_path s) (filter real_entry ds))) \<and>
           out s m' = out s m @ concat (map (\<lambda>d. spool_bytes m (spool_path s d)) (filter real_entry ds)) @
             concat (map (content m) xs)"
proof -
  define rs1 where "rs1 = Ret 0 # concat (map (answers s m) ds) @ Ret 0 # Ret t2 # concat (map (takes m) xs) @ rs"
  define m1 where "m1 = m\<lparr>replies := rs1, trace := trace m @ [(Host C_time, Ret t1)]\<rparr>"
  let ?s1 = "s\<lparr>s_now := t1\<rparr>"
  have host: "host_only m m1" by (simp add: host_only_def m1_def)
  have mem: "same_mem m m1" and fl: "files m1 = files m" by (simp_all add: m1_def same_mem_def)
  have path: "spool_path ?s1 = spool_path s" by (simp add: spool_path_def fun_eq_iff)
  have "answers ?s1 m1 = answers s m" by (simp add: dir_answers_def spool_bytes_def path fl fun_eq_iff)
  then have rp1: "replies m1 = Ret 0 # concat (map (answers ?s1 m1) ds) @ Ret 0 # Ret t2 # concat (map (takes m) xs) @ rs"
    by (simp add: m1_def rs1_def)
  have i1: "inv ?s1" "v_connected v ?s1" "small_files m1" using assms(3,4,6) by (simp_all add: small_files_def fl)
  have reg: "\<forall>d \<in> set (filter real_entry ds). \<exists>bs. files m1 (spool_path ?s1 d) = Some (Reg bs) \<and> (bs \<noteq> [] \<longrightarrow> can_send bs)"
    using assms(8) by (simp add: path fl)
  have dist: "distinct (map (spool_path ?s1) (filter real_entry ds))" using assms(9) by (simp add: path)
  from send_files_taken [OF i1 reg dist rp1] obtain t m2 where
    f: "send_files v ?s1 m1 = Ok (True, ?s1\<lparr>s_last := t, s_state := Sending_queued_buffers\<rparr>, m2)"
      "replies m2 = Ret t2 # concat (map (takes m) xs) @ rs"
      "files m2 = files m1 |` (- set (map (spool_path ?s1) (filter real_entry ds)))"
      "out ?s1 m2 = out ?s1 m1 @ concat (map (\<lambda>d. spool_bytes m1 (spool_path ?s1 d)) (filter real_entry ds))"
    by blast
  let ?s2 = "?s1\<lparr>s_last := t, s_state := Sending_queued_buffers\<rparr>"
  define m3 where "m3 = m2\<lparr>replies := concat (map (takes m) xs) @ rs, trace := trace m2 @ [(Host C_time, Ret t2)]\<rparr>"
  let ?s3 = "?s2\<lparr>s_now := t2\<rparr>"
  have host3: "host_only m2 m3" by (simp add: host_only_def m3_def)
  from wp_Ok [OF send_files_spec [OF i1(1,3)] f(1)] have "same_mem m1 m2" by blast
  then have mem3: "same_mem m m3" using mem by (auto simp: same_mem_def m3_def)
  note views = same_mem_views [OF mem3]
  have same: "content m3 = content m" by (rule content_cong) (simp add: views)
  have "sendable m3 xs = sendable m xs" by (rule sendable_cong) (simp add: views)
  with assms(1) have ok3: "sender_ok m3 ?s3 xs ys" by (simp add: sender_ok_def queue_ok_def views)
  have i3: "inv ?s3" "v_connected v ?s3" "\<forall>p \<in> set xs. can_send (content m3 p)" using assms(3,4,7) by (simp_all add: same)
  have rp3: "replies m3 = concat (map (takes m3) xs) @ rs" using takes_cong [OF same] by (simp add: m3_def)
  from queue_taken [OF ok3 assms(2) i3 rp3] obtain s' m' where
    q: "send_queued v ?s3 m3 = Ok (False, s', m')" "replies m' = rs" "sender_ok m' s' [] (rev xs @ ys)"
      "files m' = files m3" "out ?s3 m' = out ?s3 m3 @ concat (map (content m3) xs)" by blast
  have "pop_all (s_queue s') m' = Ok (0, 0, 0, s_queue s', m')"
    using q(3) by (intro pop_all_Nil) (simp add: sender_ok_def)
  then have sv: "save_buffers s' m' = Ok (True, s', m')" by (simp add: save_buffers_def)
  have rm: "replies m = Ret t1 # rs1" using assms(10) by (simp only: rs1_def)
  have "run_round v False s m = Ok (False, ?s2, m2)"
    using run_round_clock [OF rm, of s] assms(5) f(1) by (simp add: m1_def [symmetric])
  moreover have "run_round v False ?s2 m2 = Ok (False, s', m')"
    using run_round_clock [OF f(2), of ?s2] q(1) by (simp add: m3_def [symmetric])
  ultimately have "sender_run [True, False] v s m = Ok (s', m')" by (simp add: sender_run_def sv)
  moreover have "spool_bytes m1 = spool_bytes m" by (simp add: spool_bytes_def fl fun_eq_iff)
  then have "out s m' = out s m @ concat (map (\<lambda>d. spool_bytes m (spool_path s d)) (filter real_entry ds)) @
      concat (map (content m) xs)"
    using q(5) f(4) frame_host(1) [OF host3] frame_host(1) [OF host] by (simp add: same path)
  ultimately show ?thesis using q f(3) by (simp add: path fl m3_def)
qed

end

section \<open>The peer of a plain and of a TLS connection\<close>

text \<open>
  Plain: there is nothing to read, and all the bytes are taken at once. TLS: OpenSSL has no data for
  a read and wants more from the peer, and it takes the bytes, of which there must be some.
\<close>

fun peer_open :: "encryption \<Rightarrow> reply list" where
  "peer_open Enc_no = [Err EAGAIN]"
| "peer_open Enc_yes = [SslErr (-1) SSL_ERROR_WANT_READ E_OK]"

fun peer_takes :: "encryption \<Rightarrow> byte list \<Rightarrow> reply list" where
  "peer_takes Enc_no b = (if b = [] then [] else [Ret (int (length b))])"
| "peer_takes Enc_yes b = [Ret (int (length b))]"

fun peer_can :: "encryption \<Rightarrow> byte list \<Rightarrow> bool" where
  "peer_can Enc_no b = True"
| "peer_can Enc_yes b = (b \<noteq> [])"

lemma peer_can_some: "bs \<noteq> [] \<Longrightarrow> peer_can enc bs"
  by (cases enc) simp_all

interpretation peer: taker "vtable_of ctx enc" "conn_inv enc" "conn_out enc" open_beyond
  "peer_open enc" "peer_takes enc" "peer_can enc" for ctx enc
proof unfold_locales
  fix s :: sender and m :: machine and rs :: "reply list"
  assume "conn_inv enc s" and "v_connected (vtable_of ctx enc) s" and "replies m = peer_open enc @ rs"
  then show "\<exists>m'. v_closed (vtable_of ctx enc) s m = Ok (False, m') \<and> replies m' = rs"
    by (cases enc)
       (simp_all add: insecure_def closed_insecure_def sock_recv.simps sys_recv_def secure_def closed_secure_def
         ssl_recv.simps [of 1024 "s_ssl s" m] ssl_op_def tls_inv_def connected_secure_def)
next
  fix s :: sender and m :: machine and rs :: "reply list" and b :: "byte list"
  assume "conn_inv enc s" and "v_connected (vtable_of ctx enc) s" and "peer_can enc b" and "length b < 2 ^ 31"
    and "replies m = peer_takes enc b @ rs"
  then show "\<exists>m'. v_send (vtable_of ctx enc) b s m = Ok (True, m') \<and> replies m' = rs"
    by (cases enc)
       (auto simp: insecure_def send_insecure_def send_timed.simps sock_send.simps sys_send_def Let_def
         secure_def send_secure_def ssl_send_timed.simps [of b] ssl_op_def tls_inv_def connected_secure_def)
qed

text \<open>
  C7: a round delivers: when the thread is connected and the peer takes what it is sent, the round
  returns without error, the bytes of the whole queue are on the connection, plain or TLS, in order
  and once, the queue is empty, and the buffers are back in the free list.
\<close>

theorem queue_delivered:
  assumes "sender_ok m s xs ys" and "xs \<noteq> []" and "conn_inv enc s" and "v_connected (vtable_of ctx enc) s"
    and "\<forall>p \<in> set xs. peer_can enc (content m p)"
    and "replies m = concat (map (\<lambda>p. peer_open enc @ peer_takes enc (content m p)) xs) @ rs"
  shows "\<exists>s' m'. send_queued (vtable_of ctx enc) s m = Ok (False, s', m') \<and> replies m' = rs \<and>
           sender_ok m' s' [] (rev xs @ ys) \<and> v_connected (vtable_of ctx enc) s' \<and>
           conn_out enc s m' = conn_out enc s m @ concat (map (content m) xs)"
  using peer.queue_taken [OF assms(1-5), of rs] assms(6) by (auto simp: peer.takes_def [abs_def])

text \<open>Two buffers over a plain connection, and over a TLS connection.\<close>

theorem queue_delivered_witness:
  "(\<exists>s' m'. send_queued insecure sample_online (sample\<lparr>replies := [Err EAGAIN, Ret 2, Err EAGAIN, Ret 1]\<rparr>) =
       Ok (False, s', m') \<and> sender_ok m' s' [] [3, 2, 4, 5]) \<and>
   (\<exists>s' m'. send_queued (secure 9) (sample_online\<lparr>s_ssl := \<lparr>ssl_tcp = \<lparr>sock_fd = 6\<rparr>, ssl_ssl = 77\<rparr>\<rparr>)
       (sample\<lparr>replies := [SslErr (-1) SSL_ERROR_WANT_READ E_OK, Ret 2, SslErr (-1) SSL_ERROR_WANT_READ E_OK, Ret 1]\<rparr>) =
       Ok (False, s', m') \<and> sender_ok m' s' [] [3, 2, 4, 5] \<and> ssl_sent 77 m' = [1, 2, 3])"
proof
  let ?m = "\<lambda>rs. sample\<lparr>replies := rs\<rparr>" and ?p = "[Err EAGAIN, Ret 2, Err EAGAIN, Ret 1]"
  have ok: "sender_ok (?m rs) sample_online [2, 3] [4, 5]" for rs
    using sample_online_ok [where rs = rs and fs = "files (?m rs)"] by (simp add: sample_def)
  have c: "content (?m rs) 2 = [1, 2]" "content (?m rs) 3 = [3]" for rs
    by (simp_all add: content_def sample_views)
  have "v_connected (vtable_of 0 Enc_no) sample_online"
    by (simp add: insecure_def connected_insecure_def sample_online_def)
  moreover have "replies (?m ?p) = concat (map (\<lambda>p. peer_open Enc_no @ peer_takes Enc_no (content (?m ?p) p)) [2, 3]) @ []"
    by (simp add: c)
  ultimately show "\<exists>s' m'. send_queued insecure sample_online (?m ?p) = Ok (False, s', m') \<and> sender_ok m' s' [] [3, 2, 4, 5]"
    using queue_delivered [OF ok, of Enc_no 0 ?p "[]"] by (auto simp: plain_inv_def)
  let ?s = "sample_online\<lparr>s_ssl := \<lparr>ssl_tcp = \<lparr>sock_fd = 6\<rparr>, ssl_ssl = 77\<rparr>\<rparr>"
  let ?t = "[SslErr (-1) SSL_ERROR_WANT_READ E_OK, Ret 2, SslErr (-1) SSL_ERROR_WANT_READ E_OK, Ret 1]"
  have "sender_ok (?m ?t) ?s [2, 3] [4, 5]" using ok [of ?t] by (simp add: sender_ok_def queue_ok_def)
  moreover have "conn_inv Enc_yes ?s" "v_connected (vtable_of 9 Enc_yes) ?s"
    by (simp_all add: tls_inv_def secure_def connected_secure_def ssl_fd_def)
  moreover have "replies (?m ?t) = concat (map (\<lambda>p. peer_open Enc_yes @ peer_takes Enc_yes (content (?m ?t) p)) [2, 3]) @ []"
    "\<forall>p \<in> set [2, 3]. peer_can Enc_yes (content (?m ?t) p)"
    by (simp_all add: c)
  ultimately obtain s' m' where "send_queued (secure 9) ?s (?m ?t) = Ok (False, s', m')"
    "sender_ok m' s' [] [3, 2, 4, 5]" "tls_out ?s m' = tls_out ?s (?m ?t) @ [1, 2, 3]"
    using queue_delivered [of "?m ?t" ?s "[2, 3]" "[4, 5]" Enc_yes 9 "[]"] by (auto simp: c)
  then show "\<exists>s' m'. send_queued (secure 9) ?s (?m ?t) = Ok (False, s', m') \<and> sender_ok m' s' [] [3, 2, 4, 5] \<and>
      ssl_sent 77 m' = [1, 2, 3]"
    by (auto simp: tls_out_def ssl_sent_def sample_def)
qed

text \<open>
  C8: the directory is delivered: when the thread is connected, the kernel lets it list the directory
  and read and remove its files, and the peer takes what it is sent, \<open>send_files\<close> succeeds, all
  these files are gone, their bytes are on the connection, one file after the other in the order of
  the directory, and the thread goes over to the queue.
\<close>

theorem directory_delivered:
  assumes "conn_inv enc s" and "v_connected (vtable_of ctx enc) s" and "small_files m"
    and "\<forall>d \<in> set (filter real_entry ds). \<exists>bs. files m (spool_path s d) = Some (Reg bs)"
    and "distinct (map (spool_path s) (filter real_entry ds))"
    and "replies m = Ret 0 # concat (map (dir_answers (peer_open enc) (peer_takes enc) s m) ds) @ Ret 0 # rs"
  shows "\<exists>s' m'. send_files (vtable_of ctx enc) s m = Ok (True, s', m') \<and> replies m' = rs \<and>
           v_connected (vtable_of ctx enc) s' \<and> s_state s' = Sending_queued_buffers \<and>
           files m' = files m |` (- set (map (spool_path s) (filter real_entry ds))) \<and>
           conn_out enc s m' =
             conn_out enc s m @ concat (map (\<lambda>d. spool_bytes m (spool_path s d)) (filter real_entry ds))"
proof -
  have "\<forall>d \<in> set (filter real_entry ds). \<exists>bs. files m (spool_path s d) = Some (Reg bs) \<and>
      (bs \<noteq> [] \<longrightarrow> peer_can enc bs)" using assms(4) peer_can_some by blast
  from peer.send_files_taken [OF assms(1-3) this assms(5,6)] assms(2) show ?thesis by (auto simp: conn.frame_upd)
qed

theorem directory_delivered_witness:
  "\<exists>s' m'. send_files insecure sample_online
       (sample_disk [Ret 0, Entry ''.'', Entry ''20000101-000000_000000'', Ret 0, Ret 5, Ret 0, Err EAGAIN, Ret 1, Ret 0, Ret 0]) =
     Ok (True, s', m') \<and> files m' = Map.empty \<and> s_state s' = Sending_queued_buffers \<and>
     conn_out Enc_no sample_online m' = [9]"
proof -
  let ?n = "''20000101-000000_000000''" and ?f = "''/20000101-000000_000000''"
  let ?m = "sample_disk [Ret 0, Entry ''.'', Entry ?n, Ret 0, Ret 5, Ret 0, Err EAGAIN, Ret 1, Ret 0, Ret 0]"
  have p: "spool_path sample_online ?n = ?f"
    by (simp add: spool_path_def sample_online_def sample_sender_def new_sender_def formatted_def PATH_MAX_def)
  have f: "files ?m = [?f \<mapsto> Reg [9]]" by (simp add: sample_disk_def)
  have r: "filter real_entry [''.'', ?n] = [?n]" by (simp add: real_entry_def)
  have b: "spool_bytes ?m ?f = [9]" by (simp add: spool_bytes_def f)
  have small: "small_files ?m" by (simp add: small_files_def f)
  have con: "conn_inv Enc_no sample_online" "v_connected (vtable_of 0 Enc_no) sample_online"
    by (simp_all add: plain_inv_def insecure_def connected_insecure_def sample_online_def)
  have "replies ?m = Ret 0 # concat (map (dir_answers (peer_open Enc_no) (peer_takes Enc_no) sample_online ?m) [''.'', ?n]) @ Ret 0 # []"
    by (simp add: dir_answers_def entry_answers_def real_entry_def p b) (simp add: sample_disk_def)
  from directory_delivered [OF con _ _ _ this] obtain s' m' where
    "send_files (vtable_of 0 Enc_no) sample_online ?m = Ok (True, s', m')" "s_state s' = Sending_queued_buffers"
    "files m' = files ?m |` (- {?f})" "conn_out Enc_no sample_online m' = conn_out Enc_no sample_online ?m @ [9]"
    unfolding r using small f by (auto simp: p b)
  moreover have "conn_out Enc_no sample_online ?m = []"
    by (simp add: plain_out_def sent_def sample_disk_def sample_def)
  moreover have "files ?m |` (- {?f}) = Map.empty" by (simp add: f restrict_map_def fun_eq_iff)
  ultimately show ?thesis by auto
qed

text \<open>
  C9: the thread empties the directory and the queue: started with files in the directory and buffers
  in the queue, over a connection to a peer that takes what it is sent, it sends first all the
  files, in the order of the directory, and then the whole queue, in order; when it ends after
  these two rounds, the files are gone, the queue is empty, there is nothing to save, and all
  buffers are back in the free list.
\<close>

theorem all_delivered:
  assumes "sender_ok m s xs ys" and "xs \<noteq> []" and "conn_inv enc s" and "v_connected (vtable_of ctx enc) s"
    and "s_state s = Sending_files" and "small_files m" and "\<forall>p \<in> set xs. peer_can enc (content m p)"
    and "\<forall>d \<in> set (filter real_entry ds). \<exists>bs. files m (spool_path s d) = Some (Reg bs)"
    and "distinct (map (spool_path s) (filter real_entry ds))"
    and "replies m = Ret t1 # Ret 0 # concat (map (dir_answers (peer_open enc) (peer_takes enc) s m) ds) @ Ret 0 #
      Ret t2 # concat (map (\<lambda>p. peer_open enc @ peer_takes enc (content m p)) xs) @ rs"
  shows "\<exists>s' m'. sender_run [True, False] (vtable_of ctx enc) s m = Ok (s', m') \<and> replies m' = rs \<and>
           sender_ok m' s' [] (rev xs @ ys) \<and>
           files m' = files m |` (- set (map (spool_path s) (filter real_entry ds))) \<and>
           conn_out enc s m' = conn_out enc s m @
             concat (map (\<lambda>d. spool_bytes m (spool_path s d)) (filter real_entry ds)) @ concat (map (content m) xs)"
proof -
  have "\<forall>d \<in> set (filter real_entry ds). \<exists>bs. files m (spool_path s d) = Some (Reg bs) \<and>
      (bs \<noteq> [] \<longrightarrow> peer_can enc bs)" using assms(8) peer_can_some by blast
  from peer.run_taken [OF assms(1-7) this assms(9), of t1 t2 rs] assms(10) show ?thesis
    by (simp only: peer.takes_def [abs_def])
qed

theorem all_delivered_witness:
  "\<exists>s' m'. sender_run [True, False] insecure (sample_online\<lparr>s_state := Sending_files\<rparr>)
       (sample_disk [Ret 100, Ret 0, Entry ''20000101-000000_000000'', Ret 0, Ret 5, Ret 0, Err EAGAIN, Ret 1, Ret 0,
          Ret 0, Ret 101, Err EAGAIN, Ret 2, Err EAGAIN, Ret 1]) =
     Ok (s', m') \<and> files m' = Map.empty \<and> sender_ok m' s' [] [3, 2, 4, 5] \<and>
     conn_out Enc_no sample_online m' = [9, 1, 2, 3]"
proof -
  let ?n = "''20000101-000000_000000''" and ?f = "''/20000101-000000_000000''"
  let ?m = "sample_disk [Ret 100, Ret 0, Entry ?n, Ret 0, Ret 5, Ret 0, Err EAGAIN, Ret 1, Ret 0,
          Ret 0, Ret 101, Err EAGAIN, Ret 2, Err EAGAIN, Ret 1]"
  let ?s = "sample_online\<lparr>s_state := Sending_files\<rparr>"
  have p: "spool_path ?s ?n = ?f"
    by (simp add: spool_path_def sample_online_def sample_sender_def new_sender_def formatted_def PATH_MAX_def)
  have f: "files ?m = [?f \<mapsto> Reg [9]]" by (simp add: sample_disk_def)
  have r: "filter real_entry [?n] = [?n]" by (simp add: real_entry_def)
  have b: "spool_bytes ?m ?f = [9]" by (simp add: spool_bytes_def f)
  have small: "small_files ?m" by (simp add: small_files_def f)
  have con: "conn_inv Enc_no ?s" "v_connected (vtable_of 0 Enc_no) ?s"
    by (simp_all add: plain_inv_def insecure_def connected_insecure_def sample_online_def)
  have mem: "same_mem sample ?m" by (simp add: sample_disk_def same_mem_def)
  have c: "content ?m 2 = [1, 2]" "content ?m 3 = [3]"
    by (simp_all add: content_def view_def load_def read_block_def sample_disk_def sample_def)
  have "sendable ?m [2, 3] = sendable sample [2, 3]" by (rule sendable_cong) (simp add: same_mem_views [OF mem])
  moreover have "sender_ok sample sample_online [2, 3] [4, 5]"
    using sample_online_ok [where rs = "replies sample" and fs = "files sample"] by simp
  ultimately have ok: "sender_ok ?m ?s [2, 3] [4, 5]" by (simp add: sender_ok_def queue_ok_def same_mem_views [OF mem])
  have rp: "replies ?m = Ret 100 # Ret 0 # concat (map (dir_answers (peer_open Enc_no) (peer_takes Enc_no) ?s ?m) [?n]) @ Ret 0 #
      Ret 101 # concat (map (\<lambda>p. peer_open Enc_no @ peer_takes Enc_no (content ?m p)) [2, 3]) @ []"
    by (simp add: dir_answers_def entry_answers_def real_entry_def p b c) (simp add: sample_disk_def)
  have reg: "\<forall>d \<in> set (filter real_entry [?n]). \<exists>bs. files ?m (spool_path ?s d) = Some (Reg bs)"
    unfolding r by (simp add: p f)
  from all_delivered [OF ok _ con _ small _ reg _ rp] obtain s' m' where
    "sender_run [True, False] (vtable_of 0 Enc_no) ?s ?m = Ok (s', m')" "sender_ok m' s' [] [3, 2, 4, 5]"
    "files m' = files ?m |` (- {?f})" "conn_out Enc_no ?s m' = conn_out Enc_no ?s ?m @ [9, 1, 2, 3]"
    unfolding r by (auto simp: p b c)
  moreover have "conn_out Enc_no ?s ?m = []"
    by (simp add: plain_out_def sent_def sample_disk_def sample_def)
  moreover have "files ?m |` (- {?f}) = Map.empty" by (simp add: f restrict_map_def fun_eq_iff)
  ultimately show ?thesis by (auto simp: conn.frame_upd)
qed

end
