(* ===== verification/Spec2Isabelle.thy ===== *)
theory Spec2Isabelle
  imports Handles Overflow Stopping Delivery
begin

text \<open>
  \<^bold>\<open>netbuf\<close>: a library that queues buffers of bytes and sends them, from a thread of its own,
  over a plain or a TLS connection; while they cannot be sent it keeps them in files. This is a
  model of all of it (the directory \<open>net\<close>) with the theorems that make it correct.

  \<^bold>\<open>The parts and how they interact.\<close> A \<open>buffer\<close> owns a \<open>malloc\<close> block and two links. Producers
  \<open>get\<close> buffers from an \<open>allocator\<close> (a free list behind a mutex), fill them with \<open>init\<close> and hand them
  to a \<open>sender\<close>, which links them into its queue, a \<open>buffers\<close> (a doubly linked ring behind a mutex,
  with a condition variable). The thread of the sender pops the queue, sends what it got through a
  \<open>socket\<close> or an \<open>ssl::socket\<close> to its \<open>address\<close>, and puts each buffer back into the allocator; after
  an error it puts the rest back into the queue and reconnects after 30 seconds. A producer that
  overfills the queue saves it to the directory of the sender, whose files the thread sends
  before it goes on with the queue.

  \<^bold>\<open>The theories and the code they model.\<close>
  \<^item> \<open>Prelude\<close>, \<open>Machine\<close>: what everything runs on. A computation has a result \<open>Ok\<close>, \<open>Fault\<close>
    (undefined behaviour: a dangling or null pointer, a double free, a mutex locked twice) or
    \<open>Blocked\<close> (it waits for ever); \<open>andThen\<close> sequences, \<open>wp r Q\<close> says that \<open>r\<close> is not a fault and
    that its value, if there is one, satisfies \<open>Q\<close>. The machine is the heap of buffers and
    blocks, the files, \<open>errno\<close>, a script of the answers of the kernel and of OpenSSL, and the trace
    of all calls with their answers. Theorems quantify over the script: every failure, short
    count, interruption and order of events is covered.
  \<^item> \<open>Buffer\<close> (net/buffer.h, net/buffer.cpp: \<open>init\<close>, \<open>clear\<close>, \<open>save\<close>), \<open>Chain\<close> (linked chains in the heap),
    \<open>Interfaces\<close> (the locales \<open>buffer_pool\<close> and \<open>buffer_queue\<close> of what clients rely on), \<open>Allocator\<close>
    (\<open>get\<close>, \<open>put\<close>, \<open>allocate\<close>), \<open>Buffers\<close> and \<open>Buffers_Timed\<close> (net/buffers.h, net/buffers.cpp: pushes,
    pops, waits with a deadline).
  \<^item> \<open>Address_Text\<close>, \<open>Address\<close> (the classes \<open>address\<close>, \<open>ipv4\<close>, \<open>ipv6\<close>, \<open>local\<close> of net/socket.h and
    net/socket.cpp, on the bytes of \<open>sockaddr_storage\<close>), \<open>Socket\<close> (the class \<open>socket\<close>), \<open>Ssl_Socket\<close>
    (net/ssl).
  \<^item> \<open>Sender\<close> (net/sender.h, net/sender.cpp): the object, the two tables of function pointers, files,
    \<open>save_buffers\<close>, the rounds of \<open>run\<close>, \<open>start\<close>, \<open>stop\<close>, \<open>send\<close>, the destructor. \<open>Spool\<close>: what saving
    achieves. \<open>Transport\<close>: the contract of the function pointers as the locale \<open>transport\<close>, with
    the plain and the TLS table as its instances, so that everything after it holds for both.
    \<open>Sending\<close>, \<open>Files\<close>: the loops over the queue and the directory over any transport. \<open>Rounds\<close>: the
    properties of the rounds. \<open>Producers\<close>: \<open>send\<close>, \<open>start\<close> and the destructor.
    \<open>Spool_Names\<close>: the names of the files, and two threads at the same file.
    \<open>Delivery\<close>: a round with a peer that takes everything, as an extension \<open>taker\<close> of the locale
    \<open>transport\<close> by the answers of such a peer, again with both tables as its instances.
  \<^item> \<open>Threads\<close>: the thread of the sender in steps that hold a mutex at most once, from the start of
    \<open>run\<close> to its end, shown to make up \<open>sender_run\<close>. \<open>Ledger\<close>: the abstract machine they
    implement, a ledger of held, queued and free buffers, and what each step does to it.
    \<open>Interleaving\<close>: the thread and its producers as a step relation, in which saving the queue is
    one step. \<open>History\<close>: the contents given and sent in a run of it, and runs in which
    the connection lasts (\<open>connected\<close>).
    \<open>Overflow\<close>: a run that forgets the directory. \<open>Stopping\<close>: the thread after \<open>stop\<close>.
  \<^item> \<open>Savers\<close>: saving the queue (\<open>save_buffers\<close>, \<open>save_buffer\<close>) in steps of its own, shown to make up \<open>send\<close>
    and the end of \<open>run\<close>. \<open>Concurrency\<close>: the whole system, the thread, its producers and any number
    of threads that save, each with the buffers it holds, as the step relation \<open>net_step\<close>, with what
    each step does to the buffers, their contents, the connection and the files. \<open>Handles\<close>: the
    descriptors of files, directory streams and mappings that a step opens and closes. This
    theory: what follows for all runs.

  \<^bold>\<open>What the theorems show.\<close> Of the whole system: buffers are conserved, their contents come onto the
  wire in the order in which they were given or go to files, files stay until they are sent or
  cannot be read, no interleaving faults, the representation stays well-formed, nothing is leaked.
  Of the thread: it hears \<open>stop\<close>, and with a peer that takes everything it empties the
  directory and the queue. Of a round: what is sent, kept, removed and timed, and that a
  peer that takes everything gets everything, from the queue and from the directory. Of each operation: its functional behaviour on every
  branch, against lists for the linked structures (\<open>queue_refines_list\<close>: any sequence of pushes and
  pops), against the bytes on the connection for sends
  (\<open>sent\<close>, \<open>ssl_sent\<close>, read off the trace) and against the balance of opened and closed descriptors
  and TLS objects (\<open>fd_balance\<close>, \<open>ssl_balance\<close>), of directory streams and of mappings (\<open>dir_balance\<close>,
  \<open>map_balance\<close>). Some theorems state errors of the code: buffers
  put twice after a failed save, files removed unsent, a lost change of state, two saves into one
  file, a file removed while it is written, a double free in \<open>init\<close>, interrupted waits,
  truncated lengths.

  \<^bold>\<open>Integers.\<close> \<open>size_t\<close>, \<open>unsigned\<close> and ports are words and wrap around; pointers are natural
  numbers, 0 the null pointer; \<open>time_t\<close> and descriptors are integers. Members that a constructor
  leaves indeterminate (of the sender: the bytes of its address, its encryption, directory and current time) are arguments of the
  model of the constructor.

  \<^bold>\<open>Bounds and fuel.\<close> Loops that wait for answers recurse on the script. Walks over chains carry \<open>brk\<close>,
  the number of addresses, as fuel; a chain of distinct live buffers is shorter
  (\<open>send_queue_loop_terminates\<close>). The loop over a directory carries the number of answers
  (\<open>send_files_loop_terminates\<close>). The loop of the thread takes the values it reads of \<open>_M_running\<close> as
  a list in \<open>run_loop\<close>, and reads the field in \<open>thread_step\<close>.

  \<^bold>\<open>Hypotheses on what is not in the repository.\<close> \<open>inet_pton\<close> and \<open>inet_ntop\<close> are parameters
  (\<open>pton\<close>, \<open>ntop\<close>), with their documented inverse laws as hypotheses of the round trip.
  \<open>honest\<close>: \<open>stat\<close> failed only for missing files. \<open>sendable\<close>, \<open>small_files\<close>: less than 2 GiB, as
  OpenSSL takes lengths as \<open>int\<close>. \<open>arrives\<close>: producers push only buffers of their own during a wait.

  \<^bold>\<open>A save that failed.\<close> After it \<open>save_buffers\<close> returns the buffer to the allocator and goes on to use it
  (\<open>save_buffers_retry\<close>). This step is one of \<open>net_step\<close>, with the label \<open>Reuse\<close>: after it a buffer is
  free and held at once, so that the ledger and all that rests on it end there (the last part of
  \<open>buffers_conserved\<close>). The theorems on all runs that take \<open>Reuse \<notin> set es\<close> are about the runs up to
  this step; they include the failed save and what the other threads do between it and this step.
  From then on \<open>net_step\<close> describes the threads that save only, as the others have no list to go by. What
  opens and closes files, streams and mappings is accounted for in all runs
  (\<open>net_history_opens\<close>).

  \<^bold>\<open>Waiting.\<close> During \<open>pthread_cond_timedwait\<close> the mutex of the queue is free. What other threads do to the queue
  then is an answer of the script: any sequence of single pushes and pops. A chain that a producer
  pushes while the thread waits is the step \<open>give\<close> of \<open>sys_step\<close> or \<open>push\<close> of \<open>net_step\<close> while the thread is
  at \<open>Popping\<close>, which it leaves with the whole queue; in the script of a wait a chain is not
  described (\<open>Misuse\<close>). \<open>pthread_join\<close> in \<open>stop\<close> is an answer of the script, too: the steps
  that the thread takes until it ends are those of \<open>thread_step\<close> with \<open>_M_running\<close> cleared
  (\<open>Stopping\<close>), and the destructor goes on after the answer.

  \<^bold>\<open>Not modelled.\<close> The test programs and the debug messages. Weak memory: the steps of \<open>Threads\<close> and
  \<open>Savers\<close> are atomic. In \<open>net_step\<close> opening and writing a file (\<open>save\<close>) is one step, and so is what the
  thread does with a file; what may happen in between is the subject of \<open>spool_read_race\<close>.
  The unsynchronised accesses to \<open>_M_state\<close>, \<open>_M_current_time\<close> and \<open>_M_running\<close> are data races in the
  code. Other processes that change the files of the directory. Failures of \<open>pthread_mutex_lock\<close>.
  Signals, other than as \<open>EINTR\<close>.
\<close>

section \<open>The sender and its producers\<close>

text \<open>
  A run of the system from \<open>n0\<close>, with the buffers \<open>N0\<close>, to \<open>n\<close>, over the transport of the encryption
  \<open>enc\<close>: its labels are \<open>es\<close>, the contents given, sent and saved on the way \<open>gs\<close>, \<open>ws\<close> and \<open>ds\<close>.
\<close>

definition runs :: "ptr \<Rightarrow> encryption \<Rightarrow> net \<Rightarrow> accounts \<Rightarrow> event list \<Rightarrow>
    byte list list \<Rightarrow> byte list list \<Rightarrow> byte list list \<Rightarrow> net \<Rightarrow> bool" where
  "runs ctx enc n0 N0 es gs ws ds n \<longleftrightarrow>
     net_history (\<lambda>_. True) (vtable_of ctx enc) n0 es gs ws ds n \<and> net_owns n0 N0 \<and>
     conn_inv enc (obj (fst n0)) \<and> online (vtable_of ctx enc) (fst n0)"

lemma runs_ok:
  assumes "runs ctx enc n0 N0 es gs ws ds n" and "Reuse \<notin> set es"
  shows "\<exists>N. net_owns n N \<and> settled es gs ws ds n0 N0 n N \<and> conn_inv enc (obj (fst n)) \<and>
           online (vtable_of ctx enc) (fst n) \<and>
           open_beyond (obj (fst n)) (mach (fst n)) = open_beyond (obj (fst n0)) (mach (fst n0))"
  using conn.net_history_ok [of "\<lambda>_. True" ctx enc n0 es gs ws ds n N0] assms unfolding runs_def by blast

text \<open>
  C1: in every interleaving of the thread with its producers and the threads that save, as long as no
  thread goes on after a save that failed (label \<open>Reuse\<close>), no buffer is lost or duplicated: the
  buffers the thread holds, those held by threads that save or could not save, the queued ones and
  the free ones are distinct, and together with those the producers got they are exactly the buffers
  that were there, were given or were made. A step after a failed save ends this: after it there
  are no such lists, as the free list has a buffer that the thread still holds.
\<close>

theorem buffers_conserved:
  assumes "runs ctx enc n0 (hs0, gss0, xs0, ys0) es gs ws ds n" and "Reuse \<notin> set es"
  shows "\<exists>hs gss xs ys. net_owns n (hs, gss, xs, ys) \<and> distinct (hs @ concat gss @ xs @ ys) \<and>
           mset (hs @ concat gss @ xs @ ys) + mset (got es) =
           mset (hs0 @ concat gss0 @ xs0 @ ys0) + mset (given es) + mset (refilled_by es) \<and>
           (\<forall>fs os n'. net_step (vtable_of ctx enc) n fs os n' \<and> Reuse \<in> set fs \<longrightarrow> \<not> (\<exists>N'. net_owns n' N'))"
proof -
  from runs_ok [OF assms] obtain N where N: "net_owns n N" "settled es gs ws ds n0 (hs0, gss0, xs0, ys0) n N" by blast
  obtain hs gss xs ys where n: "N = (hs, gss, xs, ys)" by (cases N)
  obtain c0 svs0 ph s m svs where c: "n0 = (c0, svs0)" "n = ((ph, s, m), svs)" by (metis prod.collapse)
  from N(2) have "mset (hs @ concat gss @ xs @ ys) + mset (got es) =
      mset (hs0 @ concat gss0 @ xs0 @ ys0) + mset (given es) + mset (refilled_by es)"
    unfolding n c settled.simps by blast
  with net_owns_distinct reuse_breaks N(1) show ?thesis unfolding n c by blast
qed

text \<open>
  The thread comes to the queue; a producer, whose \<open>send\<close> has overfilled it, takes it and saves the
  first buffer.
\<close>

definition sample_full :: machine where
  "sample_full = sample\<lparr>replies := [Ret 0, Ret 5, Ret 2]\<rparr>"

lemma sample_full_start: "net_owns ((Ready, sample_online, sample_full), [Seizing True]) ([], [[]], [2, 3], [4, 5])"
proof -
  have "same_mem sample sample_full" by (simp add: sample_full_def same_mem_def)
  from sender_ok_same_mem(1) [OF this refl refl] have "sender_ok sample_full sample_online [2, 3] [4, 5]"
    using sample_online_ok [where rs = "replies sample" and fs = "files sample"] by simp
  moreover have "small_files sample_full" by (simp add: small_files_def sample_full_def sample_def)
  ultimately show ?thesis by (simp add: hold_def place_def)
qed

lemma sample_saving:
  "\<exists>s m. runs 0 Enc_no ((Ready, sample_online, sample_full), [Seizing True]) ([], [[]], [2, 3], [4, 5])
     [Spill] [] [] [[1, 2]] ((Popping, s, m), [Saved (True, 2, 3) 1])"
proof -
  let ?k = "(True, 2, 3)" and ?n0 = "((Ready, sample_online, sample_full), [Seizing True])"
  obtain s m1 t f m2 m3 where
    st: "thread_step insecure (Ready, sample_online, sample_full) = Ok (Popping, sample_online, sample_full)"
      "saver_step (Seizing True, sample_online, sample_full) = Ok (Saving ?k 0, s, m1)"
      "saver_step (Saving ?k 0, s, m1) = Ok (Probing ?k t 0, s, m1)"
      "saver_step (Probing ?k t 0, s, m1) = Ok (Found ?k 1 f, s, m2)"
      "saver_step (Found ?k 1 f, s, m2) = Ok (Saved ?k 1, s, m3)"
    and v: "content m2 2 = [1, 2]"
    by (simp cong: andThen_weak_cong add: send_run_simps pop_all_def sample_online_defs sample_full_def content_def Let_def
        sys_stat_def save_def sys_open_write_def save_loop.simps sys_write_def sys_close_file_def append_file_def)
  note h = net_history.start [of "\<lambda>_. True" ?n0 insecure, OF TrueI]
  have "net_step insecure ?n0 [] [] ((Popping, sample_online, sample_full), [Seizing True])"
    using net_step.main [OF sample_full_start sys_step.work [OF st(1)]] by (simp add: touched_def)
  note h = net_history.step [OF h this TrueI, simplified]
  note h = net_history.step [OF h net_step.save [OF st(2), of insecure Popping "[]" "[]", simplified] TrueI, simplified]
  note h = net_history.step [OF h net_step.save [OF st(3), of insecure Popping "[]" "[]", simplified] TrueI, simplified]
  note h = net_history.step [OF h net_step.save [OF st(4), of insecure Popping "[]" "[]", simplified] TrueI, simplified]
  note h = net_history.step [OF h net_step.save [OF st(5), of insecure Popping "[]" "[]", simplified] TrueI, simplified]
  have "net_history (\<lambda>_. True) (vtable_of 0 Enc_no) ?n0 [Spill] [] [] [[1, 2]] ((Popping, s, m3), [Saved ?k 1])"
    using h by (simp add: shipped_def v)
  moreover have "conn_inv Enc_no (obj (fst ?n0))" by (simp add: plain_inv_def)
  moreover have "online (vtable_of 0 Enc_no) (fst ?n0)" by simp
  ultimately have "runs 0 Enc_no ?n0 ([], [[]], [2, 3], [4, 5]) [Spill] [] [] [[1, 2]] ((Popping, s, m3), [Saved ?k 1])"
    using sample_full_start by (simp only: runs_def)
  then show ?thesis by (intro exI)
qed

theorem buffers_conserved_witness:
  "\<exists>s m hs gss xs ys. runs 0 Enc_no ((Ready, sample_online, sample_full), [Seizing True]) ([], [[]], [2, 3], [4, 5])
     [Spill] [] [] [[1, 2]] ((Popping, s, m), [Saved (True, 2, 3) 1]) \<and>
     net_owns ((Popping, s, m), [Saved (True, 2, 3) 1]) (hs, gss, xs, ys) \<and>
     mset (hs @ concat gss @ xs @ ys) = {#2, 3, 4, 5#}"
proof -
  obtain s m where run: "runs 0 Enc_no ((Ready, sample_online, sample_full), [Seizing True]) ([], [[]], [2, 3], [4, 5])
     [Spill] [] [] [[1, 2]] ((Popping, s, m), [Saved (True, 2, 3) 1])"
    using sample_saving by blast
  have "Reuse \<notin> set [Spill]" by simp
  from buffers_conserved [OF run this] obtain hs gss xs ys where
    o: "net_owns ((Popping, s, m), [Saved (True, 2, 3) 1]) (hs, gss, xs, ys)"
    and "mset (hs @ concat gss @ xs @ ys) + mset (got [Spill]) =
      mset ([] @ concat [[]] @ [2, 3] @ [4, 5]) + mset (given [Spill]) + mset (refilled_by [Spill])" by blast
  then have "mset (hs @ concat gss @ xs @ ys) = {#2, 3, 4, 5#}" by simp
  with run o show ?thesis by blast
qed

text \<open>
  The thread takes two buffers, connected as it is, sends the first one and releases it.
\<close>

definition sample_life :: machine where
  "sample_life = sample\<lparr>replies := [Err EAGAIN, Ret 2], trace := [(Sock (C_socket AF_INET), Ret 3)]\<rparr>"

lemma sample_start:
  assumes "held ph = None" shows "owns (ph, sample_online, sample_life) ([], [2, 3], [4, 5])"
proof -
  have "same_mem sample sample_life" by (simp add: sample_life_def same_mem_def)
  from sender_ok_same_mem(1) [OF this refl refl] have "sender_ok sample_life sample_online [2, 3] [4, 5]"
    using sample_online_ok [where rs = "replies sample" and fs = "files sample"] by simp
  then show ?thesis using assms by (simp add: small_files_def) (simp add: sample_life_def sample_def)
qed

text \<open>Its steps, while the connection lasts.\<close>

lemma sample_steps:
  obtains s m where
    "reaches insecure (Ready, sample_online, sample_life) [Take, Release 2] (Holding 3 3, s, m)"
    "history (connected insecure) insecure (Ready, sample_online, sample_life) [] [[1, 2]] (Holding 3 3, s, m)"
    "\<not> s_running s" "content m 3 = [3]"
proof -
  let ?step = "sys_step insecure" and ?c = "(Popping, sample_online, sample_life)"
  obtain s1 m1 s2 m2 s3 m3 where
    t: "thread_step insecure (Ready, sample_online, sample_life) = Ok ?c"
      "thread_step insecure ?c = Ok (Taken 2 3, s1, m1)"
      "thread_step insecure (Taken 2 3, s1, m1) = Ok (Holding 2 3, s1, m1)"
      "thread_step insecure (Holding 2 3, s1, m1) = Ok (Sent 2 3, s2, m2)"
      "thread_step insecure (Sent 2 3, s2, m2) = Ok (Holding 3 3, s3, m3)"
    and off: "\<not> s_running s3" "content m3 3 = [3]" "content m1 2 = [1, 2]"
    and con: "v_connected insecure s1" "v_connected insecure s2" "v_connected insecure s3"
    by (simp cong: andThen_weak_cong add: send_run_simps sample_online_defs sample_life_def content_def)
  have "arrives sample_life sample_online [2, 3] [4, 5] True [2, 3]" by (simp add: arrives_def)
  from sys_step.pop [OF sample_start this t(2)] have "?step ?c [Take] (Taken 2 3, s1, m1)" by simp
  moreover have "?step (Ready, sample_online, sample_life) [] ?c" "?step (Taken 2 3, s1, m1) [] (Holding 2 3, s1, m1)"
    "?step (Holding 2 3, s1, m1) [] (Sent 2 3, s2, m2)"
    "?step (Sent 2 3, s2, m2) [Release 2] (Holding 3 3, s3, m3)"
    using sys_step.work [OF t(1)] sys_step.work [OF t(3)] sys_step.work [OF t(4)] sys_step.work [OF t(5)]
    by simp_all
  note st = this(1) calculation(1) this(2-4)
  have "v_connected insecure sample_online" by (simp add: insecure_def connected_insecure_def sample_online_def)
  then have str: "connected insecure (Ready, sample_online, sample_life)" "connected insecure ?c"
    "connected insecure (Taken 2 3, s1, m1)" "connected insecure (Holding 2 3, s1, m1)"
    "connected insecure (Sent 2 3, s2, m2)" "connected insecure (Holding 3 3, s3, m3)"
    using con by (simp_all add: connected_def)
  note r = reaches.start [of insecure "(Ready, sample_online, sample_life)"]
    and h = history.start [of "connected insecure", OF str(1), of insecure]
  show thesis
  proof (rule that [OF _ _ off(1,2)])
    from reaches.step [OF reaches.step [OF reaches.step [OF reaches.step [OF reaches.step
        [OF r st(1)] st(2)] st(3)] st(4)] st(5)]
    show "reaches insecure (Ready, sample_online, sample_life) [Take, Release 2] (Holding 3 3, s3, m3)" by simp
    from history.step [OF history.step [OF history.step [OF history.step [OF history.step
        [OF h st(1) _ str(2)] st(2) _ str(3)] st(3) _ str(4)] st(4) _ str(5)] st(5) _ str(6)]
    show "history (connected insecure) insecure (Ready, sample_online, sample_life) [] [[1, 2]] (Holding 3 3, s3, m3)"
      by (simp add: shipped_def off(3))
  qed
qed

lemma sample_pending: "pending (Ready, sample_online, sample_life) ([], [2, 3], ys) = [[1, 2], [3]]"
  by (simp add: pending_def content_def view_def load_def read_block_def sample_life_def sample_def)

text \<open>It is a run of the whole system.\<close>

lemma sample_run:
  obtains es s m where "Spill \<notin> set es" "Reuse \<notin> set es" "\<not> s_running s"
    "net_history (connected insecure) insecure ((Ready, sample_online, sample_life), []) es [] [[1, 2]] [] ((Holding 3 3, s, m), [])"
    "runs 0 Enc_no ((Ready, sample_online, sample_life), []) ([], [], [2, 3], [4, 5]) es [] [[1, 2]] []
       ((Holding 3 3, s, m), [])"
proof -
  obtain s m where h: "history (connected (vtable_of 0 Enc_no)) (vtable_of 0 Enc_no)
      (Ready, sample_online, sample_life) [] [[1, 2]] (Holding 3 3, s, m)" and off: "\<not> s_running s"
    by (rule sample_steps) simp
  have i: "conn_inv Enc_no (obj (Ready, sample_online, sample_life))" by (simp add: plain_inv_def)
  from conn.history_net [OF h sample_start i] obtain es where es: "Spill \<notin> set es" "Reuse \<notin> set es"
    "net_history (connected insecure) insecure ((Ready, sample_online, sample_life), []) es [] [[1, 2]] [] ((Holding 3 3, s, m), [])"
    by auto
  moreover have "runs 0 Enc_no ((Ready, sample_online, sample_life), []) ([], [], [2, 3], [4, 5]) es [] [[1, 2]] []
       ((Holding 3 3, s, m), [])"
    using net_history_any [OF es(3)] sample_start i by (simp add: runs_def hold_def del: owns.simps)
  ultimately show thesis using that off by blast
qed

text \<open>
  C3: what is sent comes onto the wire in the order in which the producers gave it, each content once
  and whole: while a connection lasts, the bytes that come to be on it are a sequence of parts. The
  parts that are not files are the contents of the buffers sent completely; these, followed by
  the contents that are still to be sent, are in order some of those that were to be sent at first
  followed by those that producers gave since, and all of them if no queue was taken to be saved.
  Every other part is all the bytes of a file that was there when the thread came to an entry of
  the directory on this connection. This is so whatever the producers and threads that save did
  meanwhile, as long as no thread goes on after a save that failed (\<open>save_buffers_retry\<close>).
\<close>

theorem wire_in_order:
  assumes "net_history (connected (vtable_of ctx enc)) (vtable_of ctx enc) (c0, svs0) es gs ws ds (c, svs)"
    and "net_owns (c0, svs0) (hs0, gss0, xs0, ys0)" and "conn_inv enc (obj c0)" and "Reuse \<notin> set es"
  shows "(\<exists>ps. conn_out enc (obj c) (mach c) = conn_out enc (obj c0) (mach c0) @ concat (map snd ps) \<and>
            map snd (filter (\<lambda>p. fst p = None) ps) = ws \<and>
            (\<forall>f bs. (Some f, bs) \<in> set ps \<longrightarrow> (\<exists>c1 svs1 es1 gs1 ws1 ds1 es2 gs2 ws2 ds2.
               net_history (connected (vtable_of ctx enc)) (vtable_of ctx enc) (c0, svs0) es1 gs1 ws1 ds1 (c1, svs1) \<and>
               net_history (connected (vtable_of ctx enc)) (vtable_of ctx enc) (c1, svs1) es2 gs2 ws2 ds2 (c, svs) \<and>
               at_entry (fst c1) \<and> files (mach c1) f = Some (Reg bs)))) \<and>
         (\<exists>hs gss xs ys. net_owns (c, svs) (hs, gss, xs, ys) \<and>
            subseq (ws @ pending c (hs, xs, ys)) (pending c0 (hs0, xs0, ys0) @ gs) \<and>
            (Spill \<notin> set es \<longrightarrow> ws @ pending c (hs, xs, ys) = pending c0 (hs0, xs0, ys0) @ gs))"
proof
  have i: "conn_inv enc (obj (fst (c0, svs0)))" using assms(3) by simp
  from conn.net_history_logs [OF assms(1,2) i assms(4)]
  show "\<exists>ps. conn_out enc (obj c) (mach c) = conn_out enc (obj c0) (mach c0) @ concat (map snd ps) \<and>
      map snd (filter (\<lambda>p. fst p = None) ps) = ws \<and>
      (\<forall>f bs. (Some f, bs) \<in> set ps \<longrightarrow> (\<exists>c1 svs1 es1 gs1 ws1 ds1 es2 gs2 ws2 ds2.
         net_history (connected (vtable_of ctx enc)) (vtable_of ctx enc) (c0, svs0) es1 gs1 ws1 ds1 (c1, svs1) \<and>
         net_history (connected (vtable_of ctx enc)) (vtable_of ctx enc) (c1, svs1) es2 gs2 ws2 ds2 (c, svs) \<and>
         at_entry (fst c1) \<and> files (mach c1) f = Some (Reg bs)))"
    unfolding conn.logs_def conn.met_def split_paired_Ex fst_conv snd_conv by blast
  from conn.net_history_ok [OF assms(1,2) i connected_online [OF net_history_holds [OF assms(1)]] assms(4)] obtain N where
    N: "net_owns (c, svs) N" "settled es gs ws ds (c0, svs0) (hs0, gss0, xs0, ys0) (c, svs) N" by blast
  obtain hs gss xs ys where "N = (hs, gss, xs, ys)" by (cases N)
  with N show "\<exists>hs gss xs ys. net_owns (c, svs) (hs, gss, xs, ys) \<and>
      subseq (ws @ pending c (hs, xs, ys)) (pending c0 (hs0, xs0, ys0) @ gs) \<and>
      (Spill \<notin> set es \<longrightarrow> ws @ pending c (hs, xs, ys) = pending c0 (hs0, xs0, ys0) @ gs)"
    using settled.simps [of es gs ws ds c0 svs0 hs0 gss0 xs0 ys0 c svs hs gss xs ys] by blast
qed

theorem wire_in_order_witness:
  "\<exists>es s m hs gss xs ys ps.
     net_history (connected insecure) insecure ((Ready, sample_online, sample_life), []) es [] [[1, 2]] [] ((Holding 3 3, s, m), []) \<and>
     net_owns ((Holding 3 3, s, m), []) (hs, gss, xs, ys) \<and> [[1, 2]] @ pending (Holding 3 3, s, m) (hs, xs, ys) = [[1, 2], [3]] \<and>
     conn_out Enc_no s m = conn_out Enc_no sample_online sample_life @ concat (map snd ps) \<and>
     map snd (filter (\<lambda>p. fst p = (None :: string option)) ps) = [[1, 2]]"
proof -
  obtain es s m where sp: "Spill \<notin> set es" "Reuse \<notin> set es" and h: "net_history (connected insecure) insecure
      ((Ready, sample_online, sample_life), []) es [] [[1, 2]] [] ((Holding 3 3, s, m), [])"
    and r: "runs 0 Enc_no ((Ready, sample_online, sample_life), []) ([], [], [2, 3], [4, 5]) es [] [[1, 2]] []
       ((Holding 3 3, s, m), [])" by (rule sample_run)
  from r have "net_owns ((Ready, sample_online, sample_life), []) ([], [], [2, 3], [4, 5])"
    "conn_inv Enc_no (obj (Ready, sample_online, sample_life))" unfolding runs_def by simp_all
  note w = wire_in_order [OF h [folded vtable_of.simps(1) [of 0]] this sp(2)]
  from conjunct2 [OF w] sp(1) obtain hs gss xs ys where o: "net_owns ((Holding 3 3, s, m), []) (hs, gss, xs, ys)"
    "[[1, 2]] @ pending (Holding 3 3, s, m) (hs, xs, ys) = [[1, 2], [3]]"
    unfolding sample_pending by auto
  from conjunct1 [OF w] obtain ps where
    "conn_out Enc_no s m = conn_out Enc_no sample_online sample_life @ concat (map snd ps)"
    "map snd (filter (\<lambda>p. fst p = (None :: string option)) ps) = [[1, 2]]"
    unfolding fst_conv snd_conv by (elim exE conjE) (rule that)
  with h o show ?thesis by (intro exI conjI) assumption+
qed

text \<open>
  C5: across failed sends, reconnections and saves, too, nothing is lost or sent out of order, as
  long as no thread goes on after a save that failed (\<open>save_buffers_retry\<close>): the
  contents sent completely, followed by those still to be sent, are in order some of those that
  were to be sent at first followed by those given since, and all of them if no queue was
  taken to be saved; the others are saved, or in the hands of a thread that saves or could not save. A step
  that saves a content leaves a file with just this content, and a step that sends one while the
  connection lasts puts just its bytes on it.
\<close>

theorem sent_in_order:
  assumes "runs ctx enc (c0, svs0) (hs0, gss0, xs0, ys0) es gs ws ds (c, svs)" and "Reuse \<notin> set es"
  shows "\<exists>hs gss xs ys. net_owns (c, svs) (hs, gss, xs, ys) \<and>
           subseq (ws @ pending c (hs, xs, ys)) (pending c0 (hs0, xs0, ys0) @ gs) \<and>
           (Spill \<notin> set es \<longrightarrow> ws @ pending c (hs, xs, ys) = pending c0 (hs0, xs0, ys0) @ gs) \<and>
           mset (ws @ pending c (hs, xs, ys)) + mset (map (content (mach c)) (unsaved svs gss)) + mset ds =
             mset (pending c0 (hs0, xs0, ys0)) + mset (map (content (mach c0)) (unsaved svs0 gss0)) + mset gs \<and>
           (\<forall>fs os c' svs'. net_step (vtable_of ctx enc) (c, svs) fs os (c', svs') \<and> Reuse \<notin> set fs \<longrightarrow>
              (\<forall>p \<in> set os. \<exists>f. files (mach c') f = Some (Reg (content (mach c) p))) \<and>
              (v_connected (vtable_of ctx enc) (obj c) \<and> v_connected (vtable_of ctx enc) (obj c') \<and> \<not> at_entry (fst c) \<longrightarrow>
               conn_out enc (obj c') (mach c') = conn_out enc (obj c) (mach c) @ concat (shipped c c')))"
proof -
  from runs_ok [OF assms] obtain N where N: "net_owns (c, svs) N" "conn_inv enc (obj c)" "online (vtable_of ctx enc) c"
    "settled es gs ws ds (c0, svs0) (hs0, gss0, xs0, ys0) (c, svs) N"
    unfolding fst_conv by blast
  obtain hs gss xs ys where n: "N = (hs, gss, xs, ys)" by (cases N)
  have "(\<forall>p \<in> set os. \<exists>f. files (mach c') f = Some (Reg (content (mach c) p))) \<and>
      (v_connected (vtable_of ctx enc) (obj c) \<and> v_connected (vtable_of ctx enc) (obj c') \<and> \<not> at_entry (fst c) \<longrightarrow>
       conn_out enc (obj c') (mach c') = conn_out enc (obj c) (mach c) @ concat (shipped c c'))"
    if st: "net_step (vtable_of ctx enc) (c, svs) fs os (c', svs')" "Reuse \<notin> set fs" for fs os c' svs'
    using conn.net_step_saves [OF st(1) N(1)] conn.net_step_ok [OF st(1) N(1) _ _ st(2)] N(2,3) by (auto simp: conn.orderly_def)
  with N(1,4) show ?thesis unfolding n settled.simps by blast
qed

theorem sent_in_order_witness:
  "\<exists>s m hs gss xs ys. runs 0 Enc_no ((Ready, sample_online, sample_full), [Seizing True]) ([], [[]], [2, 3], [4, 5])
     [Spill] [] [] [[1, 2]] ((Popping, s, m), [Saved (True, 2, 3) 1]) \<and>
     net_owns ((Popping, s, m), [Saved (True, 2, 3) 1]) (hs, gss, xs, ys) \<and>
     mset (pending (Popping, s, m) (hs, xs, ys)) + mset (map (content m) (unsaved [Saved (True, 2, 3) 1] gss)) = {#[3]#}"
proof -
  obtain s m where run: "runs 0 Enc_no ((Ready, sample_online, sample_full), [Seizing True]) ([], [[]], [2, 3], [4, 5])
     [Spill] [] [] [[1, 2]] ((Popping, s, m), [Saved (True, 2, 3) 1])"
    using sample_saving by blast
  have "pending (Ready, sample_online, sample_full) ([], [2, 3], [4, 5]) = [[1, 2], [3]]"
    by (simp add: pending_def content_def view_def load_def read_block_def sample_full_def sample_def)
  moreover have "Reuse \<notin> set [Spill]" by simp
  ultimately show ?thesis using sent_in_order [OF run] run by (simp add: unsaved_def) blast
qed

text \<open>
  C4: no file of the directory is lost: a file that is there at some time, and that no thread is about
  to write to then, is there later, unless the kernel did not let the sender open or map it, or a
  step of the thread put all its bytes on the connection, whatever the thread, the producers and
  any number of threads that save do in between, as long as \<open>stat\<close> fails only for missing files
  (\<open>honest\<close>) and no thread goes on after a save that failed. Without these conditions
  a save may overwrite the file (\<open>spool_name_race\<close>).
\<close>

theorem no_file_lost:
  assumes "runs ctx enc (c0, svs0) N0 es gs ws ds (c, svs)" and "files (mach c0) f = Some (Reg bs)"
    and "\<not> aimed svs0 f" and "honest (mach c)" and "Reuse \<notin> set es"
  shows "files (mach c) f = Some (Reg bs) \<or> unreadable f (mach c) \<or>
         (\<exists>es gs ws ds n1 fs os n2 es' gs' ws' ds'. net_history (\<lambda>_. True) (vtable_of ctx enc) (c0, svs0) es gs ws ds n1 \<and>
            net_step (vtable_of ctx enc) n1 fs os n2 \<and>
            net_history (\<lambda>_. True) (vtable_of ctx enc) n2 es' gs' ws' ds' (c, svs) \<and> at_entry (fst (fst n1)) \<and>
            conn_out enc (obj (fst n1)) (mach (fst n2)) = conn_out enc (obj (fst n1)) (mach (fst n1)) @ bs)"
  using conn.net_history_file [of "\<lambda>_. True" ctx enc "(c0, svs0)" es gs ws ds "(c, svs)" N0 f bs] assms
  unfolding runs_def conn.put_on_wire_def fst_conv snd_conv by blast

theorem no_file_lost_witness:
  "\<exists>es s m. runs 0 Enc_no ((Entered ''20000101-000000_000000'', sample_online,
       sample_disk [Ret 0, Ret 5, Ret 0, Err EAGAIN, Ret 1, Ret 0, Ret 0]), []) ([], [], [2, 3], [4, 5]) es [] [] []
       ((Reading, s, m), []) \<and>
     files m = Map.empty \<and>
     (\<exists>n1 fs os n2. net_step insecure n1 fs os n2 \<and> at_entry (fst (fst n1)) \<and>
        conn_out Enc_no (obj (fst n1)) (mach (fst n2)) = conn_out Enc_no (obj (fst n1)) (mach (fst n1)) @ [9])"
proof -
  let ?n = "''20000101-000000_000000''" and ?f = "''/20000101-000000_000000''"
  let ?m = "sample_disk [Ret 0, Ret 5, Ret 0, Err EAGAIN, Ret 1, Ret 0, Ret 0]"
  let ?c = "(Entered ?n, sample_online, ?m)"
  obtain s m where t: "thread_step insecure ?c = Ok (Reading, s, m)"
    and f: "files m = Map.empty" "\<not> unreadable ?f m"
    and tr: "list_all (\<lambda>e. stat_call e \<longrightarrow> status_of (snd e) = 0) (trace m)"
    by (simp cong: andThen_weak_cong add: send_entry_def sys_stat_def send_file_def sys_open_read_def sys_mmap_def
        sys_munmap_def sys_close_file_def sys_unlink_def formatted_def PATH_MAX_def unreadable_def stat_call_def
        send_run_simps sample_online_defs sample_disk_def)
  have h: "honest m" using tr by (auto simp: honest_def list_all_iff)
  have "same_mem sample ?m" by (simp add: sample_disk_def same_mem_def)
  from sender_ok_same_mem(1) [OF this refl refl] have "sender_ok ?m sample_online [2, 3] [4, 5]"
    using sample_online_ok [where rs = "replies sample" and fs = "files sample"] by simp
  moreover have "small_files ?m" by (simp add: small_files_def sample_disk_def)
  ultimately have ow: "owns ?c ([], [2, 3], [4, 5])" by simp
  have on: "online insecure ?c" by (simp add: insecure_def connected_insecure_def sample_online_def)
  have i: "conn_inv Enc_no (obj ?c)" by (simp add: plain_inv_def)
  have "sys_step insecure ?c [] (Reading, s, m)" using sys_step.work [OF t] by simp
  from history.step [OF history.start this, of "\<lambda>_. True"]
  have "history (\<lambda>_. True) (vtable_of 0 Enc_no) ?c [] [] (Reading, s, m)" by (simp add: shipped_def)
  from conn.history_net [OF this ow i] on obtain es where re: "Reuse \<notin> set es" and
    "net_history (\<lambda>_. True) insecure (?c, []) es [] [] [] ((Reading, s, m), [])" by auto
  then have run: "runs 0 Enc_no (?c, []) ([], [], [2, 3], [4, 5]) es [] [] [] ((Reading, s, m), [])"
    using ow on i by (simp add: runs_def hold_def del: owns.simps)
  have "files (mach ?c) ?f = Some (Reg [9])" by (simp add: sample_disk_def)
  from no_file_lost [OF run this] f h re have "\<exists>n1 fs os n2. net_step insecure n1 fs os n2 \<and> at_entry (fst (fst n1)) \<and>
      conn_out Enc_no (obj (fst n1)) (mach (fst n2)) = conn_out Enc_no (obj (fst n1)) (mach (fst n1)) @ [9]"
    by (simp add: aimed_def) blast
  with f(1) run show ?thesis by blast
qed

text \<open>
  C17: the representation is well-formed in every configuration that is reached without a step after
  a save that failed (such a step makes the free list a cycle, \<open>save_buffers_retry\<close>): the heap is in order,
  the queue is linked by \<open>next\<close> from its header around to it again, with the last buffer as the
  \<open>prev\<close> of the header and as many buffers as its count says, the free list
  ends at the null pointer, what a thread that saves holds is a chain from its first to its last
  buffer, and no mutex is left locked.
\<close>

theorem well_formed:
  assumes "runs ctx enc n0 N0 es gs ws ds ((ph, s, m), svs)" and "Reuse \<notin> set es"
  shows "\<exists>xs ys gss. heap_ok m \<and> ring (cells m) (header (s_queue s)) xs \<and>
           buffers.count (s_queue s) = of_nat (length xs) \<and> chain (cells m) (alloc_first (s_alloc s)) ys 0 \<and>
           (\<forall>i < length svs. \<forall>f l. keeps (svs ! i) = Some (f, l) \<longrightarrow>
              hd (gss ! i) = f \<and> last (gss ! i) = l \<and> (\<exists>r. chain (cells m) f (gss ! i) r)) \<and>
           \<not> q_locked (s_queue s) \<and> \<not> alloc_locked (s_alloc s)"
proof -
  from runs_ok [OF assms] obtain N where "net_owns ((ph, s, m), svs) N" by blast
  moreover obtain hs gss xs ys where "N = (hs, gss, xs, ys)" by (cases N)
  ultimately have N: "net_owns ((ph, s, m), svs) (hs, gss, xs, ys)" by simp
  have "sender_ok m s xs ys" by (rule owns_facts(1) [OF net_owns_main [OF N]])
  then have "heap_ok m" "queue_list m (s_queue s) xs" "free_list m (s_alloc s) ys"
    by (simp_all add: sender_ok_def queue_ok_def)
  moreover have "hd (gss ! i) = f \<and> last (gss ! i) = l \<and> (\<exists>r. chain (cells m) f (gss ! i) r)"
    if "i < length svs" "keeps (svs ! i) = Some (f, l)" for i f l
  proof -
    note ow = net_owns_saver [OF N that(1)]
    have h: "held (place (svs ! i)) = Some (f, l)" using that(2) by simp
    with owns_first [OF ow this] ow show ?thesis by (auto simp: own_chain_def split: option.splits)
  qed
  ultimately show ?thesis unfolding queue_list_def free_list_def by blast
qed

theorem well_formed_witness:
  "\<exists>s m xs. runs 0 Enc_no ((Ready, sample_online, sample_full), [Seizing True]) ([], [[]], [2, 3], [4, 5])
     [Spill] [] [] [[1, 2]] ((Popping, s, m), [Saved (True, 2, 3) 1]) \<and>
     heap_ok m \<and> ring (cells m) (header (s_queue s)) xs \<and> buffers.count (s_queue s) = of_nat (length xs)"
proof -
  obtain s m where run: "runs 0 Enc_no ((Ready, sample_online, sample_full), [Seizing True]) ([], [[]], [2, 3], [4, 5])
     [Spill] [] [] [[1, 2]] ((Popping, s, m), [Saved (True, 2, 3) 1])"
    using sample_saving by blast
  have "Reuse \<notin> set [Spill]" by simp
  from well_formed [OF run this] run show ?thesis by blast
qed

text \<open>
  C2: no interleaving ends in undefined behaviour: in every configuration that is reached without a
  step after a save that failed, the next step of the thread follows no dangling or null pointer, frees nothing twice and takes no mutex it
  holds, whatever the peer, the kernel and the files do, provided that the producers push
  during a wait only buffers of their own; and so do a producer's \<open>get\<close>, its \<open>send\<close> of a chain that
  it owns, and every thread that saves, with the step after a save that failed, too.
\<close>

theorem no_interleaving_faults:
  assumes "runs ctx enc n0 N0 es gs ws ds ((ph, s, m), svs)"
    and "ph = Popping \<longrightarrow> (\<exists>xs ys w zs. owns (ph, s, m) ([], xs, ys) \<and> arrives m s xs ys w zs)"
    and "Reuse \<notin> set es"
  shows "(ph \<noteq> Leaving \<longrightarrow> thread_step (vtable_of ctx enc) (ph, s, m) \<noteq> Fault) \<and> alloc_get (s_alloc s) m \<noteq> Fault \<and>
         (\<forall>hs xs ys f zs l. owns (ph, s, m) (hs, xs, ys) \<and> to_give m s xs ys f zs l \<longrightarrow> send_push f l s m \<noteq> Fault) \<and>
         (\<forall>sv \<in> set svs. saver_step (sv, s, m) \<noteq> Fault)"
proof -
  from runs_ok [OF assms(1,3)] obtain N where i: "conn_inv enc s" "online (vtable_of ctx enc) (ph, s, m)"
    and "net_owns ((ph, s, m), svs) N" by auto
  moreover obtain hs gss xs ys where "N = (hs, gss, xs, ys)" by (cases N)
  ultimately have N: "net_owns ((ph, s, m), svs) (hs, gss, xs, ys)" by simp
  note u = owns_unique [OF net_owns_main [OF N]] and safe = conn.net_safe [OF N i]
  have "ph = Popping \<Longrightarrow> \<exists>w zs. arrives m s xs ys w zs" using assms(2) u by blast
  moreover have "send_push f l s m \<noteq> Fault" if "owns (ph, s, m) (hs', xs', ys')" "to_give m s xs' ys' f zs l"
    for hs' xs' ys' f zs l
    using safe(3) [of f zs l] u [OF that(1)] that(2) by simp
  ultimately show ?thesis using safe(1,2,4) by blast
qed

theorem no_interleaving_faults_witness:
  "\<exists>es s m. runs 0 Enc_no ((Ready, sample_online, sample_life), []) ([], [], [2, 3], [4, 5]) es [] [[1, 2]] []
       ((Holding 3 3, s, m), []) \<and> Reuse \<notin> set es \<and>
     thread_step insecure (Holding 3 3, s, m) \<noteq> Fault \<and> alloc_get (s_alloc s) m \<noteq> Fault"
proof -
  obtain es s m where re: "Reuse \<notin> set es" and run: "runs 0 Enc_no ((Ready, sample_online, sample_life), [])
       ([], [], [2, 3], [4, 5]) es [] [[1, 2]] [] ((Holding 3 3, s, m), [])" by (rule sample_run)
  from no_interleaving_faults [OF run _ re] run re show ?thesis by (auto simp del: thread_step.simps)
qed

text \<open>
  C18: the sender leaks nothing over its life: whatever it did in any run without a step after a save
  that failed, when it is destroyed then, the descriptors of sockets and the TLS objects that are open
  are those that were open at first beyond the connection of the sender; no descriptor of a file is
  open that was not open at first, as many mappings as at first remain, and as many directory streams,
  apart from the one of a thread that goes through the directory; and of the buffers just those of
  the queue are deleted. If the thread runs, \<open>pthread_join\<close> must get an answer.
\<close>

theorem life_leaks_nothing:
  assumes "runs ctx enc n0 N0 es gs ws ds ((ph, s, m), svs)" and "Reuse \<notin> set es" and "s_running s \<longrightarrow> replies m \<noteq> []"
  shows "\<exists>m' hs gss xs ys. sender_destroy s m = Ok m' \<and> heap_ok m' \<and> files m' = files m \<and>
           net_owns ((ph, s, m), svs) (hs, gss, xs, ys) \<and>
           cells m' = (\<lambda>p. if p \<in> set xs then None else cells m p) \<and>
           (\<forall>f. fd_balance f m' = fst (open_beyond (obj (fst n0)) (mach (fst n0))) f) \<and>
           (\<forall>p. ssl_balance p m' = snd (open_beyond (obj (fst n0)) (mach (fst n0))) p) \<and>
           dom (ofiles m') \<subseteq> dom (ofiles (mach (fst n0))) \<and> map_balance m' = map_balance (mach (fst n0)) \<and>
           dir_balance m' - of_bool (browsing ph) = dir_balance (mach (fst n0)) - of_bool (browsing (fst (fst n0)))"
proof -
  from assms(1) have "kept_open (fst n0) (ph, s, m)"
    unfolding runs_def using files.net_history_opens [of "\<lambda>_. True" ctx enc n0 es gs ws ds "((ph, s, m), svs)"] by simp
  then have opens: "dom (ofiles m') \<subseteq> dom (ofiles (mach (fst n0))) \<and> map_balance m' = map_balance (mach (fst n0)) \<and>
      dir_balance m' - of_bool (browsing ph) = dir_balance (mach (fst n0)) - of_bool (browsing (fst (fst n0)))"
    if "sender_destroy s m = Ok m'" for m'
    using destroy_still [OF that] by (simp add: kept_open_def still_def)
  from runs_ok [OF assms(1,2)] obtain N where N: "net_owns ((ph, s, m), svs) N"
    "open_beyond s m = open_beyond (obj (fst n0)) (mach (fst n0))" by auto
  moreover obtain hs gss xs ys where "N = (hs, gss, xs, ys)" by (cases N)
  ultimately have N': "net_owns ((ph, s, m), svs) (hs, gss, xs, ys)" by simp
  have "sender_ok m s xs ys" by (rule owns_facts(1) [OF net_owns_main [OF N']])
  from sender_destroy_Ok [OF this assms(3)] N' opens show ?thesis unfolding N(2) by blast
qed

theorem life_leaks_nothing_witness:
  "\<exists>s m m'. sender_destroy s m = Ok m' \<and> heap_ok m' \<and> fd_balance 3 m' = 0 \<and> fd_balance 3 sample_life = 1 \<and>
     ofiles m' = Map.empty \<and> map_balance m' = 0 \<and> dir_balance m' = 0"
proof -
  obtain es s m where off: "\<not> s_running s" and re: "Reuse \<notin> set es" and run: "runs 0 Enc_no ((Ready, sample_online, sample_life), [])
      ([], [], [2, 3], [4, 5]) es [] [[1, 2]] [] ((Holding 3 3, s, m), [])" by (rule sample_run)
  from life_leaks_nothing [OF run re] off obtain m' where "sender_destroy s m = Ok m'" "heap_ok m'"
    "fd_balance 3 m' = fst (open_beyond sample_online sample_life) 3"
    "dom (ofiles m') \<subseteq> dom (ofiles sample_life)" "map_balance m' = map_balance sample_life"
    "dir_balance m' = dir_balance sample_life" by auto
  moreover have "ofiles sample_life = Map.empty" "map_balance sample_life = 0" "dir_balance sample_life = 0"
    by (simp_all add: map_balance_def dir_balance_def sample_life_def sample_def)
  moreover have "fd_balance 3 sample_life = 1" by (simp add: fd_balance_def sample_life_def)
  moreover have "fst (open_beyond sample_online sample_life) 3 = 0"
    using calculation(10)
    by (simp add: open_beyond_def sample_online_def sample_sender_def new_sender_def new_ssl_socket_def
        new_socket_def ssl_fd_def)
  ultimately show ?thesis by auto
qed

end
